(* ===== verification/Prelude.thy ===== *)
theory Prelude
  imports Main "HOL-Library.Word" "HOL-Library.Monad_Syntax"
begin

text \<open>
  Shared ground of the development: the machine types of the C code, objects in memory as
  lists with checked accesses, counted loops, and the arithmetic of \<open>size_t\<close>.

  \<^item> A C object (an array, a buffer) is a list of its elements. A read or a write outside the
    object is undefined behaviour in C; here it is the value \<open>None\<close>, so a theorem that an
    operation returns \<open>Some\<close> is also a theorem that it stays inside its buffers.
  \<^item> A pointer that is written through is an object and an offset into it; a pointer that is
    only read is the rest of the object from that pointer on.
  \<^item> \<open>size_t\<close> is \<open>nat\<close>, with the wrap-around at \<open>2 ^ 64\<close> written out by \<open>size_add\<close>
    and \<open>size_sub\<close> where the code adds or subtracts sizes.
\<close>

unbundle bit_operations_syntax

type_synonym byte = "8 word"
type_synonym uint16 = "16 word"
type_synonym uint32 = "32 word"
type_synonym uint64 = "64 word"
type_synonym size_t = nat

named_theorems mem_simps \<open>results of the memory operations on accesses inside their objects\<close>

section \<open>Checked memory accesses\<close>

definition load :: "'a list \<Rightarrow> nat \<Rightarrow> 'a option" where
  "load buf i = (if i < length buf then Some (buf ! i) else None)"

definition store :: "'a list \<Rightarrow> nat \<Rightarrow> 'a \<Rightarrow> 'a list option" where
  "store buf i b = (if i < length buf then Some (buf[i := b]) else None)"

lemma load_in [mem_simps, simp]: "i < length buf \<Longrightarrow> load buf i = Some (buf ! i)"
  by (simp add: load_def)

lemma store_in [mem_simps, simp]: "i < length buf \<Longrightarrow> store buf i b = Some (buf[i := b])"
  by (simp add: store_def)

lemma load_Some_iff: "load buf i = Some b \<longleftrightarrow> i < length buf \<and> buf ! i = b"
  by (auto simp: load_def)

section \<open>Counted loops\<close>

text \<open>\<open>for_range i k f s\<close> runs the body \<open>f\<close> at \<open>i, i + 1, \<dots>\<close>, \<open>k\<close> times;
  \<open>for_loop i n f s\<close> is the C loop \<^verbatim>\<open>for (; i < n; i++)\<close> over the loop state \<open>s\<close>.\<close>

fun for_range :: "nat \<Rightarrow> nat \<Rightarrow> (nat \<Rightarrow> 's \<Rightarrow> 's option) \<Rightarrow> 's \<Rightarrow> 's option" where
  "for_range i 0 f s = Some s"
| "for_range i (Suc k) f s = do { t \<leftarrow> f i s; for_range (Suc i) k f t }"

definition for_loop :: "nat \<Rightarrow> nat \<Rightarrow> (nat \<Rightarrow> 's \<Rightarrow> 's option) \<Rightarrow> 's \<Rightarrow> 's option" where
  "for_loop i n f s = for_range i (n - i) f s"

lemma for_loop_done [simp]: "n \<le> i \<Longrightarrow> for_loop i n f s = Some s"
  by (simp add: for_loop_def)

lemma for_loop_step:
  "i < n \<Longrightarrow> for_loop i n f s = do { t \<leftarrow> f i s; for_loop (Suc i) n f t }"
  by (simp add: for_loop_def Suc_diff_Suc [symmetric])

text \<open>The rule for total correctness: an invariant that holds on entry and that the body keeps,
  without leaving its objects, holds when the loop ends, and the loop does end.\<close>

lemma for_range_rule:
  assumes "P i s"
    and "\<And>j t. i \<le> j \<Longrightarrow> j < i + k \<Longrightarrow> P j t \<Longrightarrow> \<exists>t'. f j t = Some t' \<and> P (Suc j) t'"
  shows "\<exists>t. for_range i k f s = Some t \<and> P (i + k) t"
  using assms
proof (induction k arbitrary: i s)
  case 0
  then show ?case by simp
next
  case (Suc k)
  obtain t where t: "f i s = Some t" "P (Suc i) t"
    using Suc.prems(2) [of i s] Suc.prems(1) by auto
  have "\<exists>u. for_range (Suc i) k f t = Some u \<and> P (Suc i + k) u"
    by (rule Suc.IH [OF t(2)]) (use Suc.prems(2) in auto)
  with t show ?case by simp
qed

lemma for_loop_rule:
  assumes "P i s" and "i \<le> n"
    and "\<And>j t. i \<le> j \<Longrightarrow> j < n \<Longrightarrow> P j t \<Longrightarrow> \<exists>t'. f j t = Some t' \<and> P (Suc j) t'"
  shows "\<exists>t. for_loop i n f s = Some t \<and> P n t"
  using for_range_rule [of P i s "n - i" f] assms by (simp add: for_loop_def)

text \<open>The same rule for a loop whose state is a known function of the counter.\<close>

lemma for_loop_fun:
  assumes "g i = s" and "i \<le> n"
    and "\<And>j. i \<le> j \<Longrightarrow> j < n \<Longrightarrow> f j (g j) = Some (g (Suc j))"
  shows "for_loop i n f s = Some (g n)"
  using for_loop_rule [of "\<lambda>j t. t = g j" i s n f] assms by auto

text \<open>A loop whose body cannot fail is a fold over its counter.\<close>

lemma for_loop_fold:
  assumes "\<And>j t. i \<le> j \<Longrightarrow> j < n \<Longrightarrow> Q t \<Longrightarrow> f j t = Some (g j t) \<and> Q (g j t)" and "Q s"
  shows "for_loop i n f s = Some (fold g [i..<n] s) \<and> Q (fold g [i..<n] s)"
proof (cases "i \<le> n")
  case True
  have "\<exists>t. for_loop i n f s = Some t \<and> t = fold g [i..<n] s \<and> Q t"
    by (rule for_loop_rule [where P = "\<lambda>j t. t = fold g [i..<j] s \<and> Q t"])
      (use assms True in auto)
  then show ?thesis by auto
qed (use assms in simp)

text \<open>What a scanning loop has established about \<open>[i, n)\<close>, one round at a time.\<close>

lemma all_from_step:
  "i < n \<Longrightarrow> (\<forall>j. i \<le> j \<and> j < n \<longrightarrow> P j) \<longleftrightarrow> P i \<and> (\<forall>j. Suc i \<le> j \<and> j < n \<longrightarrow> P j)"
  by (auto simp: Suc_le_eq) (metis le_neq_implies_less)

section \<open>Overwriting part of an object\<close>

definition patch :: "'a list \<Rightarrow> nat \<Rightarrow> 'a list \<Rightarrow> 'a list" where
  "patch buf off xs = take off buf @ xs @ drop (off + length xs) buf"

lemma patch_Nil [simp]: "patch buf off [] = buf"
  by (simp add: patch_def)

lemma length_patch [simp]: "off + length xs \<le> length buf \<Longrightarrow> length (patch buf off xs) = length buf"
  by (simp add: patch_def)

lemma take_patch [simp]: "n \<le> off \<Longrightarrow> off \<le> length buf \<Longrightarrow> take n (patch buf off xs) = take n buf"
  by (simp add: patch_def min_def)

lemma drop_patch [simp]:
  "off + length xs \<le> n \<Longrightarrow> off + length xs \<le> length buf \<Longrightarrow> drop n (patch buf off xs) = drop n buf"
  by (simp add: patch_def)

lemma nth_patch:
  "off + length xs \<le> length buf \<Longrightarrow> i < length buf \<Longrightarrow>
   patch buf off xs ! i = (if i < off then buf ! i
     else if i < off + length xs then xs ! (i - off) else buf ! i)"
  by (auto simp: patch_def nth_append min_def)

lemma patch_at:
  "off + length xs \<le> length buf \<Longrightarrow> take (length xs) (drop off (patch buf off xs)) = xs"
  by (simp add: patch_def)

lemma take_patch_end:
  "off + length xs \<le> length buf \<Longrightarrow> take (off + length xs) (patch buf off xs) = take off buf @ xs"
  by (simp add: patch_def)

lemma patch_snoc:
  assumes "off + Suc (length xs) \<le> length buf"
  shows "(patch buf off xs)[off + length xs := x] = patch buf off (xs @ [x])"
  using assms
  by (intro nth_equalityI) (auto simp: nth_patch nth_list_update nth_append)

lemma patch_take_Suc:
  assumes "j < length xs" and "off + length xs \<le> length buf"
  shows "(patch buf off (take j xs))[off + j := xs ! j] = patch buf off (take (Suc j) xs)"
proof -
  have "(patch buf off (take j xs))[off + length (take j xs) := xs ! j] =
      patch buf off (take j xs @ [xs ! j])"
    by (rule patch_snoc) (use assms in simp)
  then show ?thesis using assms by (simp add: take_Suc_conv_app_nth)
qed

text \<open>A loop that fills an object from \<open>off\<close> on, one element per round.\<close>

lemma for_loop_patch:
  assumes "length xs = n" and "off + n \<le> length buf"
    and "\<And>j. j < n \<Longrightarrow> f j (patch buf off (take j xs)) =
      store (patch buf off (take j xs)) (off + j) (xs ! j)"
  shows "for_loop 0 n f buf = Some (patch buf off xs)"
proof -
  have "for_loop 0 n f buf = Some (patch buf off (take n xs))"
  proof (rule for_loop_fun [where g = "\<lambda>j. patch buf off (take j xs)"])
    fix j assume "j < n"
    with assms show "f j (patch buf off (take j xs)) = Some (patch buf off (take (Suc j) xs))"
      by (simp add: patch_take_Suc)
  qed simp_all
  then show ?thesis using assms(1) by simp
qed

lemma patch_append:
  assumes "off + length xs + length ys \<le> length buf"
  shows "patch (patch buf off xs) (off + length xs) ys = patch buf off (xs @ ys)"
  using assms by (simp add: patch_def ac_simps)

lemma nth_patch_beyond:
  "off + length xs \<le> i \<Longrightarrow> i < length buf \<Longrightarrow> patch buf off xs ! i = buf ! i"
  by (simp add: nth_patch)

lemma store4:
  assumes "off + 4 \<le> length buf"
  shows "do { t0 \<leftarrow> store buf off a; t1 \<leftarrow> store t0 (off + 1) b; t2 \<leftarrow> store t1 (off + 2) c;
      store t2 (off + 3) d } = Some (patch buf off [a, b, c, d])"
proof -
  have "buf[off := a, off + 1 := b, off + 2 := c, off + 3 := d] = patch buf off [a, b, c, d]"
    using assms by (intro nth_equalityI) (auto simp: nth_patch nth_list_update nth_Cons' numeral_eq_Suc)
  then show ?thesis using assms by simp
qed

lemma take_take_drop: "take m xs @ take n (drop m xs) @ drop (m + n) xs = xs"
  by (metis append_take_drop_id drop_drop add.commute)

section \<open>Arithmetic of sizes\<close>

definition SIZE_MOD :: nat where "SIZE_MOD = 2 ^ 64"

definition OBJ_MAX :: nat where "OBJ_MAX = 2 ^ 63"

definition size_add :: "size_t \<Rightarrow> size_t \<Rightarrow> size_t" where
  "size_add a b = (a + b) mod SIZE_MOD"

definition size_sub :: "size_t \<Rightarrow> size_t \<Rightarrow> size_t" where
  "size_sub a b = (a + SIZE_MOD - b) mod SIZE_MOD"

lemma size_add_exact [simp]: "a + b < SIZE_MOD \<Longrightarrow> size_add a b = a + b"
  by (simp add: size_add_def)

lemma size_sub_exact [simp]:
  assumes "b \<le> a" and "a < SIZE_MOD"
  shows "size_sub a b = a - b"
proof -
  have "a + SIZE_MOD - b = (a - b) + SIZE_MOD" using assms(1) by simp
  then have "size_sub a b = (a - b) mod SIZE_MOD" by (simp only: size_sub_def mod_add_self2)
  then show ?thesis using less_imp_diff_less [OF assms(2), of b] by (simp only: mod_less)
qed

lemma OBJ_MAX_double: "OBJ_MAX + OBJ_MAX = SIZE_MOD"
  by (simp add: OBJ_MAX_def SIZE_MOD_def)

lemma OBJ_MAX_pos [simp]: "0 < OBJ_MAX"
  by (simp add: OBJ_MAX_def)

lemma size_add_obj: "a + b \<le> OBJ_MAX \<Longrightarrow> size_add a b = a + b"
  and size_sub_obj: "b \<le> a \<Longrightarrow> a \<le> OBJ_MAX \<Longrightarrow> size_sub a b = a - b"
  by (rule size_add_exact size_sub_exact; use OBJ_MAX_double OBJ_MAX_pos in linarith)+

text \<open>The C conversion of a size to \<open>int\<close> keeps the low 32 bits as a signed number.\<close>

definition to_int :: "size_t \<Rightarrow> int" where
  "to_int n = sint (word_of_nat n :: 32 word)"

lemma to_int_small: "n < 2 ^ 31 \<Longrightarrow> to_int n = int n"
  unfolding to_int_def
  by (simp add: sint_uint signed_take_bit_int_eq_self unsigned_of_nat take_bit_nat_eq_self)

section \<open>Words\<close>

lemma not_bit_high:
  fixes v :: "'a::len word"
  assumes "unat v < 2 ^ m" and "m \<le> k"
  shows "\<not> bit v k"
proof
  assume "bit v k"
  then have "bit (unat v) k" by (simp add: bit_unsigned_iff)
  moreover have "take_bit m (unat v) = unat v" using assms(1) by (simp add: take_bit_nat_eq_self)
  ultimately have "bit (take_bit m (unat v)) k" by simp
  with assms(2) show False by (simp add: bit_take_bit_iff)
qed

text \<open>The bit fields of a byte, read as numbers.\<close>

named_theorems byte_fields \<open>bit fields of a byte as numbers\<close>

lemma unat_and_mask: "unat ((w :: 'a::len word) AND mask n) = unat w mod 2 ^ n"
  by (simp only: take_bit_eq_mask [symmetric] unsigned_take_bit_eq) (simp add: take_bit_eq_mod)

lemma unat_byte_and_0F [byte_fields]: "unat ((b :: byte) AND 0x0F) = unat b mod 16"
  using unat_and_mask [of b 4] by (simp add: mask_eq_exp_minus_1)

lemma unat_byte_and_7F [byte_fields]: "unat ((b :: byte) AND 0x7F) = unat b mod 128"
  using unat_and_mask [of b 7] by (simp add: mask_eq_exp_minus_1)

lemma unat_byte_and_07 [byte_fields]: "unat ((b :: byte) AND 0x07) = unat b mod 8"
  using unat_and_mask [of b 3] by (simp add: mask_eq_exp_minus_1)

lemma unat_drop_bit_4 [byte_fields]: "unat (drop_bit 4 (b :: byte)) = unat b div 16"
  by (simp add: drop_bit_eq_div unat_div)

lemma unat_byte_less [simp]: "unat (b :: byte) < 256"
  using unsigned_less [of b, where ?'a = nat] by simp

lemma byte_high_bit [byte_fields]: "(b :: byte) AND 0x80 \<noteq> 0 \<longleftrightarrow> 128 \<le> unat b"
proof -
  have "b AND 0x80 \<noteq> 0 \<longleftrightarrow> bit b 7"
    using and_exp_eq_0_iff_not_bit [of b 7] by simp
  also have "\<dots> \<longleftrightarrow> bit (unat b) 7" by (simp add: bit_unsigned_iff)
  also have "\<dots> \<longleftrightarrow> odd (unat b div 128)" by (simp add: bit_iff_odd)
  also have "\<dots> \<longleftrightarrow> 128 \<le> unat b"
  proof -
    have "unat b div 128 = 0 \<or> unat b div 128 = 1" using unat_byte_less [of b] by linarith
    then show ?thesis by (auto simp: div_eq_0_iff)
  qed
  finally show ?thesis .
qed

lemma unat_byte_or_80 [byte_fields]:
  assumes "unat (b :: byte) < 128"
  shows "unat (b OR 0x80) = unat b + 128"
proof -
  have nb: "\<not> bit b n" if "7 \<le> n" for n using not_bit_high [of b 7 n] assms that by simp
  have e: "(0x80 :: byte) = push_bit 7 1" by simp
  have "b OR 0x80 = b + 0x80"
    unfolding e by (rule disjunctive_add [symmetric]) (use nb in \<open>auto simp del: push_bit_of_1 simp: bit_push_bit_iff bit_1_iff\<close>)
  then show ?thesis using assms by (simp add: unat_word_ariths)
qed

lemma unat_less_exp:
  fixes v :: "'a::len word"
  assumes "\<And>k. m \<le> k \<Longrightarrow> \<not> bit v k"
  shows "unat v < 2 ^ m"
proof -
  have "take_bit m v = v" by (rule bit_word_eqI) (use assms not_less in \<open>auto simp: bit_take_bit_iff\<close>)
  then have "unat v = take_bit m (unat v)" by (metis unsigned_take_bit_eq)
  then show ?thesis by (metis take_bit_nat_less_exp)
qed

lemma unat_ucast_up:
  "LENGTH('a) \<le> LENGTH('b) \<Longrightarrow> unat (ucast (w :: 'a::len word) :: 'b::len word) = unat w"
  by (simp add: unsigned_ucast_eq take_bit_nat_eq_self less_le_trans [OF unsigned_less])

lemma unat_of_nat_byte: "n < 256 \<Longrightarrow> unat (word_of_nat n :: byte) = n"
  by (simp add: unsigned_of_nat take_bit_nat_eq_self)

lemma byte_eq_of_nat: "n < 256 \<Longrightarrow> (b :: byte) = word_of_nat n \<longleftrightarrow> unat b = n"
  by (auto simp: unat_of_nat_byte)

lemma word_unat_eqI: "unat a = unat b \<Longrightarrow> a = b"
  by (rule unsigned_word_eqI)

lemma byte_of_natI: "unat (b :: byte) = n \<Longrightarrow> b = word_of_nat n"
  by auto

lemma flag_opcode_split:
  fixes n :: nat
  assumes "n < 256" and "n div 16 mod 8 = 0"
  shows "n = n mod 16 + (if 128 \<le> n then 128 else 0)"
proof -
  obtain k where k: "n div 16 = 8 * k" using assms(2) by (auto simp: mod_eq_0_iff_dvd elim: dvdE)
  moreover have "n div 16 < 16" using assms(1) by linarith
  ultimately have "k = 0 \<or> k = 1" by auto
  with k have "n div 16 = 0 \<or> n div 16 = 8" by auto
  then show ?thesis using div_mult_mod_eq [of n 16] by (elim disjE) (auto simp: div_eq_0_iff)
qed

lemma flag_length_split: "n < 256 \<Longrightarrow> n = n mod 128 + (if 128 \<le> n then 128 else 0)"
  for n :: nat
  by (cases "128 \<le> n") (simp_all add: le_mod_geq)

lemma unat_push_or:
  fixes x c :: "'a::len word"
  assumes "unat c < 2 ^ n" and "unat x * 2 ^ n + unat c < 2 ^ LENGTH('a)"
  shows "unat (push_bit n x OR c) = unat x * 2 ^ n + unat c"
proof -
  have nb: "\<not> bit c k" if "n \<le> k" for k using assms(1) that by (rule not_bit_high)
  have "push_bit n x OR c = push_bit n x + c"
    by (rule disjunctive_add [symmetric]) (use nb in \<open>auto simp: bit_push_bit_iff\<close>)
  also have "\<dots> = word_of_nat (unat x * 2 ^ n + unat c)" by (simp add: push_bit_eq_mult)
  finally show ?thesis using assms(2) by (simp only: unsigned_of_nat take_bit_nat_eq_self of_nat_id)
qed

text \<open>C string literals as bytes, without the terminating NUL.\<close>

definition bytes_of :: "string \<Rightarrow> byte list" where
  "bytes_of s = map of_char s"

lemma length_bytes_of [simp]: "length (bytes_of s) = length s"
  by (simp add: bytes_of_def)

section \<open>Computations that return\<close>

text \<open>\<open>returns m Q\<close>: the computation stays inside its objects, ends, and its result satisfies \<open>Q\<close>.
  The rules follow the statements of the code, so a proof about a function reads along its body.\<close>

definition returns :: "'a option \<Rightarrow> ('a \<Rightarrow> bool) \<Rightarrow> bool" where
  "returns m Q \<longleftrightarrow> (\<exists>x. m = Some x \<and> Q x)"

lemma returns_Some [simp]: "returns (Some x) Q \<longleftrightarrow> Q x"
  by (simp add: returns_def)

lemma returns_eq: "returns m Q \<Longrightarrow> m = Some x \<Longrightarrow> Q x"
  by (simp add: returns_def)

lemma returnsE:
  assumes "returns m Q"
  obtains x where "m = Some x" "Q x"
  using assms by (auto simp: returns_def)

lemma returns_bind: "returns m P \<Longrightarrow> (\<And>x. P x \<Longrightarrow> returns (f x) Q) \<Longrightarrow> returns (Option.bind m f) Q"
  by (auto simp: returns_def)

lemma returns_weaken: "returns m P \<Longrightarrow> (\<And>x. P x \<Longrightarrow> Q x) \<Longrightarrow> returns m Q"
  by (auto simp: returns_def)

lemma returns_if:
  "(b \<Longrightarrow> returns m Q) \<Longrightarrow> (\<not> b \<Longrightarrow> returns n Q) \<Longrightarrow> returns (if b then m else n) Q"
  by simp

end
