(* ===== verification/Util.thy ===== *)
theory Util
  imports Prelude
begin

text \<open>
  The utilities of \<^verbatim>\<open>src/util\<close>: the freestanding memory primitives of \<^verbatim>\<open>mem.c\<close> and the
  payload mask of \<^verbatim>\<open>mask.c\<close>. Each loop is shown to stay inside its objects and to compute
  the obvious function of the bytes it reads; the mask is shown to be its own inverse, which
  is the law the frame layers rely on (locale \<open>involutive_mask\<close>).
\<close>

section \<open>Memory primitives (mem.c)\<close>

definition ws_memcpy :: "byte list \<Rightarrow> nat \<Rightarrow> byte list \<Rightarrow> nat \<Rightarrow> size_t \<Rightarrow> byte list option" where
  "ws_memcpy dst d src s n =
     for_loop 0 n (\<lambda>i t. do { b \<leftarrow> load src (s + i); store t (d + i) b }) dst"

definition ws_memset :: "byte list \<Rightarrow> nat \<Rightarrow> int \<Rightarrow> size_t \<Rightarrow> byte list option" where
  "ws_memset dst d c n = for_loop 0 n (\<lambda>i t. store t (d + i) (word_of_int c)) dst"

function memcmp_loop :: "byte list \<Rightarrow> byte list \<Rightarrow> size_t \<Rightarrow> size_t \<Rightarrow> int option" where
  "memcmp_loop x y i n =
     (if i < n then do {
        a \<leftarrow> load x i;
        b \<leftarrow> load y i;
        if a \<noteq> b then Some (uint a - uint b) else memcmp_loop x y (Suc i) n
      } else Some 0)"
  by pat_completeness auto
termination
  by (relation "measure (\<lambda>(x, y, i, n). n - i)") auto

declare memcmp_loop.simps [simp del]

definition ws_memcmp :: "byte list \<Rightarrow> byte list \<Rightarrow> size_t \<Rightarrow> int option" where
  "ws_memcmp a b n = memcmp_loop a b 0 n"

text \<open>The names the compiler emits calls to.\<close>

definition memcpy :: "byte list \<Rightarrow> nat \<Rightarrow> byte list \<Rightarrow> nat \<Rightarrow> size_t \<Rightarrow> byte list option" where
  "memcpy dst d src s n = ws_memcpy dst d src s n"

definition memset :: "byte list \<Rightarrow> nat \<Rightarrow> int \<Rightarrow> size_t \<Rightarrow> byte list option" where
  "memset dst d c n = ws_memset dst d c n"

definition memcmp :: "byte list \<Rightarrow> byte list \<Rightarrow> size_t \<Rightarrow> int option" where
  "memcmp a b n = ws_memcmp a b n"

section \<open>Masking (mask.c)\<close>

definition ws_mask :: "byte list \<Rightarrow> nat \<Rightarrow> size_t \<Rightarrow> byte list \<Rightarrow> byte list option" where
  "ws_mask data off len key =
     for_loop 0 len (\<lambda>i t. do {
       b \<leftarrow> load t (off + i);
       k \<leftarrow> load key (i mod 4);
       store t (off + i) (b XOR k)
     }) data"

text \<open>The masking of RFC 6455 section 5.3 as a function of the payload.\<close>

definition mask_bytes :: "byte list \<Rightarrow> byte list \<Rightarrow> byte list" where
  "mask_bytes key bs = map (\<lambda>i. bs ! i XOR key ! (i mod 4)) [0..<length bs]"

section \<open>What the primitives compute\<close>

lemma ws_memcpy_eq [mem_simps]:
  assumes "d + n \<le> length dst" and "s + n \<le> length src"
  shows "ws_memcpy dst d src s n = Some (patch dst d (take n (drop s src)))"
  unfolding ws_memcpy_def by (rule for_loop_patch) (use assms in auto)

lemma ws_memset_eq [mem_simps]:
  assumes "d + n \<le> length dst"
  shows "ws_memset dst d c n = Some (patch dst d (replicate n (word_of_int c)))"
  unfolding ws_memset_def by (rule for_loop_patch) (use assms in auto)

text \<open>The comparison returns the difference of the first bytes that differ.\<close>

lemma memcmp_loop_cases:
  assumes "n \<le> length x" and "n \<le> length y" and "i \<le> n"
  shows "(memcmp_loop x y i n = Some 0 \<and> (\<forall>j. i \<le> j \<and> j < n \<longrightarrow> x ! j = y ! j)) \<or>
    (\<exists>k. i \<le> k \<and> k < n \<and> (\<forall>j. i \<le> j \<and> j < k \<longrightarrow> x ! j = y ! j) \<and> x ! k \<noteq> y ! k \<and>
      memcmp_loop x y i n = Some (uint (x ! k) - uint (y ! k)))"
  using assms
proof (induction x y i n rule: memcmp_loop.induct)
  case (1 x y i n)
  show ?case
  proof (cases "i < n \<and> x ! i = y ! i")
    case True
    with "1.prems" have step: "memcmp_loop x y i n = memcmp_loop x y (Suc i) n"
      by (simp add: memcmp_loop.simps [of x y i n])
    have IH: "(memcmp_loop x y (Suc i) n = Some 0 \<and> (\<forall>j. Suc i \<le> j \<and> j < n \<longrightarrow> x ! j = y ! j)) \<or>
      (\<exists>k. Suc i \<le> k \<and> k < n \<and> (\<forall>j. Suc i \<le> j \<and> j < k \<longrightarrow> x ! j = y ! j) \<and> x ! k \<noteq> y ! k \<and>
        memcmp_loop x y (Suc i) n = Some (uint (x ! k) - uint (y ! k)))"
      by (rule "1.IH") (use True "1.prems" in auto)
    have eq: "x ! j = y ! j" if "i \<le> j" "Suc i \<le> j \<Longrightarrow> x ! j = y ! j" for j
      using True that by (cases "j = i") auto
    from IH show ?thesis
    proof (elim disjE exE conjE)
      assume "memcmp_loop x y (Suc i) n = Some 0" "\<forall>j. Suc i \<le> j \<and> j < n \<longrightarrow> x ! j = y ! j"
      then show ?thesis using eq step by simp
    next
      fix k assume "Suc i \<le> k" "k < n" "\<forall>j. Suc i \<le> j \<and> j < k \<longrightarrow> x ! j = y ! j" "x ! k \<noteq> y ! k"
        "memcmp_loop x y (Suc i) n = Some (uint (x ! k) - uint (y ! k))"
      then show ?thesis using eq step by (intro disjI2 exI [of _ k]) auto
    qed
  next
    case False
    with "1.prems" show ?thesis
      by (cases "i < n") (auto simp: memcmp_loop.simps [of x y i n] memcmp_loop.simps [of x y n n])
  qed
qed

lemma ws_memcmp_zero:
  assumes "n \<le> length x" and "n \<le> length y"
  shows "\<exists>r. ws_memcmp x y n = Some r \<and> (r = 0 \<longleftrightarrow> take n x = take n y)"
proof -
  have eq: "take n x = take n y \<longleftrightarrow> (\<forall>j < n. x ! j = y ! j)"
    using assms by (auto simp: list_eq_iff_nth_eq)
  from memcmp_loop_cases [OF assms le0] show ?thesis
  proof (elim disjE exE conjE)
    assume "memcmp_loop x y 0 n = Some 0" "\<forall>j. 0 \<le> j \<and> j < n \<longrightarrow> x ! j = y ! j"
    then show ?thesis by (simp add: ws_memcmp_def eq)
  next
    fix k assume k: "k < n" "x ! k \<noteq> y ! k"
      and r: "memcmp_loop x y 0 n = Some (uint (x ! k) - uint (y ! k))"
    from k(2) have "uint (x ! k) \<noteq> uint (y ! k)" by (simp add: word_uint_eq_iff)
    with k r show ?thesis by (auto simp: ws_memcmp_def eq)
  qed
qed

lemma length_mask_bytes [simp]: "length (mask_bytes key bs) = length bs"
  by (simp add: mask_bytes_def)

lemma nth_mask_bytes: "i < length bs \<Longrightarrow> mask_bytes key bs ! i = bs ! i XOR key ! (i mod 4)"
  by (simp add: mask_bytes_def)

lemma ws_mask_eq [mem_simps]:
  assumes "off + len \<le> length data" and "length key = 4"
  shows "ws_mask data off len key =
    Some (patch data off (mask_bytes key (take len (drop off data))))"
  unfolding ws_mask_def
  by (rule for_loop_patch) (use assms in \<open>auto simp: nth_patch_beyond nth_mask_bytes\<close>)

section \<open>The mask as an interface\<close>

text \<open>What the frame layers need of a payload mask: it keeps the length, it works bytewise from
  the front, and applying it twice gives the payload back.\<close>

locale involutive_mask =
  fixes mask :: "'k \<Rightarrow> byte list \<Rightarrow> byte list"
  assumes mask_length: "length (mask k xs) = length xs"
    and mask_mask: "mask k (mask k xs) = xs"
    and mask_take: "take n (mask k xs) = mask k (take n xs)"
begin

lemma mask_inj: "mask k xs = mask k ys \<longleftrightarrow> xs = ys"
  by (metis mask_mask)

lemma mask_empty: "mask k [] = []"
  using mask_length [of k "[]"] by simp

lemma mask_prefix_inverse: "mask k (take n (mask k xs)) = take n xs"
  by (simp add: mask_take mask_mask)

lemma mask_bij: "bij (mask k)"
  by (rule bijI') (auto simp: mask_inj intro: mask_mask [symmetric])

end

interpretation ws: involutive_mask mask_bytes
proof unfold_locales
  fix k xs :: "byte list" and n :: nat
  show "length (mask_bytes k xs) = length xs" by simp
  show "mask_bytes k (mask_bytes k xs) = xs"
    by (rule nth_equalityI) (simp_all add: nth_mask_bytes xor.assoc)
  show "take n (mask_bytes k xs) = mask_bytes k (take n xs)"
    by (rule nth_equalityI) (simp_all add: nth_mask_bytes)
qed

section \<open>Properties\<close>

text \<open>Masking in place twice with the same key restores the object, whatever part of it is
  masked, and the first pass writes only \<open>data[off, off + len)\<close>, each byte with its key byte.\<close>

lemma mask_in_place:
  assumes "off + len \<le> length data" and "length key = 4"
  shows "\<exists>d. ws_mask data off len key = Some d \<and> ws_mask d off len key = Some data \<and>
    length d = length data \<and>
    (\<forall>i < length data. d ! i =
      (if off \<le> i \<and> i < off + len then data ! i XOR key ! ((i - off) mod 4) else data ! i))"
proof -
  let ?x = "take len (drop off data)"
  let ?d = "patch data off (mask_bytes key ?x)"
  have l: "length ?x = len" using assms(1) by simp
  have at: "take len (drop off ?d) = mask_bytes key ?x"
    using patch_at [of off "mask_bytes key ?x" data] assms(1) by simp
  have "patch ?d off ?x = data" using assms(1) by (simp add: patch_def add.commute flip: drop_drop)
  then have "ws_mask ?d off len key = Some data"
    using assms at by (simp add: ws_mask_eq ws.mask_mask)
  moreover have "?d ! i = (if off \<le> i \<and> i < off + len then data ! i XOR key ! ((i - off) mod 4) else data ! i)"
    if "i < length data" for i
    using that assms(1) by (simp add: nth_patch nth_mask_bytes)
  ultimately show ?thesis using assms by (intro exI [of _ ?d]) (simp add: ws_mask_eq)
qed

text \<open>The memory comparison answers 0 exactly on equal prefixes and otherwise the difference of
  the first bytes that differ, so its sign is the lexicographic order.\<close>

lemma memcmp_order:
  assumes "n \<le> length a" and "n \<le> length b"
  shows "ws_memcmp a b n = Some 0 \<and> take n a = take n b \<or>
    (\<exists>k < n. take k a = take k b \<and> a ! k \<noteq> b ! k \<and> ws_memcmp a b n = Some (uint (a ! k) - uint (b ! k)))"
proof -
  consider "ws_memcmp a b n = Some 0" "\<forall>j. j < n \<longrightarrow> a ! j = b ! j"
    | k where "k < n" "\<forall>j. j < k \<longrightarrow> a ! j = b ! j" "a ! k \<noteq> b ! k"
        "ws_memcmp a b n = Some (uint (a ! k) - uint (b ! k))"
    using memcmp_loop_cases [OF assms le0] unfolding ws_memcmp_def by auto
  then show ?thesis
  proof cases
    case 1
    then show ?thesis using assms by (auto intro: nth_equalityI)
  next
    case 2
    then have "take k a = take k b" using assms by (intro nth_equalityI) auto
    with 2 show ?thesis by blast
  qed
qed

end
