(* ===== verification/Bytes.thy ===== *)
theory Bytes
  imports Prelude
begin

text \<open>
  Big-endian numbers: the bytes of a 64-bit number and the number of a run of bytes, used by the
  frame header, the SHA-1 length block and the close code.
\<close>

definition be_bytes :: "nat \<Rightarrow> uint64 \<Rightarrow> byte list" where
  "be_bytes n v = map (\<lambda>i. ucast (drop_bit (8 * (n - 1 - i)) v)) [0..<n]"

definition be_val :: "byte list \<Rightarrow> uint64" where
  "be_val bs = foldl (\<lambda>v b. push_bit 8 v OR ucast b) 0 bs"

lemma be_val_snoc: "be_val (bs @ [b]) = push_bit 8 (be_val bs) OR ucast b"
  by (simp add: be_val_def)

lemma bit_be_val:
  "bit (be_val bs) k \<longleftrightarrow> k < 64 \<and> k div 8 < length bs \<and> bit (bs ! (length bs - 1 - k div 8)) (k mod 8)"
proof (induction bs arbitrary: k rule: rev_induct)
  case Nil
  then show ?case by (simp add: be_val_def)
next
  case (snoc b bs)
  show ?case
  proof (cases "k < 8")
    case True
    then show ?thesis
      by (auto simp: be_val_snoc bit_simps nth_append)
  next
    case False
    have nb: "\<not> bit b k" using False by (auto dest: bit_imp_le_length)
    have "bit (be_val (bs @ [b])) k \<longleftrightarrow> k < 64 \<and> bit (be_val bs) (k - 8)"
      using False nb by (auto simp: be_val_snoc bit_simps)
    also have "\<dots> \<longleftrightarrow> k < 64 \<and> k div 8 - 1 < length bs \<and>
        bit (bs ! (length bs - 1 - (k div 8 - 1))) (k mod 8)"
      using False by (auto simp: snoc.IH le_div_geq le_mod_geq)
    also have "\<dots> \<longleftrightarrow> k < 64 \<and> k div 8 < length (bs @ [b]) \<and>
        bit ((bs @ [b]) ! (length (bs @ [b]) - 1 - k div 8)) (k mod 8)"
    proof -
      have "1 \<le> k div 8" using False by (simp add: le_div_geq)
      then show ?thesis by (auto simp: nth_append)
    qed
    finally show ?thesis .
  qed
qed

lemma length_be_bytes [simp]: "length (be_bytes n v) = n"
  by (simp add: be_bytes_def)

lemma be_val_be_bytes:
  assumes "unat v < 2 ^ (8 * n)"
  shows "be_val (be_bytes n v) = v"
proof (rule bit_word_eqI)
  fix k assume "k < LENGTH(64)"
  show "bit (be_val (be_bytes n v)) k = bit v k"
  proof (cases "k div 8 < n")
    case True
    then have "bit (be_bytes n v ! (n - 1 - k div 8)) (k mod 8) = bit v k"
      by (simp add: be_bytes_def bit_simps)
    then show ?thesis using True \<open>k < LENGTH(64)\<close> by (simp add: bit_be_val)
  next
    case False
    then have "8 * n \<le> k" by (simp add: not_less less_eq_div_iff_mult_less_eq ac_simps)
    then show ?thesis using False not_bit_high [OF assms] by (simp add: bit_be_val)
  qed
qed

lemma be_bytes_be_val:
  assumes "length bs \<le> 8"
  shows "be_bytes (length bs) (be_val bs) = bs"
proof (rule nth_equalityI)
  fix i assume "i < length (be_bytes (length bs) (be_val bs))"
  then have i: "i < length bs" by simp
  show "be_bytes (length bs) (be_val bs) ! i = bs ! i"
  proof (rule bit_word_eqI)
    fix k assume "k < LENGTH(8)"
    then have k: "k < 8" by simp
    let ?j = "length bs - 1 - i"
    have "(8 * ?j + k) div 8 = ?j" "(8 * ?j + k) mod 8 = k" using k by simp_all
    moreover have "8 * ?j + k < 64" using i k assms by linarith
    moreover have "length bs - 1 - ?j = i" "length bs - Suc i < length bs" using i by simp_all
    ultimately show "bit (be_bytes (length bs) (be_val bs) ! i) k = bit (bs ! i) k"
      using i k by (simp add: be_bytes_def bit_simps bit_be_val)
  qed
qed simp

lemma unat_be_val_less: "length bs \<le> 8 \<Longrightarrow> unat (be_val bs) < 2 ^ (8 * length bs)"
  by (rule unat_less_exp) (auto simp: bit_be_val not_less dest: div_le_mono [where k = 8])

end
