(* ===== verification/Sha1.thy ===== *)
theory Sha1
  imports Util Bytes
begin

text \<open>
  SHA-1, after \<^verbatim>\<open>src/crypto/sha1.c\<close>. The single-shot routine, which compresses whole blocks in
  place and builds the last one or two blocks in a 128-byte buffer, is shown to compute the
  SHA-1 of RFC 3174 (\<open>sha1_ref\<close>: pad the message, then fold the compression function over the
  64-byte blocks) without leaving any of its arrays.
\<close>

section \<open>The routine (sha1.c)\<close>

definition rotl32 :: "uint32 \<Rightarrow> nat \<Rightarrow> uint32" where
  "rotl32 x n = push_bit n x OR drop_bit (32 - n) x"

definition kK :: "uint32 list" where
  "kK = [0x5A827999, 0x6ED9EBA1, 0x8F1BBCDC, 0xCA62C1D6]"

definition round_f :: "nat \<Rightarrow> uint32 \<Rightarrow> uint32 \<Rightarrow> uint32 \<Rightarrow> uint32" where
  "round_f stage b c d =
     (if stage = 0 then (b AND c) OR (NOT b AND d)
      else if stage = 2 then (b AND c) OR (b AND d) OR (c AND d)
      else b XOR c XOR d)"

definition expand :: "byte list \<Rightarrow> uint32 list \<Rightarrow> uint32 list option" where
  "expand blk w = do {
     w1 \<leftarrow> for_loop 0 16 (\<lambda>i w. do {
         b0 \<leftarrow> load blk (i * 4);
         b1 \<leftarrow> load blk (i * 4 + 1);
         b2 \<leftarrow> load blk (i * 4 + 2);
         b3 \<leftarrow> load blk (i * 4 + 3);
         store w i (push_bit 24 (ucast b0) OR push_bit 16 (ucast b1) OR push_bit 8 (ucast b2) OR ucast b3)
       }) w;
     for_loop 16 80 (\<lambda>i w. do {
         x3 \<leftarrow> load w (i - 3);
         x8 \<leftarrow> load w (i - 8);
         x14 \<leftarrow> load w (i - 14);
         x16 \<leftarrow> load w (i - 16);
         store w i (rotl32 (x3 XOR x8 XOR x14 XOR x16) 1)
       }) w1
   }"

type_synonym sha1_vars = "uint32 \<times> uint32 \<times> uint32 \<times> uint32 \<times> uint32"

definition compress :: "uint32 list \<Rightarrow> byte list \<Rightarrow> uint32 list option" where
  "compress h blk = do {
     w \<leftarrow> expand blk (replicate 80 0);
     h0 \<leftarrow> load h 0;
     h1 \<leftarrow> load h 1;
     h2 \<leftarrow> load h 2;
     h3 \<leftarrow> load h 3;
     h4 \<leftarrow> load h 4;
     (a, b, c, d, e) \<leftarrow> for_loop 0 80 (\<lambda>i (a, b, c, d, e). do {
         let stage = i div 20;
         wi \<leftarrow> load w i;
         k \<leftarrow> load kK stage;
         let t = rotl32 a 5 + round_f stage b c d + e + wi + k;
         Some (t, a, rotl32 b 30, c, d)
       }) (h0, h1, h2, h3, h4);
     g0 \<leftarrow> store h 0 (h0 + a);
     g1 \<leftarrow> store g0 1 (h1 + b);
     g2 \<leftarrow> store g1 2 (h2 + c);
     g3 \<leftarrow> store g2 3 (h3 + d);
     store g3 4 (h4 + e)
   }"

definition finalize :: "byte list \<Rightarrow> byte list \<Rightarrow> size_t \<Rightarrow> uint64 \<Rightarrow> (size_t \<times> byte list) option" where
  "finalize lst tail rem bits = do {
     l1 \<leftarrow> ws_memset lst 0 0 128;
     l2 \<leftarrow> ws_memcpy l1 0 tail 0 rem;
     l3 \<leftarrow> store l2 rem 0x80;
     let blocks = (if rem \<ge> 56 then 2 else 1);
     let lenp = blocks * 64 - 8;
     l4 \<leftarrow> for_loop 0 8 (\<lambda>i l. store l (lenp + i) (ucast (drop_bit (56 - 8 * i) bits))) l3;
     Some (blocks, l4)
   }"

definition compress_n :: "uint32 list \<Rightarrow> byte list \<Rightarrow> size_t \<Rightarrow> uint32 list option" where
  "compress_n h buf n = for_loop 0 n (\<lambda>i h. compress h (drop (i * 64) buf)) h"

definition sha1_emit :: "uint32 list \<Rightarrow> byte list \<Rightarrow> byte list option" where
  "sha1_emit h out = for_loop 0 5 (\<lambda>i t. do {
     x \<leftarrow> load h i;
     t0 \<leftarrow> store t (i * 4) (ucast (drop_bit 24 x));
     t1 \<leftarrow> store t0 (i * 4 + 1) (ucast (drop_bit 16 x));
     t2 \<leftarrow> store t1 (i * 4 + 2) (ucast (drop_bit 8 x));
     store t2 (i * 4 + 3) (ucast x)
   }) out"

definition sha1_init :: "uint32 list" where
  "sha1_init = [0x67452301, 0xEFCDAB89, 0x98BADCFE, 0x10325476, 0xC3D2E1F0]"

definition ws_sha1 :: "byte list \<Rightarrow> size_t \<Rightarrow> byte list \<Rightarrow> byte list option" where
  "ws_sha1 msg len out = do {
     let full = len div 64;
     h1 \<leftarrow> compress_n sha1_init msg full;
     let rem = size_sub len (full * 64);
     (blocks, lst) \<leftarrow> finalize (replicate 128 0) (drop (full * 64) msg) rem (word_of_nat len * 8);
     h2 \<leftarrow> compress_n h1 lst blocks;
     sha1_emit h2 out
   }"

section \<open>SHA-1 (RFC 3174)\<close>

definition block_word :: "byte list \<Rightarrow> nat \<Rightarrow> uint32" where
  "block_word blk t = push_bit 24 (ucast (blk ! (t * 4))) OR push_bit 16 (ucast (blk ! (t * 4 + 1))) OR
     push_bit 8 (ucast (blk ! (t * 4 + 2))) OR ucast (blk ! (t * 4 + 3))"

text \<open>The message schedule, by the recurrence of the RFC.\<close>

fun schedule :: "byte list \<Rightarrow> nat \<Rightarrow> uint32" where
  "schedule blk t =
     (if t < 16 then block_word blk t
      else rotl32 (schedule blk (t - 3) XOR schedule blk (t - 8) XOR schedule blk (t - 14) XOR
        schedule blk (t - 16)) 1)"

declare schedule.simps [simp del]

definition sha1_K :: "nat \<Rightarrow> uint32" where
  "sha1_K t = (if t < 20 then 0x5A827999 else if t < 40 then 0x6ED9EBA1
     else if t < 60 then 0x8F1BBCDC else 0xCA62C1D6)"

definition sha1_f :: "nat \<Rightarrow> uint32 \<Rightarrow> uint32 \<Rightarrow> uint32 \<Rightarrow> uint32" where
  "sha1_f t b c d = (if t < 20 then (b AND c) OR (NOT b AND d) else if t < 40 then b XOR c XOR d
     else if t < 60 then (b AND c) OR (b AND d) OR (c AND d) else b XOR c XOR d)"

fun sha1_round :: "byte list \<Rightarrow> nat \<Rightarrow> sha1_vars \<Rightarrow> sha1_vars" where
  "sha1_round blk t (a, b, c, d, e) =
     (rotl32 a 5 + sha1_f t b c d + e + schedule blk t + sha1_K t, a, rotl32 b 30, c, d)"

definition sha1_block :: "byte list \<Rightarrow> sha1_vars \<Rightarrow> sha1_vars" where
  "sha1_block blk h = (case (h, fold (sha1_round blk) [0..<80] h) of
     ((h0, h1, h2, h3, h4), (a, b, c, d, e)) \<Rightarrow> (h0 + a, h1 + b, h2 + c, h3 + d, h4 + e))"

definition sha1_pad :: "byte list \<Rightarrow> byte list" where
  "sha1_pad msg = msg @ [0x80] @ replicate ((119 - length msg mod 64) mod 64) 0
     @ be_bytes 8 (word_of_nat (8 * length msg))"

definition word_bytes :: "uint32 \<Rightarrow> byte list" where
  "word_bytes x = [ucast (drop_bit 24 x), ucast (drop_bit 16 x), ucast (drop_bit 8 x), ucast x]"

fun digest_bytes :: "sha1_vars \<Rightarrow> byte list" where
  "digest_bytes (a, b, c, d, e) = concat (map word_bytes [a, b, c, d, e])"

definition sha1_ref :: "byte list \<Rightarrow> byte list" where
  "sha1_ref msg = digest_bytes (fold (\<lambda>i. sha1_block (take 64 (drop (i * 64) (sha1_pad msg))))
     [0..<length (sha1_pad msg) div 64]
     (0x67452301, 0xEFCDAB89, 0x98BADCFE, 0x10325476, 0xC3D2E1F0))"

section \<open>One block\<close>

lemma expand_eq:
  assumes "64 \<le> length blk" and "length w = 80"
  shows "expand blk w = Some (map (schedule blk) [0..<80])"
proof -
  let ?P = "\<lambda>j w. length w = 80 \<and> (\<forall>t < j. w ! t = schedule blk t)"
  obtain w1 where w1: "for_loop 0 16 (\<lambda>i w. do {
         b0 \<leftarrow> load blk (i * 4); b1 \<leftarrow> load blk (i * 4 + 1);
         b2 \<leftarrow> load blk (i * 4 + 2); b3 \<leftarrow> load blk (i * 4 + 3);
         store w i (push_bit 24 (ucast b0) OR push_bit 16 (ucast b1) OR push_bit 8 (ucast b2) OR ucast b3)
       }) w = Some w1" "?P 16 w1"
  proof -
    have "\<exists>t. for_loop 0 16 (\<lambda>i w. do {
         b0 \<leftarrow> load blk (i * 4); b1 \<leftarrow> load blk (i * 4 + 1);
         b2 \<leftarrow> load blk (i * 4 + 2); b3 \<leftarrow> load blk (i * 4 + 3);
         store w i (push_bit 24 (ucast b0) OR push_bit 16 (ucast b1) OR push_bit 8 (ucast b2) OR ucast b3)
       }) w = Some t \<and> ?P 16 t"
      by (rule for_loop_rule [where P = ?P])
        (use assms in \<open>auto simp: schedule.simps [of blk] block_word_def less_Suc_eq\<close>)
    then show ?thesis using that by blast
  qed
  have "\<exists>t. for_loop 16 80 (\<lambda>i w. do {
         x3 \<leftarrow> load w (i - 3); x8 \<leftarrow> load w (i - 8); x14 \<leftarrow> load w (i - 14); x16 \<leftarrow> load w (i - 16);
         store w i (rotl32 (x3 XOR x8 XOR x14 XOR x16) 1)
       }) w1 = Some t \<and> ?P 80 t"
  proof (rule for_loop_rule [where P = ?P])
    fix j t assume "16 \<le> j" "j < 80" "?P j t"
    then show "\<exists>t'. (do { x3 \<leftarrow> load t (j - 3); x8 \<leftarrow> load t (j - 8); x14 \<leftarrow> load t (j - 14);
        x16 \<leftarrow> load t (j - 16); store t j (rotl32 (x3 XOR x8 XOR x14 XOR x16) 1) }) = Some t' \<and>
        ?P (Suc j) t'"
      using schedule.simps [of blk j] by (auto simp: less_Suc_eq)
  qed (use w1 in auto)
  then obtain w2 where w2: "expand blk w = Some w2" "?P 80 w2"
    using w1 by (auto simp: expand_def)
  then have "w2 = map (schedule blk) [0..<80]" by (intro nth_equalityI) auto
  with w2 show ?thesis by simp
qed

fun vars_list :: "sha1_vars \<Rightarrow> uint32 list" where
  "vars_list (a, b, c, d, e) = [a, b, c, d, e]"

lemma kK_round:
  assumes "i < 80"
  shows "load kK (i div 20) = Some (sha1_K i)" and "round_f (i div 20) = sha1_f i"
proof -
  have "i div 20 = (if i < 20 then 0 else if i < 40 then 1 else if i < 60 then 2 else 3)"
    using assms by auto
  then show "load kK (i div 20) = Some (sha1_K i)" "round_f (i div 20) = sha1_f i"
    by (auto simp: kK_def sha1_K_def round_f_def sha1_f_def load_def fun_eq_iff)
qed

lemma compress_eq:
  assumes "64 \<le> length blk"
  shows "compress (vars_list h) blk = Some (vars_list (sha1_block blk h))"
proof -
  obtain h0 h1 h2 h3 h4 where h: "h = (h0, h1, h2, h3, h4)" by (cases h) auto
  define w where "w = map (schedule blk) [0..<80]"
  have wi: "load w i = Some (schedule blk i)" if "i < 80" for i
    using that unfolding w_def by (simp del: upt_rec_numeral)
  obtain a b c d e where f: "fold (sha1_round blk) [0..<80] h = (a, b, c, d, e)"
    by (cases "fold (sha1_round blk) [0..<80] h") blast
  have "for_loop 0 80 (\<lambda>i (a, b, c, d, e). do {
         let stage = i div 20;
         wi \<leftarrow> load w i;
         k \<leftarrow> load kK stage;
         let t = rotl32 a 5 + round_f stage b c d + e + wi + k;
         Some (t, a, rotl32 b 30, c, d)
       }) h = Some (fold (sha1_round blk) [0..<80] h) \<and> True"
    by (rule for_loop_fold) (auto simp: kK_round wi Let_def)
  then have loop: "for_loop 0 80 (\<lambda>i (a, b, c, d, e). do {
         let stage = i div 20;
         wi \<leftarrow> load w i;
         k \<leftarrow> load kK stage;
         let t = rotl32 a 5 + round_f stage b c d + e + wi + k;
         Some (t, a, rotl32 b 30, c, d)
       }) (h0, h1, h2, h3, h4) = Some (a, b, c, d, e)"
    using f by (simp only: h simp_thms)
  have "sha1_block blk h = (h0 + a, h1 + b, h2 + c, h3 + d, h4 + e)"
    by (simp only: sha1_block_def f) (simp add: h)
  then show ?thesis
    using loop expand_eq [OF assms, of "replicate 80 0", folded w_def]
    by (simp add: compress_def h load_def store_def)
qed

text \<open>A block is the first 64 bytes at the pointer; what follows does not matter.\<close>

lemma schedule_take: "64 \<le> length blk \<Longrightarrow> t < 80 \<Longrightarrow> schedule (take 64 blk) t = schedule blk t"
proof (induction blk t rule: schedule.induct)
  case (1 blk t)
  show ?case
  proof (cases "t < 16")
    case True
    then show ?thesis by (simp add: schedule.simps [of _ t] block_word_def)
  next
    case False
    then show ?thesis using 1 by (simp add: schedule.simps [of _ t])
  qed
qed

lemma sha1_block_take: "64 \<le> length blk \<Longrightarrow> sha1_block (take 64 blk) h = sha1_block blk h"
proof -
  assume len: "64 \<le> length blk"
  have "sha1_round (take 64 blk) t v = sha1_round blk t v" if "t \<in> set [0..<80]" for t v
    using that len by (cases v) (simp add: schedule_take del: upt_rec_numeral)
  then have "fold (sha1_round (take 64 blk)) [0..<80] h = fold (sha1_round blk) [0..<80] h"
    by (intro fold_cong) auto
  then show ?thesis by (simp only: sha1_block_def)
qed

lemma compress_n_eq:
  assumes "n * 64 \<le> length buf"
  shows "compress_n (vars_list h) buf n =
    Some (vars_list (fold (\<lambda>i. sha1_block (take 64 (drop (i * 64) buf))) [0..<n] h))"
  unfolding compress_n_def
proof (rule for_loop_fun [where
      g = "\<lambda>j. vars_list (fold (\<lambda>i. sha1_block (take 64 (drop (i * 64) buf))) [0..<j] h)"])
  fix j assume "j < n"
  then have "j * 64 + 64 \<le> length buf"
    using assms mult_le_mono1 [of "Suc j" n 64] by simp
  then have "64 \<le> length (drop (j * 64) buf)" by simp
  then show "compress (vars_list (fold (\<lambda>i. sha1_block (take 64 (drop (i * 64) buf))) [0..<j] h))
      (drop (j * 64) buf) =
    Some (vars_list (fold (\<lambda>i. sha1_block (take 64 (drop (i * 64) buf))) [0..<Suc j] h))"
    by (simp add: compress_eq sha1_block_take)
qed simp_all

section \<open>The last blocks\<close>

lemma take_Cons_replicate:
  "0 < n \<Longrightarrow> n \<le> Suc m \<Longrightarrow> take n (x # replicate m y) = x # replicate (n - 1) y"
  by (cases n) simp_all

lemma finalize_eq:
  assumes "rem < 64" and "rem \<le> length tail" and "length lst = 128"
  shows "\<exists>l. finalize lst tail rem bits = Some (if rem \<ge> 56 then 2 else 1, l) \<and> length l = 128 \<and>
    take ((if rem \<ge> 56 then 2 else 1) * 64) l =
      take rem tail @ [0x80] @ replicate ((119 - rem) mod 64) 0 @ be_bytes 8 bits"
proof -
  let ?n = "if rem \<ge> 56 then 2 else 1 :: nat"
  let ?l3 = "(take rem tail @ replicate (128 - rem) 0)[rem := 0x80] :: byte list"
  have l2: "ws_memcpy (patch lst 0 (replicate 128 0)) 0 tail 0 rem = Some (take rem tail @ replicate (128 - rem) 0)"
    using assms by (simp add: mem_simps patch_def)
  have l1: "ws_memset lst 0 0 128 = Some (patch lst 0 (replicate 128 0))"
    using assms by (simp add: mem_simps)
  have l3: "?l3 = take rem tail @ [0x80] @ replicate (127 - rem) 0"
  proof -
    have "128 - rem = Suc (127 - rem)" using assms(1) by simp
    then show ?thesis using assms(2) by (simp add: list_update_append)
  qed
  have l4: "for_loop 0 8 (\<lambda>i l. store l (?n * 64 - 8 + i) (ucast (drop_bit (56 - 8 * i) bits))) ?l3 =
      Some (patch ?l3 (?n * 64 - 8) (be_bytes 8 bits))"
    by (rule for_loop_patch) (use assms in \<open>auto simp: be_bytes_def diff_mult_distrib2\<close>)
  have "finalize lst tail rem bits = Some (?n, patch ?l3 (?n * 64 - 8) (be_bytes 8 bits))"
    using assms l1 l2 l4 by (simp add: finalize_def Let_def)
  moreover have "take (?n * 64) (patch ?l3 (?n * 64 - 8) (be_bytes 8 bits)) =
      take rem tail @ [0x80] @ replicate ((119 - rem) mod 64) 0 @ be_bytes 8 bits"
  proof -
    have "take (?n * 64 - 8) ?l3 = take rem tail @ [0x80] @ replicate ((119 - rem) mod 64) 0"
    proof (cases "56 \<le> rem")
      case True
      then have "(119 - rem) mod 64 = 119 - rem" using assms(1) by simp
      then show ?thesis using True assms unfolding l3 by (simp add: take_Cons_replicate)
    next
      case False
      then have "(119 - rem) mod 64 = 55 - rem" by (simp add: le_mod_geq)
      then show ?thesis using False assms unfolding l3 by (simp add: take_Cons_replicate)
    qed
    moreover have "?n * 64 = ?n * 64 - 8 + length (be_bytes 8 bits)" by simp
    moreover have "?n * 64 - 8 + length (be_bytes 8 bits) \<le> length ?l3" using assms by simp
    ultimately show ?thesis
      using take_patch_end [of "?n * 64 - 8" "be_bytes 8 bits" ?l3] by simp
  qed
  moreover have "length (patch ?l3 (?n * 64 - 8) (be_bytes 8 bits)) = 128"
    using assms by auto
  ultimately show ?thesis by blast
qed

lemma sha1_emit_eq:
  assumes "length out = 20"
  shows "sha1_emit (vars_list h) out = Some (digest_bytes h)"
proof -
  let ?g = "\<lambda>j. concat (map word_bytes (take j (vars_list h))) @ drop (j * 4) out"
  have lv: "length (vars_list h) = 5" by (cases h) simp
  have lc: "length (concat (map word_bytes xs)) = length xs * 4" for xs
    by (induction xs) (simp_all add: word_bytes_def)
  have "sha1_emit (vars_list h) out = Some (?g 5)"
    unfolding sha1_emit_def
  proof (rule for_loop_fun [where g = ?g])
    fix j :: nat assume j: "j < 5"
    let ?x = "vars_list h ! j" and ?pre = "concat (map word_bytes (take j (vars_list h)))"
    have pre: "length ?pre = j * 4" using j lv by (simp add: lc)
    have "patch (?g j) (j * 4) (word_bytes ?x) = ?g (Suc j)"
      using j lv pre assms
      by (simp add: patch_def take_Suc_conv_app_nth word_bytes_def add.commute)
    moreover have "j * 4 + 4 \<le> length (?g j)" using j pre assms by simp
    ultimately show "do { x \<leftarrow> load (vars_list h) j;
        t0 \<leftarrow> store (?g j) (j * 4) (ucast (drop_bit 24 x));
        t1 \<leftarrow> store t0 (j * 4 + 1) (ucast (drop_bit 16 x));
        t2 \<leftarrow> store t1 (j * 4 + 2) (ucast (drop_bit 8 x));
        store t2 (j * 4 + 3) (ucast x) } = Some (?g (Suc j))"
      using j lv store4 [of "j * 4" "?g j"] by (simp add: word_bytes_def)
  qed simp_all
  then show ?thesis using assms lv by (cases h) simp
qed

section \<open>The whole message\<close>

lemma length_sha1_pad:
  "length (sha1_pad msg) = (length msg div 64 + (if length msg mod 64 \<ge> 56 then 2 else 1)) * 64"
  by (auto simp: sha1_pad_def le_mod_geq) (use div_mult_mod_eq [of "length msg" 64] in linarith)+

lemma drop_sha1_pad:
  fixes msg :: "byte list"
  defines "q \<equiv> length msg div 64"
  shows "drop (q * 64) (sha1_pad msg) = drop (q * 64) msg @ [0x80] @
    replicate ((119 - length msg mod 64) mod 64) 0 @ be_bytes 8 (word_of_nat (8 * length msg))"
proof -
  have "q * 64 \<le> length msg" unfolding q_def by (rule div_times_less_eq_dividend)
  then show ?thesis by (simp add: sha1_pad_def)
qed

lemma fold_sha1_split:
  "fold (\<lambda>i. sha1_block (take 64 (drop (i * 64) p))) [0..<q + n] h =
   fold (\<lambda>i. sha1_block (take 64 (drop (i * 64) (drop (q * 64) p)))) [0..<n]
     (fold (\<lambda>i. sha1_block (take 64 (drop (i * 64) p))) [0..<q] h)"
proof (induction n)
  case (Suc n)
  have "drop (n * 64) (drop (q * 64) p) = drop ((q + n) * 64) p"
    by (simp add: add_mult_distrib add.commute)
  with Suc show ?case by (simp del: drop_drop)
qed simp

lemma fold_blocks_cong:
  assumes "take (n * 64) xs = take (n * 64) ys"
  shows "fold (\<lambda>i. sha1_block (take 64 (drop (i * 64) xs))) [0..<n] h =
    fold (\<lambda>i. sha1_block (take 64 (drop (i * 64) ys))) [0..<n] h"
proof (rule fold_cong)
  fix i assume "i \<in> set [0..<n]"
  then have "Suc i * 64 \<le> n * 64" by simp
  then have "i * 64 + 64 \<le> n * 64" by simp
  then have "take 64 (drop (i * 64) zs) = take 64 (drop (i * 64) (take (n * 64) zs))" for zs :: "byte list"
    by (simp add: drop_take)
  then show "sha1_block (take 64 (drop (i * 64) xs)) = sha1_block (take 64 (drop (i * 64) ys))"
    using assms by metis
qed simp_all

lemma ws_sha1_eq [mem_simps]:
  assumes "len \<le> length msg" and "len < SIZE_MOD" and "length out = 20"
  shows "ws_sha1 msg len out = Some (sha1_ref (take len msg))"
proof -
  let ?m = "take len msg" and ?q = "len div 64" and ?r = "len mod 64"
  let ?n = "if ?r \<ge> 56 then 2 else 1 :: nat"
  let ?p = "sha1_pad ?m"
  define h0 :: sha1_vars where "h0 = (0x67452301, 0xEFCDAB89, 0x98BADCFE, 0x10325476, 0xC3D2E1F0)"
  have init: "sha1_init = vars_list h0" by (simp add: sha1_init_def h0_def)
  have lm: "length ?m = len" using assms by simp
  have q: "?q * 64 \<le> len" by (rule div_times_less_eq_dividend)
  have rem: "size_sub len (?q * 64) = ?r"
    using assms q by (simp add: minus_div_mult_eq_mod)
  have tl: "take ?r (drop (?q * 64) msg) = drop (?q * 64) ?m"
    by (simp add: drop_take minus_div_mult_eq_mod)
  have r: "?r < 64" "?r \<le> length (drop (?q * 64) msg)"
    using assms(1) by (simp_all add: minus_div_mult_eq_mod [symmetric] diff_le_mono)
  obtain l where l: "finalize (replicate 128 0) (drop (?q * 64) msg) ?r (word_of_nat len * 8) = Some (?n, l)"
    "length l = 128"
    "take (?n * 64) l = drop (?q * 64) ?m @ [0x80] @ replicate ((119 - ?r) mod 64) 0
      @ be_bytes 8 (word_of_nat len * 8)"
    using finalize_eq [OF r length_replicate] tl by metis
  have bits: "(word_of_nat len * 8 :: uint64) = word_of_nat (8 * len)" by simp
  have lp: "take (?n * 64) l = drop (?q * 64) ?p"
    using l(3) drop_sha1_pad [of ?m] unfolding lm bits by simp
  let ?F = "\<lambda>xs n. fold (\<lambda>i. sha1_block (take 64 (drop (i * 64) xs))) [0..<n]"
  have c1: "compress_n sha1_init msg ?q = Some (vars_list (?F msg ?q h0))"
    unfolding init by (rule compress_n_eq) (use assms q in simp)
  have c2: "compress_n (vars_list h) l ?n = Some (vars_list (?F l ?n h))" for h
    by (rule compress_n_eq) (use l(2) in simp)
  have "?F msg ?q h0 = ?F ?p ?q h0"
  proof (rule fold_blocks_cong)
    have "take (?q * 64) ?p = take (?q * 64) ?m" using q lm by (simp add: sha1_pad_def)
    then show "take (?q * 64) msg = take (?q * 64) ?p" using q by (simp add: min_absorb1)
  qed
  moreover have "?F l ?n h = ?F (drop (?q * 64) ?p) ?n h" for h
  proof (rule fold_blocks_cong)
    have "length (drop (?q * 64) ?p) = ?n * 64" using length_sha1_pad [of ?m] unfolding lm by auto
    then show "take (?n * 64) l = take (?n * 64) (drop (?q * 64) ?p)" using lp by simp
  qed
  ultimately have "?F l ?n (?F msg ?q h0) = ?F ?p (?q + ?n) h0"
    by (simp only: fold_sha1_split)
  moreover have "length ?p div 64 = ?q + ?n" using length_sha1_pad [of ?m] unfolding lm by simp
  ultimately have ref: "digest_bytes (?F l ?n (?F msg ?q h0)) = sha1_ref ?m"
    by (simp only: sha1_ref_def h0_def)
  show ?thesis
    unfolding ws_sha1_def Let_def rem using c1 l(1) c2 sha1_emit_eq [OF assms(3)] ref by simp
qed

lemma length_sha1_ref [simp]: "length (sha1_ref msg) = 20"
proof -
  have "length (digest_bytes h) = 20" for h
    by (cases h) (simp add: word_bytes_def)
  then show ?thesis by (simp add: sha1_ref_def)
qed

section \<open>Properties\<close>

text \<open>C20. The block-wise, in-place implementation of SHA-1 writes exactly the digest of FIPS 180-4
  (pad the whole message, expand and fold every block), for every message length, and never
  touches memory outside its objects.\<close>

theorem ws_sha1_correct:
  assumes "len \<le> length msg" and "len < SIZE_MOD" and "length out = 20"
  shows "ws_sha1 msg len out = Some (sha1_ref (take len msg))"
  using assms by (rule ws_sha1_eq)

theorem ws_sha1_correct_witness:
  "ws_sha1 [0x61, 0x62, 0x63] 3 (replicate 20 0) = Some (sha1_ref [0x61, 0x62, 0x63])"
  using ws_sha1_correct [of 3 "[0x61, 0x62, 0x63]" "replicate 20 0"] by (simp add: SIZE_MOD_def)

end
