(* ===== verification/Base64.thy ===== *)
theory Base64
  imports Util
begin

text \<open>
  Base64 encoding, after \<^verbatim>\<open>src/crypto/base64.c\<close>. The encoder is shown to write exactly the
  RFC 4648 text of its input (\<open>b64_text\<close>, stated on numbers), and that text to decode back to
  the input.
\<close>

section \<open>The encoder (base64.c)\<close>

definition kB64 :: "byte list" where
  "kB64 = bytes_of ''ABCDEFGHIJKLMNOPQRSTUVWXYZabcdefghijklmnopqrstuvwxyz0123456789+/''"

definition enc3 :: "byte list \<Rightarrow> byte list \<Rightarrow> nat \<Rightarrow> byte list option" where
  "enc3 b out o0 = do {
     b0 \<leftarrow> load b 0;
     b1 \<leftarrow> load b 1;
     b2 \<leftarrow> load b 2;
     let v = push_bit 16 (ucast b0 :: uint32) OR push_bit 8 (ucast b1) OR ucast b2;
     c0 \<leftarrow> load kB64 (unat (drop_bit 18 v AND 0x3F));
     t0 \<leftarrow> store out o0 c0;
     c1 \<leftarrow> load kB64 (unat (drop_bit 12 v AND 0x3F));
     t1 \<leftarrow> store t0 (o0 + 1) c1;
     c2 \<leftarrow> load kB64 (unat (drop_bit 6 v AND 0x3F));
     t2 \<leftarrow> store t1 (o0 + 2) c2;
     c3 \<leftarrow> load kB64 (unat (v AND 0x3F));
     store t2 (o0 + 3) c3
   }"

definition B64_PAD :: byte where "B64_PAD = of_char (CHR ''='')"

definition enc_tail :: "byte list \<Rightarrow> size_t \<Rightarrow> byte list \<Rightarrow> nat \<Rightarrow> (size_t \<times> byte list) option" where
  "enc_tail inp rem out o0 = do {
     b \<leftarrow> ws_memcpy [0, 0, 0] 0 inp 0 rem;
     t0 \<leftarrow> enc3 b out o0;
     t1 \<leftarrow> store t0 (o0 + 3) B64_PAD;
     t2 \<leftarrow> (if rem = 1 then store t1 (o0 + 2) B64_PAD else Some t1);
     Some (4, t2)
   }"

text \<open>The loop over whole groups; the state is \<open>(i, o, out)\<close>.\<close>

function b64_loop ::
  "byte list \<Rightarrow> size_t \<Rightarrow> size_t \<Rightarrow> size_t \<Rightarrow> byte list \<Rightarrow> (size_t \<times> size_t \<times> byte list) option" where
  "b64_loop inp len i o0 out =
     (if i + 3 \<le> len then do {
        out' \<leftarrow> enc3 (drop i inp) out o0;
        b64_loop inp len (i + 3) (o0 + 4) out'
      } else Some (i, o0, out))"
  by pat_completeness auto
termination
  by (relation "measure (\<lambda>(inp, len, i, o0, out). len - i)") auto

declare b64_loop.simps [simp del]

definition ws_base64 :: "byte list \<Rightarrow> size_t \<Rightarrow> byte list \<Rightarrow> (size_t \<times> byte list) option" where
  "ws_base64 inp len out = do {
     (i, o0, out1) \<leftarrow> b64_loop inp len 0 0 out;
     let rem = size_sub len i;
     if rem \<noteq> 0 then do {
       (k, out2) \<leftarrow> enc_tail (drop i inp) rem out1 o0;
       Some (size_add o0 k, out2)
     } else Some (o0, out1)
   }"

section \<open>Base64 (RFC 4648)\<close>

definition b64_digit :: "nat \<Rightarrow> byte" where
  "b64_digit d = kB64 ! (d mod 64)"

definition b64_group :: "nat \<Rightarrow> byte list" where
  "b64_group v = [b64_digit (v div 262144), b64_digit (v div 4096), b64_digit (v div 64), b64_digit v]"

fun b64_text :: "byte list \<Rightarrow> byte list" where
  "b64_text [] = []"
| "b64_text [a] = take 2 (b64_group (unat a * 65536)) @ [B64_PAD, B64_PAD]"
| "b64_text [a, b] = take 3 (b64_group (unat a * 65536 + unat b * 256)) @ [B64_PAD]"
| "b64_text (a # b # c # bs) = b64_group (unat a * 65536 + unat b * 256 + unat c) @ b64_text bs"

text \<open>A decoder, to state that nothing is lost: the value of a character is its place in the
  alphabet.\<close>

definition b64_val :: "byte \<Rightarrow> nat" where
  "b64_val c = length (takeWhile (\<lambda>x. x \<noteq> c) kB64)"

definition ungroup :: "nat \<Rightarrow> byte list" where
  "ungroup v = [word_of_nat (v div 65536), word_of_nat (v div 256), word_of_nat v]"

fun b64_decode :: "byte list \<Rightarrow> byte list" where
  "b64_decode (w # x # y # z # cs) =
     (let v = b64_val w * 262144 + b64_val x * 4096
     in if y = B64_PAD then take 1 (ungroup v)
        else if z = B64_PAD then take 2 (ungroup (v + b64_val y * 64))
        else ungroup (v + b64_val y * 64 + b64_val z) @ b64_decode cs)"
| "b64_decode _ = []"

section \<open>The encoder writes the text\<close>

lemma length_kB64 [simp]: "length kB64 = 64"
  by (simp add: kB64_def)

lemma distinct_kB64: "distinct kB64" and pad_not_in_kB64: "B64_PAD \<notin> set kB64"
  by (simp_all add: kB64_def B64_PAD_def bytes_of_def)

lemma unat_and_3F: "unat ((w :: uint32) AND 0x3F) = unat w mod 64"
  using unat_and_mask [of w 6] by (simp add: mask_eq_exp_minus_1)

lemma load_kB64: "load kB64 (unat ((w :: uint32) AND 0x3F)) = Some (b64_digit (unat w))"
  by (simp add: unat_and_3F b64_digit_def)

lemma unat_group:
  fixes a b c :: byte
  shows "unat (push_bit 16 (ucast a :: uint32) OR push_bit 8 (ucast b) OR ucast c) =
    unat a * 65536 + unat b * 256 + unat c"
proof -
  have eq: "push_bit 16 (ucast a :: uint32) OR push_bit 8 (ucast b) OR ucast c =
      push_bit 8 (push_bit 8 (ucast a) OR ucast b) OR ucast c"
    by (simp add: push_bit_or or.assoc)
  have ab: "unat (push_bit 8 (ucast a :: uint32) OR ucast b) = unat a * 256 + unat b"
    using unat_byte_less [of a] unat_byte_less [of b]
    by (subst unat_push_or; simp add: unat_ucast_up; linarith)
  show ?thesis
    unfolding eq
    using unat_byte_less [of a] unat_byte_less [of b] unat_byte_less [of c]
    by (subst unat_push_or; simp add: unat_ucast_up ab; linarith)
qed

lemma enc3_eq:
  assumes "3 \<le> length b" and "o0 + 4 \<le> length out"
  shows "enc3 b out o0 =
    Some (patch out o0 (b64_group (unat (b ! 0) * 65536 + unat (b ! 1) * 256 + unat (b ! 2))))"
proof -
  let ?v = "push_bit 16 (ucast (b ! 0) :: uint32) OR push_bit 8 (ucast (b ! 1)) OR ucast (b ! 2)"
  have d: "unat (drop_bit 18 ?v) = unat ?v div 262144" "unat (drop_bit 12 ?v) = unat ?v div 4096"
    "unat (drop_bit 6 ?v) = unat ?v div 64"
    by (simp_all only: drop_bit_eq_div) (simp_all add: unat_div)
  have b: "load b 0 = Some (b ! 0)" "load b 1 = Some (b ! 1)" "load b 2 = Some (b ! 2)"
    using assms by (auto simp: load_def)
  show ?thesis
    unfolding enc3_def b Let_def bind.bind_lunit load_kB64 d unat_group b64_group_def
    using store4 [OF assms(2)] by simp
qed

lemma length_b64_group [simp]: "length (b64_group v) = 4"
  by (simp add: b64_group_def)

lemma length_b64_text: "length (b64_text bs) = (length bs + 2) div 3 * 4"
proof (induction bs rule: b64_text.induct)
  case (4 a b c bs)
  then show ?case using div_add_self2 [of 3 "length bs + 2"] by simp
qed simp_all

lemma b64_text_append: "3 dvd length xs \<Longrightarrow> b64_text (xs @ ys) = b64_text xs @ b64_text ys"
proof (induction xs rule: b64_text.induct)
  case (4 a b c bs)
  from 4(2) have "3 dvd length bs" by simp presburger
  with 4(1) show ?case by simp
qed (simp_all add: nat_dvd_not_less)

lemma b64_text_group:
  assumes "3 \<le> length bs"
  shows "b64_text bs = b64_group (unat (bs ! 0) * 65536 + unat (bs ! 1) * 256 + unat (bs ! 2)) @
    b64_text (drop 3 bs)"
proof -
  obtain a b c cs where "bs = a # b # c # cs"
    using assms by (cases bs rule: b64_text.cases) auto
  then show ?thesis by simp
qed

lemma b64_loop_eq:
  assumes "len \<le> length inp" and "o0 + (len - i) div 3 * 4 \<le> length out"
  shows "b64_loop inp len i o0 out =
    Some (i + (len - i) div 3 * 3, o0 + (len - i) div 3 * 4,
      patch out o0 (b64_text (take ((len - i) div 3 * 3) (drop i inp))))"
  using assms
proof (induction inp len i o0 out rule: b64_loop.induct)
  case (1 inp len i o0 out)
  let ?k = "(len - (i + 3)) div 3" and ?d = "drop i inp"
  show ?case
  proof (cases "i + 3 \<le> len")
    case True
    then have k: "(len - i) div 3 = Suc ?k"
      using div_add_self2 [of 3 "len - (i + 3)"] by (simp add: add.commute)
    let ?g = "b64_group (unat (?d ! 0) * 65536 + unat (?d ! 1) * 256 + unat (?d ! 2))"
    have e: "enc3 ?d out o0 = Some (patch out o0 ?g)"
      using 1 True k by (intro enc3_eq) auto
    have "?k * 3 + 3 \<le> length ?d" using 1(2) True by simp
    then have t: "b64_text (take (?k * 3 + 3) ?d) = ?g @ b64_text (take (?k * 3) (drop (i + 3) inp))"
      by (subst b64_text_group) (simp_all add: drop_take ac_simps)
    have l: "length (b64_text (take (?k * 3) (drop (i + 3) inp))) = ?k * 4"
      using \<open>?k * 3 + 3 \<le> length ?d\<close> by (simp add: length_b64_text)
    have "b64_loop inp len (i + 3) (o0 + 4) (patch out o0 ?g) =
      Some (i + 3 + ?k * 3, o0 + 4 + ?k * 4,
        patch (patch out o0 ?g) (o0 + 4) (b64_text (take (?k * 3) (drop (i + 3) inp))))"
      using 1 True k e by (intro 1(1)) auto
    also have "patch (patch out o0 ?g) (o0 + 4) (b64_text (take (?k * 3) (drop (i + 3) inp))) =
        patch out o0 (b64_text (take (?k * 3 + 3) ?d))"
      using patch_append [of o0 ?g "b64_text (take (?k * 3) (drop (i + 3) inp))" out] 1(3) l k
      unfolding t by simp
    finally show ?thesis
      using True by (subst b64_loop.simps) (simp add: e k ac_simps)
  next
    case False
    then have "len - i < 3" by linarith
    then show ?thesis using False by (subst b64_loop.simps) simp
  qed
qed

lemma store_in_patch:
  assumes "j < length xs" and "off + length xs \<le> length out"
  shows "store (patch out off xs) (off + j) v = Some (patch out off (xs[j := v]))"
  using assms by (auto simp: store_def patch_def list_update_append)

lemma group_pad2: "take 2 (b64_group v) @ [p, p] = (b64_group v)[3 := p, 2 := p]"
  and group_pad1: "take 3 (b64_group v) @ [p] = (b64_group v)[3 := p]"
  unfolding b64_group_def by simp_all

lemma enc_tail_eq:
  assumes "rem = 1 \<or> rem = 2" and "rem \<le> length inp" and "o0 + 4 \<le> length out"
  shows "enc_tail inp rem out o0 = Some (4, patch out o0 (b64_text (take rem inp)))"
proof -
  let ?b = "patch [0, 0, 0] 0 (take rem inp)"
  let ?g = "b64_group (unat (?b ! 0) * 65536 + unat (?b ! 1) * 256 + unat (?b ! 2))"
  have m: "ws_memcpy [0, 0, 0] 0 inp 0 rem = Some ?b"
    using assms ws_memcpy_eq [of 0 rem "[0, 0, 0]" 0 inp] by auto
  have e: "enc3 ?b out o0 = Some (patch out o0 ?g)"
    using assms by (intro enc3_eq) auto
  have s3: "store (patch out o0 ?g) (o0 + 3) B64_PAD = Some (patch out o0 (?g[3 := B64_PAD]))"
    and s2: "store (patch out o0 (?g[3 := B64_PAD])) (o0 + 2) B64_PAD =
      Some (patch out o0 (?g[3 := B64_PAD, 2 := B64_PAD]))"
    by (rule store_in_patch; use assms(3) in simp)+
  have tl: "b64_text (take rem inp) =
      (if rem = 1 then ?g[3 := B64_PAD, 2 := B64_PAD] else ?g[3 := B64_PAD])"
  proof (cases "rem = 1")
    case True
    then obtain a r where "inp = a # r" using assms(2) by (cases inp) auto
    then have "?b = [a, 0, 0]" "take rem inp = [a]" using True by (simp_all add: patch_def)
    with True show ?thesis by (simp add: group_pad2)
  next
    case False
    then have "rem = 2" using assms(1) by simp
    then obtain a b r where "inp = a # b # r" using assms(2) by (cases inp; cases "tl inp") auto
    then have "?b = [a, b, 0]" "take rem inp = [a, b]" using \<open>rem = 2\<close> by (simp_all add: patch_def)
    with False show ?thesis by (simp add: group_pad1)
  qed
  show ?thesis unfolding enc_tail_def m bind.bind_lunit e s3 s2 tl
    by (cases "rem = 1") (simp_all only: if_True if_False refl bind.bind_lunit)
qed

lemma ws_base64_eq:
  assumes "len \<le> length inp" and "len < OBJ_MAX" and "(len + 2) div 3 * 4 \<le> length out"
  shows "ws_base64 inp len out =
    Some ((len + 2) div 3 * 4, patch out 0 (b64_text (take len inp)))"
proof -
  let ?q = "len div 3" and ?pre = "b64_text (take (len div 3 * 3) inp)"
  have q: "?q * 4 \<le> length out" "?q * 3 \<le> len" using assms(3) by linarith+
  have loop: "b64_loop inp len 0 0 out = Some (?q * 3, ?q * 4, patch out 0 ?pre)"
    using b64_loop_eq [of len inp 0 0 out] assms(1) q by simp
  have lp: "length ?pre = ?q * 4" using assms(1) q by (simp add: length_b64_text)
  have split: "take len inp = take (?q * 3) inp @ take (len - ?q * 3) (drop (?q * 3) inp)"
    using q(2) take_add [of "?q * 3" "len - ?q * 3" inp] by simp
  have whole: "b64_text (take len inp) = ?pre @ b64_text (take (len - ?q * 3) (drop (?q * 3) inp))"
    using q(2) assms(1) by (subst split, subst b64_text_append) auto
  have sub: "size_sub len (?q * 3) = len - ?q * 3"
    using q(2) assms(2) by (simp add: OBJ_MAX_def SIZE_MOD_def)
  show ?thesis
  proof (cases "len - ?q * 3 = 0")
    case True
    then have "(len + 2) div 3 = ?q" by linarith
    then show ?thesis using True by (simp add: ws_base64_def loop sub whole)
  next
    case False
    then have r: "len - ?q * 3 = 1 \<or> len - ?q * 3 = 2" and c: "(len + 2) div 3 = Suc ?q" by linarith+
    have room: "?q * 4 + 4 \<le> length out" using assms(3) c by simp
    have "enc_tail (drop (?q * 3) inp) (len - ?q * 3) (patch out 0 ?pre) (?q * 4) =
        Some (4, patch (patch out 0 ?pre) (?q * 4) (b64_text (take (len - ?q * 3) (drop (?q * 3) inp))))"
      using r assms(1) room lp by (intro enc_tail_eq) auto
    also have "patch (patch out 0 ?pre) (?q * 4) (b64_text (take (len - ?q * 3) (drop (?q * 3) inp))) =
        patch out 0 (b64_text (take len inp))"
      using patch_append [of 0 ?pre "b64_text (take (len - ?q * 3) (drop (?q * 3) inp))" out] lp room r assms(1)
      by (auto simp: whole length_b64_text)
    finally show ?thesis
      using False c assms(2) by (simp add: ws_base64_def loop sub size_add_def OBJ_MAX_def SIZE_MOD_def)
  qed
qed

section \<open>Decoding\<close>

lemma b64_digit_in: "b64_digit d \<in> set kB64"
  by (simp add: b64_digit_def)

lemma b64_digit_not_pad [simp]: "b64_digit d \<noteq> B64_PAD"
  using b64_digit_in pad_not_in_kB64 by metis

lemma b64_val_digit [simp]: "b64_val (b64_digit d) = d mod 64"
proof -
  have "takeWhile (\<lambda>x. x \<noteq> kB64 ! j) kB64 = take j kB64" if "j < 64" for j
    using that distinct_kB64
    by (intro takeWhile_eq_take_P_nth) (auto simp: nth_eq_iff_index_eq)
  then show ?thesis by (simp add: b64_val_def b64_digit_def)
qed

lemma group_value:
  assumes "v < 16777216"
  shows "v div 262144 mod 64 * 262144 + v div 4096 mod 64 * 4096 + v div 64 mod 64 * 64 + v mod 64 = (v :: nat)"
proof -
  have d: "v div 4096 = v div 64 div 64" "v div 262144 = v div 64 div 64 div 64"
    by (simp_all add: div_mult2_eq [symmetric])
  have "v div 64 div 64 div 64 mod 64 = v div 64 div 64 div 64" using assms by simp
  then show ?thesis
    using div_mult_mod_eq [of v 64] div_mult_mod_eq [of "v div 64" 64]
      div_mult_mod_eq [of "v div 64 div 64" 64] unfolding d by linarith
qed

lemma byte_256: "(256 :: byte) = 0" and byte_65536: "(65536 :: byte) = 0"
  by simp_all

lemma ungroup_bytes:
  fixes a b c :: byte
  shows "ungroup (unat a * 65536 + unat b * 256 + unat c) = [a, b, c]"
proof -
  let ?v = "unat a * 65536 + unat b * 256 + unat c"
  note less = unat_byte_less [of a] unat_byte_less [of b] unat_byte_less [of c]
  have "?v div 256 = unat a * 256 + unat b" "?v div 65536 = unat a" using less by linarith+
  moreover have "x * 256 = 0" "x * 65536 = 0" for x :: byte
    using mult_zero_right [of x] by (metis byte_256, metis byte_65536)
  ultimately have "word_of_nat (?v div 65536) = a" "word_of_nat (?v div 256) = b" "word_of_nat ?v = c"
    by simp_all
  then show ?thesis by (simp add: ungroup_def)
qed

lemma ungroup_digits:
  fixes a b c :: byte
  defines "v \<equiv> unat a * 65536 + unat b * 256 + unat c"
  shows "ungroup (v div 262144 mod 64 * 262144 + v div 4096 mod 64 * 4096 +
    v div 64 mod 64 * 64 + v mod 64) = [a, b, c]"
proof -
  have "v < 16777216"
    unfolding v_def using unat_byte_less [of a] unat_byte_less [of b] unat_byte_less [of c] by linarith
  then show ?thesis using ungroup_bytes [of a b c] by (simp only: group_value v_def)
qed

lemma b64_decode_text: "b64_decode (b64_text bs) = bs"
proof (induction bs rule: b64_text.induct)
  case (2 a)
  show ?case
    using ungroup_digits [of a 0 0] by (simp add: b64_group_def Let_def)
next
  case (3 a b)
  show ?case
    using ungroup_digits [of a b 0] by (simp add: b64_group_def Let_def)
next
  case (4 a b c bs)
  then show ?case
    by (simp add: b64_group_def Let_def ungroup_digits)
qed simp

section \<open>Properties\<close>

text \<open>C21. The encoder returns \<open>4 * ceil(len / 3)\<close>, writes that many bytes and no more, and what it
  wrote decodes back to the input.\<close>

theorem ws_base64_roundtrip:
  assumes "len \<le> length inp" and "len < OBJ_MAX" and "(len + 2) div 3 * 4 \<le> length out"
  shows "\<exists>out'. ws_base64 inp len out = Some ((len + 2) div 3 * 4, out') \<and>
    b64_decode (take ((len + 2) div 3 * 4) out') = take len inp \<and>
    drop ((len + 2) div 3 * 4) out' = drop ((len + 2) div 3 * 4) out"
proof -
  let ?t = "b64_text (take len inp)"
  have l: "length ?t = (len + 2) div 3 * 4" using assms(1) by (simp add: length_b64_text)
  have "take (length ?t) (patch out 0 ?t) = ?t" using assms(3) l by (simp add: patch_def)
  then show ?thesis
    using ws_base64_eq [OF assms] assms(3) b64_decode_text [of "take len inp"]
    unfolding l [symmetric] by simp
qed

theorem ws_base64_roundtrip_witness:
  "\<exists>out'. ws_base64 [0x66, 0x6F, 0x6F, 0x62] 4 (replicate 8 0) = Some (8, out') \<and>
    b64_decode (take 8 out') = [0x66, 0x6F, 0x6F, 0x62]"
  using ws_base64_roundtrip [of 4 "[0x66, 0x6F, 0x6F, 0x62]" "replicate 8 0"]
  by (auto simp: OBJ_MAX_def)

end
