(* ===== verification/Api.thy ===== *)
theory Api
  imports Prelude
begin

text \<open>
  The public types of \<^verbatim>\<open>include/ws/ws.h\<close>: opcodes and their classes, the frame header,
  roles, connection states, events, the connection record and the status codes. A C
  enumeration whose values the code only takes from its own enumerators is a \<open>datatype\<close>;
  \<open>ws_opcode\<close>, which the parser fills with any 4-bit value, is the unsigned integer it is.
\<close>

section \<open>Opcodes\<close>

type_synonym ws_opcode = uint32

definition WS_OP_CONT :: ws_opcode where "WS_OP_CONT = 0x0"
definition WS_OP_TEXT :: ws_opcode where "WS_OP_TEXT = 0x1"
definition WS_OP_BIN :: ws_opcode where "WS_OP_BIN = 0x2"
definition WS_OP_CLOSE :: ws_opcode where "WS_OP_CLOSE = 0x8"
definition WS_OP_PING :: ws_opcode where "WS_OP_PING = 0x9"
definition WS_OP_PONG :: ws_opcode where "WS_OP_PONG = 0xA"

lemmas op_defs = WS_OP_CONT_def WS_OP_TEXT_def WS_OP_BIN_def WS_OP_CLOSE_def WS_OP_PING_def
  WS_OP_PONG_def

datatype ws_opclass = WS_CLASS_DATA | WS_CLASS_CONTROL | WS_CLASS_RESERVED

section \<open>Frame header\<close>

record ws_frame_header =
  opcode :: ws_opcode
  payload_len :: uint64
  mask_key :: "byte list"
  fin :: bool
  masked :: bool
  rsv :: byte

definition zero_header :: ws_frame_header where
  "zero_header = \<lparr>opcode = 0, payload_len = 0, mask_key = [0, 0, 0, 0], fin = False,
     masked = False, rsv = 0\<rparr>"

section \<open>Roles, states, events\<close>

datatype ws_role = WS_ROLE_SERVER | WS_ROLE_CLIENT

datatype ws_state = WS_CONNECTING | WS_OPEN | WS_CLOSING | WS_CLOSED

datatype ws_frag = WS_FRAG_NONE | WS_FRAG_TEXT | WS_FRAG_BIN

datatype ws_event_type = WS_EV_NONE | WS_EV_MESSAGE | WS_EV_PING | WS_EV_PONG | WS_EV_CLOSE
  | WS_EV_ERROR

text \<open>\<open>ev_data\<close> is the C pointer \<open>data\<close>: \<open>None\<close> is \<open>NULL\<close>, \<open>Some i\<close> points at
  \<open>msg_buf[i]\<close>. What the event's payload is therefore depends on the buffer at the moment it
  is read.\<close>

record ws_event =
  ev_type :: ws_event_type
  ev_op :: ws_opcode
  ev_data :: "nat option"
  ev_len :: size_t
  ev_close_code :: uint16

record ws_conn =
  state :: ws_state
  frag :: ws_frag
  role :: ws_role
  sent_close :: bool
  rcvd_close :: bool
  msg_buf :: "byte list"
  msg_cap :: size_t
  msg_len :: size_t
  rx_len :: size_t
  close_code :: uint16
  failed :: bool

text \<open>The order of the connection states is the order of the enumeration; the lifecycle only
  ever moves up in it.\<close>

fun state_rank :: "ws_state \<Rightarrow> nat" where
  "state_rank WS_CONNECTING = 0"
| "state_rank WS_OPEN = 1"
| "state_rank WS_CLOSING = 2"
| "state_rank WS_CLOSED = 3"

lemma state_rank_inj [simp]: "state_rank s = state_rank t \<longleftrightarrow> s = t"
  by (cases s; cases t) simp_all

instantiation ws_state :: linorder
begin

definition less_eq_ws_state :: "ws_state \<Rightarrow> ws_state \<Rightarrow> bool" where
  "less_eq_ws_state s t \<longleftrightarrow> state_rank s \<le> state_rank t"

definition less_ws_state :: "ws_state \<Rightarrow> ws_state \<Rightarrow> bool" where
  "less_ws_state s t \<longleftrightarrow> state_rank s < state_rank t"

instance
  by standard (auto simp: less_eq_ws_state_def less_ws_state_def)

end

section \<open>Status codes\<close>

definition WS_OK :: int where "WS_OK = 0"
definition WS_ERR_NEED_MORE :: int where "WS_ERR_NEED_MORE = -1"
definition WS_ERR_PROTOCOL :: int where "WS_ERR_PROTOCOL = -2"
definition WS_ERR_TOO_SMALL :: int where "WS_ERR_TOO_SMALL = -3"
definition WS_ERR_ILLEGAL_STATE :: int where "WS_ERR_ILLEGAL_STATE = -4"

lemmas status_defs = WS_OK_def WS_ERR_NEED_MORE_def WS_ERR_PROTOCOL_def WS_ERR_TOO_SMALL_def
  WS_ERR_ILLEGAL_STATE_def

definition WS_MAX_MESSAGE :: size_t where "WS_MAX_MESSAGE = 65536"

end
