(* ===== verification/Handshake.thy ===== *)
theory Handshake
  imports Sha1 Base64 Api
begin

text \<open>
  The opening-handshake accept value, after \<^verbatim>\<open>src/framing/handshake.c\<close>: the base64 text of
  the SHA-1 digest of the key followed by the GUID of RFC 6455. The fixed stack buffer of the
  code is a list of \<open>WS_KEY_MAX + 36\<close> bytes whose initial contents \<open>junk\<close> are unspecified; the
  result does not depend on them.
\<close>

definition kGuid :: "byte list" where
  "kGuid = bytes_of ''258EAFA5-E914-47DA-95CA-C5AB0DC85B11''"

definition WS_KEY_MAX :: size_t where "WS_KEY_MAX = 64"

definition ws_handshake_accept ::
    "byte list \<Rightarrow> byte list \<Rightarrow> size_t \<Rightarrow> byte list \<Rightarrow> (int \<times> byte list) option" where
  "ws_handshake_accept junk key key_len out =
     (if key_len > WS_KEY_MAX then Some (WS_ERR_TOO_SMALL, out)
      else do {
        cat1 \<leftarrow> ws_memcpy (take (WS_KEY_MAX + 36) (junk @ replicate (WS_KEY_MAX + 36) 0)) 0 key 0 key_len;
        cat2 \<leftarrow> ws_memcpy cat1 key_len kGuid 0 36;
        digest \<leftarrow> ws_sha1 cat2 (key_len + 36) (replicate 20 0);
        (n, out') \<leftarrow> ws_base64 digest 20 out;
        Some (to_int n, out')
      })"

definition accept_value :: "byte list \<Rightarrow> byte list" where
  "accept_value key = b64_text (sha1_ref (key @ kGuid))"

lemma length_kGuid [simp]: "length kGuid = 36"
  by (simp add: kGuid_def)

lemma length_accept_value [simp]: "length (accept_value key) = 28"
  by (simp add: accept_value_def length_b64_text length_sha1_ref)

lemma ws_handshake_accept_eq [mem_simps]:
  assumes "key_len \<le> length key" and "key_len \<le> WS_KEY_MAX" and "28 \<le> length out"
  shows "ws_handshake_accept junk key key_len out =
    Some (28, patch out 0 (accept_value (take key_len key)))"
proof -
  define cat where "cat = take (WS_KEY_MAX + 36) (junk @ replicate (WS_KEY_MAX + 36) 0)"
  have lc: "length cat = 100" by (simp add: cat_def WS_KEY_MAX_def)
  have k: "key_len \<le> 64" using assms(2) by (simp add: WS_KEY_MAX_def)
  let ?k = "take key_len key"
  have c1: "ws_memcpy cat 0 key 0 key_len = Some (patch cat 0 ?k)"
    using assms(1) k lc by (simp add: ws_memcpy_eq)
  have c2: "ws_memcpy (patch cat 0 ?k) key_len kGuid 0 36 = Some (patch cat 0 (?k @ kGuid))"
    using assms(1) k lc patch_append [of 0 ?k kGuid cat] by (simp add: ws_memcpy_eq)
  have "take (key_len + 36) (patch cat 0 (?k @ kGuid)) = ?k @ kGuid"
    using take_patch_end [of 0 "?k @ kGuid" cat] assms(1) k lc by (simp add: min_absorb2)
  then have s: "ws_sha1 (patch cat 0 (?k @ kGuid)) (key_len + 36) (replicate 20 0) =
      Some (sha1_ref (?k @ kGuid))"
    using assms(1) k lc by (subst ws_sha1_eq) (simp_all add: SIZE_MOD_def)
  have b: "ws_base64 (sha1_ref (?k @ kGuid)) 20 out =
      Some (28, patch out 0 (b64_text (sha1_ref (?k @ kGuid))))"
    using assms(3) by (subst ws_base64_eq) (simp_all add: length_sha1_ref OBJ_MAX_def)
  show ?thesis
    unfolding ws_handshake_accept_def cat_def [symmetric] c1 bind.bind_lunit c2 s b
    using assms(2) by (simp add: accept_value_def to_int_small)
qed

section \<open>Properties\<close>

text \<open>C22. For every key that fits the fixed buffer the accept value is the base64 text of the SHA-1
  digest of the key followed by the GUID: 28 bytes, whatever the stack buffer held before. A
  longer key is refused without writing anything.\<close>

theorem ws_handshake_accept_correct:
  assumes "key_len \<le> length key" and "28 \<le> length out"
  shows "ws_handshake_accept junk key key_len out =
    (if 64 < key_len then Some (WS_ERR_TOO_SMALL, out)
     else Some (28, b64_text (sha1_ref (take key_len key @ kGuid)) @ drop 28 out))"
proof (cases "64 < key_len")
  case True
  then show ?thesis by (simp add: ws_handshake_accept_def WS_KEY_MAX_def)
next
  case False
  then show ?thesis
    using ws_handshake_accept_eq [of key_len key out junk] assms length_accept_value [of "take key_len key"]
    by (simp add: WS_KEY_MAX_def patch_def accept_value_def)
qed

theorem ws_handshake_accept_correct_witness:
  "ws_handshake_accept [] (bytes_of ''dGhlIHNhbXBsZSBub25jZQ=='') 24 (replicate 28 0) =
    Some (28, b64_text (sha1_ref (take 24 (bytes_of ''dGhlIHNhbXBsZSBub25jZQ=='') @ kGuid)))"
  using ws_handshake_accept_correct [of 24 "bytes_of ''dGhlIHNhbXBsZSBub25jZQ==''" "replicate 28 0" "[]"]
  by simp

end
