(* ===== verification/Http.thy ===== *)
theory Http
  imports Handshake
begin

text \<open>
  The HTTP side of the server in \<^verbatim>\<open>src/io/io_posix.c\<close>: searching the upgrade request, extracting
  the key and computing the accept value. Buffers are lists, C strings are lists that end in a
  NUL, \<open>None\<close> is an access outside an object, and \<^verbatim>\<open>long\<close> results are integers.
\<close>

section \<open>The functions (io_posix.c)\<close>

text \<open>A string literal with its terminating NUL.\<close>

definition cstr :: "string \<Rightarrow> byte list" where
  "cstr s = bytes_of s @ [0]"

text \<open>The conversion of an \<^verbatim>\<open>unsigned long\<close> to \<^verbatim>\<open>long\<close>.\<close>

definition to_long :: "size_t \<Rightarrow> int" where
  "to_long n = sint (word_of_nat n :: 64 word)"

lemma to_long_small: "n < OBJ_MAX \<Longrightarrow> to_long n = int n"
  unfolding to_long_def OBJ_MAX_def
  by (simp add: sint_uint signed_take_bit_int_eq_self unsigned_of_nat take_bit_nat_eq_self)

function str_len_loop :: "byte list \<Rightarrow> size_t \<Rightarrow> size_t option" where
  "str_len_loop s n = do {
     c \<leftarrow> load s n;
     if c \<noteq> 0 then str_len_loop s (Suc n) else Some n
   }"
  by pat_completeness auto
termination
  by (relation "measure (\<lambda>(s, n). length s - n)") (auto simp: load_Some_iff)

declare str_len_loop.simps [simp del]

definition str_len :: "byte list \<Rightarrow> size_t option" where
  "str_len s = str_len_loop s 0"

function find_loop :: "byte list \<Rightarrow> byte list \<Rightarrow> size_t \<Rightarrow> int \<Rightarrow> nat \<Rightarrow> int option" where
  "find_loop buf needle nlen last' i =
     (if int i \<le> last' then do {
        r \<leftarrow> ws_memcmp (drop i buf) needle nlen;
        if r = 0 then Some (int i) else find_loop buf needle nlen last' (Suc i)
      } else Some (-1))"
  by pat_completeness auto
termination
  by (relation "measure (\<lambda>(buf, needle, nlen, last', i). nat (last' + 1 - int i))") auto

declare find_loop.simps [simp del]

definition find_sub :: "byte list \<Rightarrow> size_t \<Rightarrow> byte list \<Rightarrow> int option" where
  "find_sub buf len needle = do {
     nlen \<leftarrow> str_len needle;
     let last' = to_long len - to_long nlen;
     find_loop buf needle nlen last' 0
   }"

definition is_space :: "byte \<Rightarrow> bool" where
  "is_space c \<longleftrightarrow> c = 0x20 \<or> c = 0x09"

definition is_eol :: "byte \<Rightarrow> bool" where
  "is_eol c \<longleftrightarrow> c = 0x0D \<or> c = 0x0A"

function skip_spaces :: "byte list \<Rightarrow> size_t \<Rightarrow> size_t \<Rightarrow> size_t option" where
  "skip_spaces buf i len =
     (if i < len then do {
        c \<leftarrow> load buf i;
        if is_space c then skip_spaces buf (Suc i) len else Some i
      } else Some i)"
  by pat_completeness auto
termination
  by (relation "measure (\<lambda>(buf, i, len). len - i)") auto

declare skip_spaces.simps [simp del]

function copy_loop ::
    "byte list \<Rightarrow> size_t \<Rightarrow> size_t \<Rightarrow> size_t \<Rightarrow> byte list \<Rightarrow> (size_t \<times> byte list) option" where
  "copy_loop buf i limit n key =
     (if i < limit then do {
        c \<leftarrow> load buf i;
        if \<not> is_eol c then do {
          key' \<leftarrow> store key n c;
          copy_loop buf (Suc i) limit (Suc n) key'
        } else Some (n, key)
      } else Some (n, key))"
  by pat_completeness auto
termination
  by (relation "measure (\<lambda>(buf, i, limit, n, key). limit - i)") auto

declare copy_loop.simps [simp del]

definition copy_value ::
    "byte list \<Rightarrow> size_t \<Rightarrow> size_t \<Rightarrow> byte list \<Rightarrow> (size_t \<times> byte list) option" where
  "copy_value buf i limit key = copy_loop buf i limit 0 key"

definition key_hdr :: "byte list" where
  "key_hdr = cstr ''Sec-WebSocket-Key:''"

definition extract_key ::
    "byte list \<Rightarrow> size_t \<Rightarrow> byte list \<Rightarrow> size_t \<Rightarrow> (int \<times> byte list) option" where
  "extract_key buf len key cap = do {
     at \<leftarrow> find_sub buf len key_hdr;
     if at < 0 then Some (-1, key)
     else do {
       hl \<leftarrow> str_len key_hdr;
       i \<leftarrow> skip_spaces buf (size_add (nat at) hl) len;
       let limit = (if len < size_add i cap then len else size_add i cap);
       (n, key') \<leftarrow> copy_value buf i limit key;
       Some (to_long n, key')
     }
   }"

text \<open>\<open>key0\<close> and \<open>junk\<close> are the contents of the uninitialised stack arrays.\<close>

definition compute_accept ::
    "byte list \<Rightarrow> byte list \<Rightarrow> byte list \<Rightarrow> size_t \<Rightarrow> byte list \<Rightarrow> (int \<times> byte list) option" where
  "compute_accept key0 junk req got accept = do {
     (klen, key) \<leftarrow> extract_key req got (take 64 (key0 @ replicate 64 0)) 64;
     if klen \<le> 0 then Some (-1, accept)
     else do {
       (r, accept') \<leftarrow> ws_handshake_accept junk key (nat klen) accept;
       Some (if r = 28 then 0 else -1, accept')
     }
   }"

section \<open>Searching\<close>

lemma str_len_loop_eq:
  assumes "\<forall>j < m. s ! j \<noteq> 0" and "m < length s" and "s ! m = 0" and "n \<le> m"
  shows "str_len_loop s n = Some m"
  using assms(4)
proof (induction "m - n" arbitrary: n)
  case 0
  then show ?case using assms by (subst str_len_loop.simps) simp
next
  case (Suc k)
  then have "n < m" by simp
  then have "str_len_loop s (Suc n) = Some m" using Suc by simp
  then show ?case using assms \<open>n < m\<close> by (subst str_len_loop.simps) simp
qed

lemma str_len_eq: "0 \<notin> set s \<Longrightarrow> str_len (s @ [0]) = Some (length s)"
  unfolding str_len_def
  by (rule str_len_loop_eq) (auto simp: nth_append in_set_conv_nth)

text \<open>\<open>occurs_at needle bs i\<close>: the needle stands at position \<open>i\<close>.\<close>

definition occurs_at :: "byte list \<Rightarrow> byte list \<Rightarrow> nat \<Rightarrow> bool" where
  "occurs_at needle bs i \<longleftrightarrow> i + length needle \<le> length bs \<and> take (length needle) (drop i bs) = needle"

lemma occurs_at_iff: "occurs_at needle bs i \<longleftrightarrow> (\<exists>pre post. bs = pre @ needle @ post \<and> length pre = i)"
proof
  assume "occurs_at needle bs i"
  then have "bs = take i bs @ needle @ drop (i + length needle) bs" "length (take i bs) = i"
    using take_take_drop [of i bs "length needle"] by (auto simp: occurs_at_def)
  then show "\<exists>pre post. bs = pre @ needle @ post \<and> length pre = i" by blast
qed (auto simp: occurs_at_def)

definition first_at :: "byte list \<Rightarrow> byte list \<Rightarrow> int \<Rightarrow> bool" where
  "first_at needle bs r \<longleftrightarrow>
     (if \<exists>i. occurs_at needle bs i
      then 0 \<le> r \<and> occurs_at needle bs (nat r) \<and> (\<forall>j < nat r. \<not> occurs_at needle bs j) else r = -1)"

lemma find_loop_eq:
  assumes "len \<le> length buf" and "length nd \<le> len" and "\<forall>j < i. \<not> occurs_at nd (take len buf) j"
  shows "\<exists>r. find_loop buf (nd @ [0]) (length nd) (int len - int (length nd)) i = Some r \<and>
    first_at nd (take len buf) r"
  using assms(3)
proof (induction "Suc len - i" arbitrary: i rule: less_induct)
  case less
  let ?bs = "take len buf"
  show ?case
  proof (cases "int i \<le> int len - int (length nd)")
    case False
    then have "\<not> occurs_at nd ?bs j" for j
      using less(2) by (cases "j < i") (auto simp: occurs_at_def)
    then show ?thesis using False by (subst find_loop.simps) (simp add: first_at_def)
  next
    case True
    then have i: "i + length nd \<le> len" by linarith
    have l: "length nd \<le> length (drop i buf)" using i assms(1) by simp
    obtain r where r: "ws_memcmp (drop i buf) (nd @ [0]) (length nd) = Some r"
        "r = 0 \<longleftrightarrow> take (length nd) (drop i buf) = take (length nd) (nd @ [0])"
      using ws_memcmp_zero [OF l, of "nd @ [0]"] by auto
    have oc: "r = 0 \<longleftrightarrow> occurs_at nd ?bs i"
      using r(2) i assms(1) by (simp add: occurs_at_def drop_take min_def)
    show ?thesis
    proof (cases "r = 0")
      case True
      then have "first_at nd ?bs (int i)" using oc less(2) by (auto simp: first_at_def)
      then show ?thesis using True r(1) \<open>int i \<le> _\<close> by (subst find_loop.simps) simp
    next
      case False
      then have "\<forall>j < Suc i. \<not> occurs_at nd ?bs j" using less(2) oc by (auto simp: less_Suc_eq)
      then have "\<exists>r. find_loop buf (nd @ [0]) (length nd) (int len - int (length nd)) (Suc i) = Some r \<and>
          first_at nd ?bs r"
        using i by (intro less(1)) auto
      then show ?thesis using False r(1) \<open>int i \<le> _\<close> by (subst find_loop.simps) simp
    qed
  qed
qed

lemma find_sub_first:
  assumes "len \<le> length buf" and "len < OBJ_MAX" and "0 \<notin> set nd" and "length nd < OBJ_MAX"
  shows "\<exists>r. find_sub buf len (nd @ [0]) = Some r \<and> first_at nd (take len buf) r"
proof (cases "length nd \<le> len")
  case True
  then show ?thesis
    using find_loop_eq [OF assms(1) True, of 0] assms
    by (simp add: find_sub_def str_len_eq to_long_small)
next
  case False
  then have "\<not> occurs_at nd (take len buf) j" for j by (auto simp: occurs_at_def)
  then show ?thesis
    using False assms
    by (simp add: find_sub_def str_len_eq to_long_small first_at_def) (subst find_loop.simps, simp)
qed

lemma first_at_found:
  assumes "first_at nd bs r" and "occurs_at nd bs i" and "\<forall>j < i. \<not> occurs_at nd bs j"
  shows "r = int i"
proof -
  have r: "0 \<le> r" "occurs_at nd bs (nat r)" "\<forall>j < nat r. \<not> occurs_at nd bs j"
    using assms(1,2) by (auto simp: first_at_def split: if_split_asm)
  have "nat r = i" using r(2,3) assms(2,3) by (metis nat_neq_iff)
  with r(1) show ?thesis by simp
qed

lemma first_at_none: "first_at nd bs r \<Longrightarrow> \<forall>i. \<not> occurs_at nd bs i \<Longrightarrow> r = -1"
  by (simp add: first_at_def)

section \<open>The header value\<close>

text \<open>The value the code reads: from behind the header name, without leading blanks, up to the end
  of the line or of the buffer, at most \<open>cap\<close> bytes.\<close>

definition header_value :: "byte list \<Rightarrow> size_t \<Rightarrow> byte list" where
  "header_value bs cap = take cap (takeWhile (\<lambda>c. \<not> is_eol c) (dropWhile is_space bs))"

lemma length_header_value: "length (header_value bs cap) \<le> cap"
  by (simp add: header_value_def)

lemma skip_spaces_eq:
  assumes "len \<le> length buf" and "i \<le> len"
  shows "skip_spaces buf i len = Some (i + length (takeWhile is_space (drop i (take len buf))))"
  using assms
proof (induction buf i len rule: skip_spaces.induct)
  case (1 buf i len)
  show ?case
  proof (cases "i < len")
    case True
    then have d: "drop i (take len buf) = buf ! i # drop (Suc i) (take len buf)"
      using 1(2) by (subst Cons_nth_drop_Suc [symmetric]) auto
    show ?thesis
      using 1 True unfolding d by (subst skip_spaces.simps) simp
  qed (subst skip_spaces.simps, use 1 in simp)
qed

lemma copy_loop_eq:
  assumes "limit \<le> length buf" and "i \<le> limit" and "n + (limit - i) \<le> length key"
  shows "copy_loop buf i limit n key =
    (let v = takeWhile (\<lambda>c. \<not> is_eol c) (drop i (take limit buf)) in Some (n + length v, patch key n v))"
  using assms
proof (induction buf i limit n key rule: copy_loop.induct)
  case (1 buf i limit n key)
  show ?case
  proof (cases "i < limit")
    case True
    then have d: "drop i (take limit buf) = buf ! i # drop (Suc i) (take limit buf)"
      using 1(2) by (subst Cons_nth_drop_Suc [symmetric]) auto
    have l: "load buf i = Some (buf ! i)" using True 1(2) by simp
    show ?thesis
    proof (cases "is_eol (buf ! i)")
      case eol: True
      then show ?thesis using True l unfolding d by (subst copy_loop.simps) simp
    next
      case False
      let ?v = "takeWhile (\<lambda>c. \<not> is_eol c) (drop (Suc i) (take limit buf))"
      have "length ?v \<le> limit - Suc i"
        using length_takeWhile_le [of "\<lambda>c. \<not> is_eol c" "drop (Suc i) (take limit buf)"] 1(2) by simp
      then have p: "patch (key[n := buf ! i]) (Suc n) ?v = patch key n (buf ! i # ?v)"
        using 1(4) True by (simp add: patch_def take_update_swap upd_conv_take_nth_drop add.commute)
      have st: "store key n (buf ! i) = Some (key[n := buf ! i])" using 1(4) True by simp
      have "copy_loop buf (Suc i) limit (Suc n) (key[n := buf ! i]) =
          Some (Suc n + length ?v, patch (key[n := buf ! i]) (Suc n) ?v)"
        using 1(1) [OF True l False st] 1(2-4) True by (simp add: Let_def)
      then show ?thesis
        using True l False st p unfolding d by (subst copy_loop.simps) (simp add: Let_def)
    qed
  next
    case False
    then show ?thesis by (subst copy_loop.simps) (use 1 in simp)
  qed
qed

lemma takeWhile_take: "takeWhile P (take n xs) = take n (takeWhile P xs)"
proof (induction xs arbitrary: n)
  case (Cons x xs)
  then show ?case by (cases n) simp_all
qed simp

lemma drop_take_limit:
  "i \<le> len \<Longrightarrow> drop i (take (if len < i + cap then len else i + cap) buf) = take cap (drop i (take len buf))"
  by (auto simp: drop_take min_def)

definition key_name :: "byte list" where
  "key_name = bytes_of ''Sec-WebSocket-Key:''"

lemma key_hdr_eq: "key_hdr = key_name @ [0]"
  by (simp add: key_hdr_def cstr_def key_name_def)

lemma length_key_name [simp]: "length key_name = 18"
  by (simp add: key_name_def)

lemma key_name_no_nul: "0 \<notin> set key_name"
  by (simp add: key_name_def bytes_of_def)

lemma extract_key_eq:
  assumes "len \<le> length buf" and "len < OBJ_MAX" and "cap \<le> length key" and "cap < OBJ_MAX"
  shows "\<exists>r. first_at key_name (take len buf) r \<and> extract_key buf len key cap =
    (if r < 0 then Some (-1, key)
     else let v = header_value (drop (nat r + 18) (take len buf)) cap in
       Some (int (length v), patch key 0 v))"
proof -
  have nl: "length key_name < OBJ_MAX" by (simp add: OBJ_MAX_def)
  obtain r where r: "find_sub buf len key_hdr = Some r" "first_at key_name (take len buf) r"
    using find_sub_first [OF assms(1,2) key_name_no_nul nl] by (auto simp: key_hdr_eq)
  show ?thesis
  proof (cases "r < 0")
    case True
    then show ?thesis using r by (intro exI [of _ r]) (simp add: extract_key_def)
  next
    case False
    let ?p = "nat r + 18" and ?bs = "take len buf"
    have i0: "?p \<le> len"
      using r(2) False assms(1) by (auto simp: first_at_def occurs_at_def split: if_split_asm)
    let ?sp = "takeWhile is_space (drop ?p ?bs)"
    let ?i = "?p + length ?sp"
    have i: "?i \<le> len"
      using length_takeWhile_le [of is_space "drop ?p ?bs"] i0 assms(1) by simp
    have sl: "str_len key_hdr = Some 18" using str_len_eq [OF key_name_no_nul] by (simp add: key_hdr_eq)
    have a1: "size_add (nat r) 18 = ?p" "size_add ?i cap = ?i + cap"
      using i0 i assms(2,4) OBJ_MAX_double by (auto intro!: size_add_exact)
    have sk: "skip_spaces buf ?p len = Some ?i" using skip_spaces_eq [OF assms(1) i0] .
    let ?limit = "if len < ?i + cap then len else ?i + cap"
    have lim: "?limit \<le> length buf" "?i \<le> ?limit" "0 + (?limit - ?i) \<le> length key"
      using i assms(1,3) by auto
    let ?v = "takeWhile (\<lambda>c. \<not> is_eol c) (drop ?i (take ?limit buf))"
    have cp: "copy_value buf ?i ?limit key = Some (length ?v, patch key 0 ?v)"
      using copy_loop_eq [OF lim] by (simp add: copy_value_def Let_def)
    have "drop ?i (take ?limit buf) = take cap (drop ?i ?bs)"
      by (rule drop_take_limit [OF i])
    also have "drop ?i ?bs = dropWhile is_space (drop ?p ?bs)"
      by (simp add: dropWhile_eq_drop add.commute)
    finally have v: "?v = header_value (drop ?p ?bs) cap"
      by (simp add: header_value_def takeWhile_take)
    have "length ?v < OBJ_MAX"
      unfolding v using length_header_value assms(4) by (rule le_less_trans)
    then have tl: "to_long (length ?v) = int (length ?v)" by (rule to_long_small)
    have "extract_key buf len key cap = Some (int (length ?v), patch key 0 ?v)"
      unfolding extract_key_def r(1) bind.bind_lunit sl a1 sk Let_def cp prod.case tl
      using False by (simp only: if_False)
    then show ?thesis
      unfolding v Let_def using r(2) False by (intro exI [of _ r]) (simp only: if_False simp_thms)
  qed
qed

text \<open>The accept value of a request: of the first header line that carries the key.\<close>

lemma compute_accept_eq:
  assumes "got \<le> length req" and "got < OBJ_MAX" and "length accept = 28"
  shows "\<exists>r. first_at key_name (take got req) r \<and>
    (let v = header_value (drop (nat r + 18) (take got req)) 64 in
     compute_accept key0 junk req got accept =
       (if r < 0 \<or> v = [] then Some (-1, accept) else Some (0, accept_value v)))"
proof -
  let ?key = "take 64 (key0 @ replicate 64 0)"
  have lk: "length ?key = 64" by simp
  obtain r where r: "first_at key_name (take got req) r" "extract_key req got ?key 64 =
      (if r < 0 then Some (-1, ?key)
       else let v = header_value (drop (nat r + 18) (take got req)) 64 in Some (int (length v), patch ?key 0 v))"
    using extract_key_eq [OF assms(1,2), of 64 ?key] lk by (auto simp: OBJ_MAX_def)
  define v where "v = header_value (drop (nat r + 18) (take got req)) 64"
  have lv: "length v \<le> 64" unfolding v_def by (rule length_header_value)
  have tv: "take (length v) (patch ?key 0 v) = v" using lv lk by (simp add: patch_def)
  have "ws_handshake_accept junk (patch ?key 0 v) (length v) accept = Some (28, accept_value v)"
    using ws_handshake_accept_eq [of "length v" "patch ?key 0 v" accept junk] lv lk assms(3) tv
      length_accept_value [of v]
    by (simp add: WS_KEY_MAX_def) (simp add: patch_def)
  then have "compute_accept key0 junk req got accept =
      (if r < 0 \<or> v = [] then Some (-1, accept) else Some (0, accept_value v))"
    unfolding compute_accept_def r(2) v_def [symmetric] Let_def by simp
  then show ?thesis using r(1) unfolding v_def [symmetric] by (intro exI [of _ r]) (simp add: v_def)
qed

section \<open>Properties\<close>

text \<open>C33. \<open>find_sub\<close> returns the position of the first occurrence of the needle in the given bytes,
  and \<open>-1\<close> exactly when there is none; it never reads beyond them, even when the needle is longer.\<close>

theorem find_sub_correct:
  assumes "len \<le> length buf" and "len < OBJ_MAX" and "0 \<notin> set nd" and "length nd < OBJ_MAX"
  shows "find_sub buf len (nd @ [0]) = Some
    (if \<exists>pre post. take len buf = pre @ nd @ post
     then int (LEAST i. \<exists>pre post. take len buf = pre @ nd @ post \<and> length pre = i) else -1)"
proof -
  let ?bs = "take len buf"
  obtain r where r: "find_sub buf len (nd @ [0]) = Some r" "first_at nd ?bs r"
    using find_sub_first [OF assms] by blast
  have ex: "(\<exists>i. occurs_at nd ?bs i) \<longleftrightarrow> (\<exists>pre post. ?bs = pre @ nd @ post)"
    unfolding occurs_at_iff by blast
  show ?thesis
  proof (cases "\<exists>i. occurs_at nd ?bs i")
    case True
    let ?L = "LEAST i. occurs_at nd ?bs i"
    have "r = int ?L"
      using LeastI_ex [OF True] by (intro first_at_found [OF r(2)]) (auto dest: not_less_Least)
    then show ?thesis using r(1) True ex unfolding occurs_at_iff by (simp only: if_True)
  next
    case False
    then have "r = -1" using first_at_none [OF r(2)] by blast
    then show ?thesis using r(1) False ex by (simp only: if_False)
  qed
qed

theorem find_sub_correct_witness:
  "find_sub (bytes_of ''abcbcd'') 6 (bytes_of ''bc'' @ [0]) = Some
    (if \<exists>pre post. take 6 (bytes_of ''abcbcd'') = pre @ bytes_of ''bc'' @ post
     then int (LEAST i. \<exists>pre post. take 6 (bytes_of ''abcbcd'') = pre @ bytes_of ''bc'' @ post \<and> length pre = i)
     else -1)"
  by (rule find_sub_correct) (simp_all add: bytes_of_def OBJ_MAX_def)

text \<open>\<open>key_line req key\<close>: the first key header of the request carries \<open>key\<close>: behind the name stand
  blanks, then the key, then the end of the line or of the bytes.\<close>

definition key_line :: "byte list \<Rightarrow> byte list \<Rightarrow> bool" where
  "key_line req key \<longleftrightarrow> (\<exists>pre blanks rest. req = pre @ key_name @ blanks @ key @ rest \<and>
     (\<forall>j < length pre. \<not> occurs_at key_name req j) \<and> list_all is_space blanks \<and>
     list_all (\<lambda>b. \<not> is_eol b) key \<and> (rest = [] \<or> is_eol (hd rest)) \<and> (key = [] \<or> \<not> is_space (hd key)))"

lemma key_line_value:
  assumes "key_line req key" and "first_at key_name req r" and "length key \<le> cap"
  shows "0 \<le> r \<and> header_value (drop (nat r + 18) req) cap = key"
proof -
  obtain pre blanks rest where req: "req = pre @ key_name @ blanks @ key @ rest"
    and first: "\<forall>j < length pre. \<not> occurs_at key_name req j"
    and sp: "\<forall>b \<in> set blanks. is_space b" "key = [] \<or> \<not> is_space (hd key)"
    and eol: "\<forall>b \<in> set key. \<not> is_eol b" "rest = [] \<or> is_eol (hd rest)"
    using assms(1) unfolding key_line_def list_all_iff by blast
  have "occurs_at key_name req (length pre)" unfolding occurs_at_iff using req by blast
  then have at: "r = int (length pre)" using first by (intro first_at_found [OF assms(2)])
  have d: "drop (nat r + 18) req = blanks @ key @ rest" using req at by simp
  have "dropWhile is_space (blanks @ key @ rest) = key @ rest"
    using sp eol(2) by (cases key; cases rest) (auto simp: dropWhile_append2 is_space_def is_eol_def)
  moreover have "takeWhile (\<lambda>c. \<not> is_eol c) (key @ rest) = key"
    using eol by (cases rest) (simp_all add: takeWhile_append2)
  ultimately have "header_value (drop (nat r + 18) req) cap = key"
    unfolding d header_value_def using assms(3) by simp
  moreover have "0 \<le> r" using at by simp
  ultimately show ?thesis by blast
qed

lemma compute_accept_key:
  assumes "got \<le> length req" and "got < OBJ_MAX" and "length accept = 28"
    and "key_line (take got req) key" and "length key \<le> 64"
  shows "compute_accept key0 junk req got accept = (if key = [] then Some (-1, accept) else Some (0, accept_value key))"
proof -
  obtain r where r: "first_at key_name (take got req) r" "compute_accept key0 junk req got accept =
      (let v = header_value (drop (nat r + 18) (take got req)) 64 in
        if r < 0 \<or> v = [] then Some (-1, accept) else Some (0, accept_value v))"
    using compute_accept_eq [OF assms(1-3), of key0 junk] unfolding Let_def by blast
  then show ?thesis using key_line_value [OF assms(4) r(1) assms(5)] by simp
qed

text \<open>C32. The accept value of an upgrade request: when a line with the key header stands in the
  request, the blanks before the value are skipped, the value ends at the line end, and the result
  is the accept value of exactly those bytes. Without the header, or with an empty value, the
  request is refused and the output untouched.\<close>

theorem compute_accept_request:
  assumes "length accept = 28" and "got \<le> length req" and "got < OBJ_MAX"
  shows "((\<forall>i. \<not> occurs_at key_name (take got req) i) \<longrightarrow>
      compute_accept key0 junk req got accept = Some (-1, accept)) \<and>
    (key_line (take got req) key \<and> length key \<le> 64 \<longrightarrow>
      compute_accept key0 junk req got accept =
        (if key = [] then Some (-1, accept) else Some (0, accept_value key)))"
proof -
  have "compute_accept key0 junk req got accept = Some (-1, accept)"
    if "\<forall>i. \<not> occurs_at key_name (take got req) i"
    using compute_accept_eq [OF assms(2,3,1), of key0 junk] first_at_none [OF _ that] unfolding Let_def
    by fastforce
  then show ?thesis using compute_accept_key [OF assms(2,3,1)] by blast
qed

definition demo_request :: "byte list" where
  "demo_request = [0x0D, 0x0A] @ key_name @ [0x20] @ bytes_of ''abc''"

lemma demo_request_key: "key_line demo_request (bytes_of ''abc'')"
  unfolding key_line_def demo_request_def
  by (rule exI [of _ "[0x0D, 0x0A]"], rule exI [of _ "[0x20]"], rule exI [of _ "[]"])
    (auto simp: occurs_at_def key_name_def bytes_of_def less_Suc_eq is_space_def is_eol_def)

theorem compute_accept_request_witness:
  "compute_accept [] [] (bytes_of ''GET / HTTP/1.1'') 14 (replicate 28 0) = Some (-1, replicate 28 0) \<and>
   compute_accept [] [] demo_request (length demo_request) (replicate 28 0) =
      Some (0, accept_value (bytes_of ''abc''))"
proof (rule conjI)
  have l: "length (replicate 28 (0 :: byte)) = 28" by simp
  show "compute_accept [] [] (bytes_of ''GET / HTTP/1.1'') 14 (replicate 28 0) = Some (-1, replicate 28 0)"
    using compute_accept_request [OF l, of 14 "bytes_of ''GET / HTTP/1.1''"]
    by (simp add: occurs_at_def OBJ_MAX_def)
  have b: "length demo_request \<le> length demo_request" "length demo_request < OBJ_MAX"
    by (simp_all add: demo_request_def OBJ_MAX_def)
  have k: "key_line (take (length demo_request) demo_request) (bytes_of ''abc'')" "length (bytes_of ''abc'') \<le> 64"
      "bytes_of ''abc'' \<noteq> []"
    using demo_request_key by (simp_all add: bytes_of_def)
  show "compute_accept [] [] demo_request (length demo_request) (replicate 28 0) =
      Some (0, accept_value (bytes_of ''abc''))"
    using compute_accept_request [OF l b, of "[]" "[]" "bytes_of ''abc''"] k by simp
qed

end
