(* ===== verification/Kernel.thy ===== *)
theory Kernel
  imports Http
begin

text \<open>
  The system-call boundary of \<^verbatim>\<open>src/io/io_posix.c\<close> and the functions that only use it: writing
  a whole buffer, answering the upgrade, binding and listening. The operating system is not part
  of the repository; it is the record \<open>'w kernel\<close> of functions on an unknown state \<open>'w\<close>, an
  argument of every definition. What the code relies on of \<^verbatim>\<open>read\<close> and \<^verbatim>\<open>write\<close> is
  \<open>kernel_ok\<close>, where \<open>sent fd w\<close> is all that has been written to a descriptor.
\<close>

section \<open>System calls\<close>

record sockaddr_in =
  sin_family :: uint16
  sin_port :: uint16
  sin_addr :: uint32
  sin_zero :: "byte list"

record epoll_event =
  ep_events :: uint32
  ep_data :: uint64

text \<open>A call returns its result and the new state; \<open>k_read\<close> also the bytes it stored, and
  \<open>k_epoll_wait\<close> the events it reported.\<close>

record 'w kernel =
  k_read :: "int \<Rightarrow> size_t \<Rightarrow> 'w \<Rightarrow> int \<times> byte list \<times> 'w"
  k_write :: "int \<Rightarrow> byte list \<Rightarrow> 'w \<Rightarrow> int \<times> 'w"
  k_close :: "int \<Rightarrow> 'w \<Rightarrow> 'w"
  k_socket :: "int \<Rightarrow> int \<Rightarrow> int \<Rightarrow> 'w \<Rightarrow> int \<times> 'w"
  k_setsockopt :: "int \<Rightarrow> int \<Rightarrow> int \<Rightarrow> int \<Rightarrow> 'w \<Rightarrow> int \<times> 'w"
  k_bind :: "int \<Rightarrow> sockaddr_in \<Rightarrow> 'w \<Rightarrow> int \<times> 'w"
  k_listen :: "int \<Rightarrow> int \<Rightarrow> 'w \<Rightarrow> int \<times> 'w"
  k_accept :: "int \<Rightarrow> 'w \<Rightarrow> int \<times> 'w"
  k_epoll_create1 :: "int \<Rightarrow> 'w \<Rightarrow> int \<times> 'w"
  k_epoll_ctl :: "int \<Rightarrow> int \<Rightarrow> int \<Rightarrow> epoll_event option \<Rightarrow> 'w \<Rightarrow> int \<times> 'w"
  k_epoll_wait :: "int \<Rightarrow> size_t \<Rightarrow> 'w \<Rightarrow> int \<times> epoll_event list \<times> 'w"

definition sys_read :: "'w kernel \<Rightarrow> int \<Rightarrow> byte list \<Rightarrow> nat \<Rightarrow> size_t \<Rightarrow> 'w \<Rightarrow> (int \<times> byte list \<times> 'w) option" where
  "sys_read K fd buf off n w = (
     let (r, bs, w') = k_read K fd n w in
     if off + length bs \<le> length buf then Some (r, patch buf off bs, w') else None)"

definition sys_write :: "'w kernel \<Rightarrow> int \<Rightarrow> byte list \<Rightarrow> nat \<Rightarrow> size_t \<Rightarrow> 'w \<Rightarrow> (int \<times> 'w) option" where
  "sys_write K fd buf off n w =
     (if off + n \<le> length buf then Some (k_write K fd (take n (drop off buf)) w) else None)"

definition sys_close :: "'w kernel \<Rightarrow> int \<Rightarrow> 'w \<Rightarrow> 'w" where
  "sys_close K fd w = k_close K fd w"

definition AF_INET :: int where "AF_INET = 2"
definition SOCK_STREAM :: int where "SOCK_STREAM = 1"
definition SOL_SOCKET :: int where "SOL_SOCKET = 1"
definition SO_REUSEADDR :: int where "SO_REUSEADDR = 2"
definition EPOLLIN :: uint32 where "EPOLLIN = 0x001"
definition EPOLL_CTL_ADD :: int where "EPOLL_CTL_ADD = 1"
definition EPOLL_CTL_DEL :: int where "EPOLL_CTL_DEL = 2"

definition WS_IO_ERR_SOCKET :: int where "WS_IO_ERR_SOCKET = -1"
definition WS_IO_ERR_BIND :: int where "WS_IO_ERR_BIND = -2"
definition WS_IO_ERR_LISTEN :: int where "WS_IO_ERR_LISTEN = -3"
definition WS_IO_ERR_EPOLL :: int where "WS_IO_ERR_EPOLL = -4"

lemmas io_err_defs = WS_IO_ERR_SOCKET_def WS_IO_ERR_BIND_def WS_IO_ERR_LISTEN_def WS_IO_ERR_EPOLL_def

text \<open>The conversion \<^verbatim>\<open>(int)\<close> of a \<^verbatim>\<open>long\<close>.\<close>

definition long_to_int :: "int \<Rightarrow> int" where
  "long_to_int x = sint (word_of_int x :: 32 word)"

section \<open>Socket plumbing\<close>

definition htons16 :: "uint16 \<Rightarrow> uint16" where
  "htons16 v = push_bit 8 v OR drop_bit 8 v"

definition do_bind :: "'w kernel \<Rightarrow> int \<Rightarrow> uint16 \<Rightarrow> 'w \<Rightarrow> int \<times> 'w" where
  "do_bind K fd port w = (
     let (_, w1) = k_setsockopt K fd SOL_SOCKET SO_REUSEADDR 1 w;
         addr = \<lparr>sin_family = word_of_int AF_INET, sin_port = htons16 port, sin_addr = 0, sin_zero = replicate 8 0\<rparr>;
         (r, w2) = k_bind K fd addr w1
     in if r < 0 then (WS_IO_ERR_BIND, w2) else (0, w2))"

definition epoll_add :: "'w kernel \<Rightarrow> int \<Rightarrow> int \<Rightarrow> 'w \<Rightarrow> int \<times> 'w" where
  "epoll_add K epfd fd w =
     k_epoll_ctl K epfd EPOLL_CTL_ADD fd (Some \<lparr>ep_events = EPOLLIN, ep_data = word_of_int fd\<rparr>) w"

function write_loop :: "'w kernel \<Rightarrow> int \<Rightarrow> byte list \<Rightarrow> size_t \<Rightarrow> size_t \<Rightarrow> 'w \<Rightarrow> (int \<times> 'w) option" where
  "write_loop K fd buf n off w =
     (if off < n then do {
        (r, w') \<leftarrow> sys_write K fd buf off (n - off) w;
        if r \<le> 0 then Some (-1, w') else write_loop K fd buf n (off + nat r) w'
      } else Some (0, w))"
  by pat_completeness auto
termination
  by (relation "measure (\<lambda>(K, fd, buf, n, off, w). n - off)") auto

declare write_loop.simps [simp del]

definition write_all :: "'w kernel \<Rightarrow> int \<Rightarrow> byte list \<Rightarrow> size_t \<Rightarrow> 'w \<Rightarrow> (int \<times> 'w) option" where
  "write_all K fd buf n w = write_loop K fd buf n 0 w"

text \<open>The literal of the 101 response, with its line ends as bytes.\<close>

definition crlf :: "byte list" where
  "crlf = [0x0D, 0x0A]"

definition accept_pre :: "byte list" where
  "accept_pre = bytes_of ''HTTP/1.1 101 Switching Protocols'' @ crlf @ bytes_of ''Upgrade: websocket'' @ crlf @
     bytes_of ''Connection: Upgrade'' @ crlf @ bytes_of ''Sec-WebSocket-Accept: '' @ [0]"

definition send_accept :: "'w kernel \<Rightarrow> int \<Rightarrow> byte list \<Rightarrow> 'w \<Rightarrow> (int \<times> 'w) option" where
  "send_accept K fd accept w = do {
     n \<leftarrow> str_len accept_pre;
     (r1, w1) \<leftarrow> write_all K fd accept_pre n w;
     if r1 \<noteq> 0 then Some (-1, w1)
     else do {
       (r2, w2) \<leftarrow> write_all K fd accept 28 w1;
       if r2 \<noteq> 0 then Some (-1, w2)
       else write_all K fd (crlf @ crlf @ [0]) 4 w2
     }
   }"

definition bind_then_listen :: "'w kernel \<Rightarrow> int \<Rightarrow> uint16 \<Rightarrow> 'w \<Rightarrow> int \<times> 'w" where
  "bind_then_listen K fd port w = (
     let (rc, w1) = do_bind K fd port w in
     if rc \<noteq> 0 then (rc, w1)
     else let (r, w2) = k_listen K fd 16 w1 in (if r < 0 then WS_IO_ERR_LISTEN else 0, w2))"

section \<open>What is relied on\<close>

text \<open>The documented behaviour of \<^verbatim>\<open>read(2)\<close>, \<^verbatim>\<open>write(2)\<close> and \<^verbatim>\<open>epoll_wait(2)\<close>: a read stores as many bytes as it
  returns and at most as many as asked for; a write that returns \<open>r > 0\<close> has appended the first
  \<open>r\<close> bytes of its buffer to what was sent on that descriptor, at most the whole buffer, and one
  that fails has sent nothing; a wait reports as many events as it returns and at most as many as
  asked for.\<close>

definition kernel_ok :: "'w kernel \<Rightarrow> (int \<Rightarrow> 'w \<Rightarrow> byte list) \<Rightarrow> bool" where
  "kernel_ok K sent \<longleftrightarrow>
     (\<forall>fd n w. case k_read K fd n w of (r, bs, w') \<Rightarrow> int (length bs) = max 0 r \<and> length bs \<le> n) \<and>
     (\<forall>fd bs w. case k_write K fd bs w of (r, w') \<Rightarrow>
        r \<le> int (length bs) \<and> sent fd w' = sent fd w @ take (nat r) bs) \<and>
     (\<forall>e n w. case k_epoll_wait K e n w of (r, evs, w') \<Rightarrow> int (length evs) = max 0 r \<and> length evs \<le> n)"

lemma kernel_waitD:
  "kernel_ok K sent \<Longrightarrow> k_epoll_wait K e n w = (r, evs, w') \<Longrightarrow> int (length evs) = max 0 r \<and> length evs \<le> n"
  unfolding kernel_ok_def by (metis (mono_tags, lifting) case_prod_conv)

lemma kernel_readD:
  "kernel_ok K sent \<Longrightarrow> k_read K fd n w = (r, bs, w') \<Longrightarrow> int (length bs) = max 0 r \<and> length bs \<le> n"
  unfolding kernel_ok_def by (metis (mono_tags, lifting) case_prod_conv)

lemma kernel_writeD:
  "kernel_ok K sent \<Longrightarrow> k_write K fd bs w = (r, w') \<Longrightarrow>
   r \<le> int (length bs) \<and> sent fd w' = sent fd w @ take (nat r) bs"
  unfolding kernel_ok_def by (metis (mono_tags, lifting) case_prod_conv)

section \<open>Whole buffers are written\<close>

lemma write_loop_eq:
  assumes ok: "kernel_ok K sent" and "n \<le> length buf" and "off \<le> n"
  shows "\<exists>r w' m. write_loop K fd buf n off w = Some (r, w') \<and> off + m \<le> n \<and>
    sent fd w' = sent fd w @ take m (drop off buf) \<and> (r = 0 \<and> off + m = n \<or> r = -1 \<and> off + m < n)"
  using assms(2,3)
proof (induction "n - off" arbitrary: off w rule: less_induct)
  case less
  show ?case
  proof (cases "off < n")
    case False
    then show ?thesis using less(3) by (subst write_loop.simps) auto
  next
    case True
    obtain r w1 where wr: "k_write K fd (take (n - off) (drop off buf)) w = (r, w1)" by fastforce
    have s: "sys_write K fd buf off (n - off) w = Some (r, w1)"
      using True less(2) wr by (simp add: sys_write_def)
    have k: "r \<le> int (n - off)" "sent fd w1 = sent fd w @ take (nat r) (take (n - off) (drop off buf))"
      using kernel_writeD [OF ok wr] less(2) by auto
    show ?thesis
    proof (cases "r \<le> 0")
      case r: True
      then have "write_loop K fd buf n off w = Some (-1, w1)"
        using True s by (subst write_loop.simps) simp
      then show ?thesis using k r True by (intro exI [of _ "-1"] exI [of _ w1] exI [of _ 0]) simp
    next
      case r: False
      have le: "off + nat r \<le> n" using k(1) True by linarith
      have dec: "n - (off + nat r) < n - off" using r True by linarith
      have tk: "take (nat r) (take (n - off) (drop off buf)) = take (nat r) (drop off buf)"
        using le by (simp add: min_def)
      obtain q w2 m where q: "write_loop K fd buf n (off + nat r) w1 = Some (q, w2)" "off + nat r + m \<le> n"
          "sent fd w2 = sent fd w1 @ take m (drop (off + nat r) buf)"
          "q = 0 \<and> off + nat r + m = n \<or> q = -1 \<and> off + nat r + m < n"
        using less(1) [OF dec less(2) le] by blast
      have "sent fd w2 = sent fd w @ take (nat r + m) (drop off buf)"
        using q(3) k(2) tk take_add [of "nat r" m "drop off buf"]
        by (simp only: drop_drop add.commute [of "nat r" off] append_assoc)
      moreover have "write_loop K fd buf n off w = Some (q, w2)"
        using True s r q(1) by (subst write_loop.simps) simp
      ultimately show ?thesis
        using q(2,4) by (intro exI [of _ q] exI [of _ w2] exI [of _ "nat r + m"]) (auto simp: add.assoc)
    qed
  qed
qed

text \<open>Whatever the kernel answers, the loop ends.\<close>

lemma write_all_total:
  assumes "n \<le> length buf"
  shows "\<exists>r w'. write_all K fd buf n w = Some (r, w')"
proof -
  have "\<exists>r w'. write_loop K fd buf n off w = Some (r, w')" for off
    using assms
  proof (induction K fd buf n off w rule: write_loop.induct)
    case (1 K fd buf n off w)
    obtain r w1 where s: "off < n \<Longrightarrow> sys_write K fd buf off (n - off) w = Some (r, w1)"
      using 1(2) by (cases "k_write K fd (take (n - off) (drop off buf)) w") (auto simp: sys_write_def)
    show ?case
      using 1(1) [OF _ s refl] 1(2) s by (subst write_loop.simps) auto
  qed
  then show ?thesis by (simp add: write_all_def)
qed

lemma write_all_eq:
  assumes "kernel_ok K sent" and "n \<le> length buf"
  obtains r w' m where "write_all K fd buf n w = Some (r, w')" "m \<le> n"
    "sent fd w' = sent fd w @ take m buf" "r = 0 \<and> m = n \<or> r = -1 \<and> m < n"
  using write_loop_eq [OF assms, of 0 fd w] by (auto simp: write_all_def)

definition accept_response :: "byte list \<Rightarrow> byte list" where
  "accept_response accept = butlast accept_pre @ accept @ crlf @ crlf"

lemma accept_pre_len: "str_len accept_pre = Some (length accept_pre - 1)"
proof -
  have "str_len (butlast accept_pre @ [0]) = Some (length (butlast accept_pre))"
    by (rule str_len_eq) (simp add: accept_pre_def crlf_def bytes_of_def butlast_append)
  moreover have "butlast accept_pre @ [0] = accept_pre" by (simp add: accept_pre_def butlast_append)
  ultimately show ?thesis by simp
qed

lemma send_accept_eq:
  assumes ok: "kernel_ok K sent" and "length accept = 28"
  shows "\<exists>r w' m. send_accept K fd accept w = Some (r, w') \<and>
    sent fd w' = sent fd w @ take m (accept_response accept) \<and>
    (r = 0 \<and> m = length (accept_response accept) \<or> r = -1 \<and> m < length (accept_response accept))"
proof -
  let ?p = "butlast accept_pre" and ?R = "accept_response accept"
  let ?n = "length accept_pre - 1"
  have tp: "take m accept_pre = take m ?p" if "m \<le> ?n" for m
    using that by (simp add: butlast_conv_take min_def)
  have lp: "length ?p = ?n" by simp
  obtain r1 w1 m1 where a: "write_all K fd accept_pre ?n w = Some (r1, w1)" "m1 \<le> ?n"
      "sent fd w1 = sent fd w @ take m1 accept_pre" "r1 = 0 \<and> m1 = ?n \<or> r1 = -1 \<and> m1 < ?n"
    by (rule write_all_eq [OF ok, of ?n accept_pre fd w]) auto
  show ?thesis
  proof (cases "r1 = 0")
    case False
    then show ?thesis
      using a tp [OF a(2)] lp by (intro exI [of _ "-1"] exI [of _ w1] exI [of _ m1])
        (simp add: send_accept_def accept_pre_len accept_response_def)
  next
    case r1: True
    then have s1: "sent fd w1 = sent fd w @ ?p" using a tp [of ?n] lp by auto
    obtain r2 w2 m2 where b: "write_all K fd accept 28 w1 = Some (r2, w2)" "m2 \<le> 28"
        "sent fd w2 = sent fd w1 @ take m2 accept" "r2 = 0 \<and> m2 = 28 \<or> r2 = -1 \<and> m2 < 28"
      using assms(2) by (auto intro: write_all_eq [OF ok, of 28 accept fd w1])
    show ?thesis
    proof (cases "r2 = 0")
      case False
      then show ?thesis
        using a r1 b s1 lp assms(2)
        by (intro exI [of _ "-1"] exI [of _ w2] exI [of _ "?n + m2"])
          (simp add: send_accept_def accept_pre_len accept_response_def)
    next
      case r2: True
      then have s2: "sent fd w2 = sent fd w @ ?p @ accept" using b s1 assms(2) by auto
      obtain r3 w3 m3 where c: "write_all K fd (crlf @ crlf @ [0]) 4 w2 = Some (r3, w3)" "m3 \<le> 4"
          "sent fd w3 = sent fd w2 @ take m3 (crlf @ crlf @ [0])" "r3 = 0 \<and> m3 = 4 \<or> r3 = -1 \<and> m3 < 4"
        by (rule write_all_eq [OF ok, of 4 "crlf @ crlf @ [0]" fd w2]) (auto simp: crlf_def)
      have "take m3 (crlf @ crlf @ [0]) = take m3 (crlf @ crlf)" using c(2) by (simp add: crlf_def take_Cons')
      then show ?thesis
        using a r1 b r2 c s2 lp assms(2)
        by (intro exI [of _ r3] exI [of _ w3] exI [of _ "?n + 28 + m3"])
          (auto simp: send_accept_def accept_pre_len accept_response_def crlf_def)
    qed
  qed
qed

section \<open>A loopback kernel\<close>

text \<open>A kernel that meets the assumptions: each descriptor has a queue of bytes to read and
  collects what is written to it; a read takes as much as is asked for, a write accepts everything,
  and every wait reports the listener. It serves as the instance at which statements with a kernel
  are evaluated.\<close>

record world =
  w_in :: "int \<Rightarrow> byte list"
  w_out :: "int \<Rightarrow> byte list"
  w_fds :: "int set"
  w_next :: int

definition loopback :: "world kernel" where
  "loopback = \<lparr>
     k_read = (\<lambda>d n w. let bs = take n (w_in w d) in
       (int (length bs), bs, w\<lparr>w_in := (w_in w)(d := drop n (w_in w d))\<rparr>)),
     k_write = (\<lambda>d bs w. (int (length bs), w\<lparr>w_out := (w_out w)(d := w_out w d @ bs)\<rparr>)),
     k_close = (\<lambda>d w. w\<lparr>w_fds := w_fds w - {d}\<rparr>),
     k_socket = (\<lambda>_ _ _ w. (3, w\<lparr>w_fds := insert 3 (w_fds w)\<rparr>)),
     k_setsockopt = (\<lambda>_ _ _ _ w. (0, w)),
     k_bind = (\<lambda>_ _ w. (0, w)),
     k_listen = (\<lambda>_ _ w. (0, w)),
     k_accept = (\<lambda>_ w. if 0 \<le> w_next w \<and> w_next w < 2 ^ 31 \<and> w_next w \<notin> w_fds w
       then (w_next w, w\<lparr>w_fds := insert (w_next w) (w_fds w), w_next := w_next w + 1\<rparr>) else (-11, w)),
     k_epoll_create1 = (\<lambda>_ w. (4, w\<lparr>w_fds := insert 4 (w_fds w)\<rparr>)),
     k_epoll_ctl = (\<lambda>_ _ _ _ w. (0, w)),
     k_epoll_wait = (\<lambda>_ n w. let evs = take n [\<lparr>ep_events = EPOLLIN, ep_data = 3\<rparr>] in (int (length evs), evs, w))\<rparr>"

definition world0 :: world where
  "world0 = \<lparr>w_in = (\<lambda>_. []), w_out = (\<lambda>_. []), w_fds = {0, 1, 2}, w_next = 5\<rparr>"

lemma loopback_ok: "kernel_ok loopback (\<lambda>d w. w_out w d)"
  by (auto simp: kernel_ok_def loopback_def Let_def)

text \<open>A kernel whose writes always make progress: \<open>write\<close> never fails and never returns 0.\<close>

definition writable :: "'w kernel \<Rightarrow> bool" where
  "writable K \<longleftrightarrow> (\<forall>d bs w. bs \<noteq> [] \<longrightarrow> 0 < fst (k_write K d bs w))"

lemma loopback_writable: "writable loopback"
  by (simp add: writable_def loopback_def)

lemma write_loop_writable:
  assumes "writable K" and "n \<le> length buf" and "write_loop K d buf n off w = Some (r, w')"
  shows "r = 0"
  using assms
proof (induction K d buf n off w rule: write_loop.induct)
  case (1 K d buf n off w)
  show ?case
  proof (cases "off < n")
    case True
    obtain q w1 where k: "k_write K d (take (n - off) (drop off buf)) w = (q, w1)" by fastforce
    have s: "sys_write K d buf off (n - off) w = Some (q, w1)" using True 1(3) k by (simp add: sys_write_def)
    have "take (n - off) (drop off buf) \<noteq> []" using True 1(3) by simp
    then have q: "0 < q" using 1(2) k unfolding writable_def by (metis fst_conv)
    then have "write_loop K d buf n (off + nat q) w1 = Some (r, w')"
      using 1(4) True s by (subst (asm) write_loop.simps) simp
    with 1(1) [OF True s refl] 1(2,3) q show ?thesis by simp
  qed (use 1(4) in \<open>subst (asm) write_loop.simps, simp\<close>)
qed

lemma write_all_writable:
  assumes "kernel_ok K sent" and "writable K" and "n \<le> length buf"
  shows "\<exists>w'. write_all K d buf n w = Some (0, w') \<and> sent d w' = sent d w @ take n buf"
  using assms(3)
proof (rule write_all_eq [OF assms(1), of _ _ d w])
  fix r w' m
  assume a: "write_all K d buf n w = Some (r, w')" "sent d w' = sent d w @ take m buf"
    "r = 0 \<and> m = n \<or> r = -1 \<and> m < n"
  have "r = 0" using write_loop_writable [OF assms(2,3)] a(1) by (simp add: write_all_def)
  then show ?thesis using a by auto
qed

end
