(* ===== verification/Machine.thy ===== *)
theory Machine
  imports Prelude
begin

text \<open>
  Interfaces for the state machines of the development: an invariant of a transition system, a
  quantity that only moves up, and a simulation of one system by another. The lifecycle, the
  stream driver and the TLA+ specifications of the repository are instances.
\<close>

locale invariant_system =
  fixes init :: "'s \<Rightarrow> bool" and step :: "'s \<Rightarrow> 's \<Rightarrow> bool" and inv :: "'s \<Rightarrow> bool"
  assumes inv_init: "init s \<Longrightarrow> inv s"
    and inv_step: "inv s \<Longrightarrow> step s t \<Longrightarrow> inv t"
begin

lemma inv_run: "step\<^sup>*\<^sup>* s t \<Longrightarrow> inv s \<Longrightarrow> inv t"
  by (induction rule: rtranclp_induct) (auto intro: inv_step)

lemma inv_reachable: "init s \<Longrightarrow> step\<^sup>*\<^sup>* s t \<Longrightarrow> inv t"
  using inv_run inv_init by blast

end

locale monotone_system = invariant_system +
  fixes rank :: "'s \<Rightarrow> 'o::order"
  assumes rank_step: "inv s \<Longrightarrow> step s t \<Longrightarrow> rank s \<le> rank t"
begin

lemma rank_run: "step\<^sup>*\<^sup>* s t \<Longrightarrow> inv s \<Longrightarrow> rank s \<le> rank t"
proof (induction rule: rtranclp_induct)
  case (step t u)
  then have "rank s \<le> rank t" "rank t \<le> rank u" using inv_run rank_step by blast+
  then show ?case by (rule order_trans)
qed simp

text \<open>A value that nothing exceeds is kept for ever.\<close>

lemma top_stable:
  assumes "inv s" and "step\<^sup>*\<^sup>* s t" and "\<And>r. rank s \<le> r \<Longrightarrow> r = rank s"
  shows "rank t = rank s"
  using rank_run [OF assms(2,1)] assms(3) by blast

end

text \<open>A simulation: every step of the concrete system is matched by a run, possibly empty, of
  the abstract one.\<close>

locale simulation = invariant_system init step inv
  for init :: "'s \<Rightarrow> bool" and step :: "'s \<Rightarrow> 's \<Rightarrow> bool" and inv :: "'s \<Rightarrow> bool" +
  fixes ainit :: "'a \<Rightarrow> bool" and astep :: "'a \<Rightarrow> 'a \<Rightarrow> bool" and abs :: "'s \<Rightarrow> 'a"
  assumes sim_init: "init s \<Longrightarrow> ainit (abs s)"
    and sim_step: "inv s \<Longrightarrow> step s t \<Longrightarrow> astep\<^sup>*\<^sup>* (abs s) (abs t)"
begin

lemma sim_run: "step\<^sup>*\<^sup>* s t \<Longrightarrow> inv s \<Longrightarrow> astep\<^sup>*\<^sup>* (abs s) (abs t)"
proof (induction rule: rtranclp_induct)
  case (step t u)
  then show ?case using inv_run sim_step rtranclp_trans [of astep] by meson
qed simp

text \<open>An invariant of the abstract system holds of the concrete one.\<close>

lemma transfer:
  assumes "init s" and "step\<^sup>*\<^sup>* s t" and "\<And>a b. ainit a \<Longrightarrow> astep\<^sup>*\<^sup>* a b \<Longrightarrow> P b"
  shows "P (abs t)"
  using assms sim_run [OF assms(2)] sim_init inv_init by blast

end

end
