(* ===== verification/Lifecycle.thy ===== *)
theory Lifecycle
  imports Api Machine
begin

text \<open>
  The connection lifecycle, after \<^verbatim>\<open>src/session/lifecycle.c\<close>, and its abstract specification,
  after \<^verbatim>\<open>spec/WsLifecycle.tla\<close>. Each handler returns the status and the updated connection.
  The trace calls of the source are compiled out of a release build and are not modelled here.
\<close>

section \<open>The handlers (lifecycle.c)\<close>

definition ws_lc_active :: "ws_conn \<Rightarrow> bool" where
  "ws_lc_active c \<longleftrightarrow> state c = WS_OPEN \<or> state c = WS_CLOSING"

definition ws_lc_handshake :: "ws_conn \<Rightarrow> int \<times> ws_conn" where
  "ws_lc_handshake c =
     (if state c \<noteq> WS_CONNECTING then (WS_ERR_ILLEGAL_STATE, c)
      else (WS_OK, c\<lparr>state := WS_OPEN\<rparr>))"

definition ws_lc_send_close :: "ws_conn \<Rightarrow> int \<times> ws_conn" where
  "ws_lc_send_close c =
     (if state c \<noteq> WS_OPEN then (WS_ERR_ILLEGAL_STATE, c)
      else (WS_OK, c\<lparr>sent_close := True, state := WS_CLOSING\<rparr>))"

definition ws_lc_recv_close :: "ws_conn \<Rightarrow> int \<times> ws_conn" where
  "ws_lc_recv_close c =
     (if \<not> ws_lc_active c then (WS_ERR_ILLEGAL_STATE, c)
      else (WS_OK, c\<lparr>rcvd_close := True, sent_close := True, state := WS_CLOSED,
        frag := WS_FRAG_NONE, msg_len := 0\<rparr>))"

definition ws_lc_start_frag :: "ws_conn \<Rightarrow> ws_frag \<Rightarrow> int \<times> ws_conn" where
  "ws_lc_start_frag c start_type =
     (if \<not> ws_lc_active c then (WS_ERR_ILLEGAL_STATE, c)
      else if frag c \<noteq> WS_FRAG_NONE then (WS_ERR_ILLEGAL_STATE, c)
      else (WS_OK, c\<lparr>frag := start_type\<rparr>))"

definition ws_lc_finish_frag :: "ws_conn \<Rightarrow> int \<times> ws_conn" where
  "ws_lc_finish_frag c =
     (if \<not> ws_lc_active c then (WS_ERR_ILLEGAL_STATE, c)
      else if frag c = WS_FRAG_NONE then (WS_ERR_ILLEGAL_STATE, c)
      else (WS_OK, c\<lparr>frag := WS_FRAG_NONE\<rparr>))"

lemmas lc_defs = ws_lc_handshake_def ws_lc_send_close_def ws_lc_recv_close_def
  ws_lc_start_frag_def ws_lc_finish_frag_def ws_lc_active_def

section \<open>The specification (WsLifecycle.tla)\<close>

record lc_vars =
  lcState :: ws_state
  lcFrag :: ws_frag
  sentClose :: bool
  rcvdClose :: bool

definition lcActive :: "lc_vars \<Rightarrow> bool" where
  "lcActive v \<longleftrightarrow> lcState v = WS_OPEN \<or> lcState v = WS_CLOSING"

definition lcInit :: "lc_vars \<Rightarrow> bool" where
  "lcInit v \<longleftrightarrow> v = \<lparr>lcState = WS_CONNECTING, lcFrag = WS_FRAG_NONE, sentClose = False,
     rcvdClose = False\<rparr>"

inductive lcNext :: "lc_vars \<Rightarrow> lc_vars \<Rightarrow> bool" where
  Handshake: "lcState v = WS_CONNECTING \<Longrightarrow> lcNext v (v\<lparr>lcState := WS_OPEN\<rparr>)"
| SendClose: "lcState v = WS_OPEN \<Longrightarrow> lcNext v (v\<lparr>sentClose := True, lcState := WS_CLOSING\<rparr>)"
| RecvClose: "lcActive v \<Longrightarrow> \<not> rcvdClose v \<Longrightarrow>
    lcNext v (v\<lparr>rcvdClose := True, sentClose := True, lcState := WS_CLOSED, lcFrag := WS_FRAG_NONE\<rparr>)"
| StartFrag: "lcActive v \<Longrightarrow> lcFrag v = WS_FRAG_NONE \<Longrightarrow> t \<noteq> WS_FRAG_NONE \<Longrightarrow>
    lcNext v (v\<lparr>lcFrag := t\<rparr>)"
| FinishFrag: "lcActive v \<Longrightarrow> lcFrag v \<noteq> WS_FRAG_NONE \<Longrightarrow> lcNext v (v\<lparr>lcFrag := WS_FRAG_NONE\<rparr>)"
| Terminated: "lcState v = WS_CLOSED \<Longrightarrow> lcNext v v"

inductive_cases lcNext_cases: "lcNext v w"

text \<open>The actions by name, each as the relation between unprimed and primed variables that the
  specification writes; \<open>lcStartFrag t\<close> is the instance of \<^verbatim>\<open>StartFrag\<close> that chooses \<open>t\<close>.\<close>

definition lcHandshake :: "lc_vars \<Rightarrow> lc_vars \<Rightarrow> bool" where
  "lcHandshake v v' \<longleftrightarrow> lcState v = WS_CONNECTING \<and> lcState v' = WS_OPEN \<and>
     lcFrag v' = lcFrag v \<and> sentClose v' = sentClose v \<and> rcvdClose v' = rcvdClose v"

definition lcSendClose :: "lc_vars \<Rightarrow> lc_vars \<Rightarrow> bool" where
  "lcSendClose v v' \<longleftrightarrow> lcState v = WS_OPEN \<and> sentClose v' \<and> lcState v' = WS_CLOSING \<and>
     lcFrag v' = lcFrag v \<and> rcvdClose v' = rcvdClose v"

definition lcRecvClose :: "lc_vars \<Rightarrow> lc_vars \<Rightarrow> bool" where
  "lcRecvClose v v' \<longleftrightarrow> lcActive v \<and> \<not> rcvdClose v \<and> rcvdClose v' \<and> sentClose v' \<and> lcState v' = WS_CLOSED \<and>
     lcFrag v' = WS_FRAG_NONE"

definition lcStartFrag :: "ws_frag \<Rightarrow> lc_vars \<Rightarrow> lc_vars \<Rightarrow> bool" where
  "lcStartFrag t v v' \<longleftrightarrow> lcActive v \<and> lcFrag v = WS_FRAG_NONE \<and> t \<noteq> WS_FRAG_NONE \<and> lcFrag v' = t \<and>
     lcState v' = lcState v \<and> sentClose v' = sentClose v \<and> rcvdClose v' = rcvdClose v"

definition lcFinishFrag :: "lc_vars \<Rightarrow> lc_vars \<Rightarrow> bool" where
  "lcFinishFrag v v' \<longleftrightarrow> lcActive v \<and> lcFrag v \<noteq> WS_FRAG_NONE \<and> lcFrag v' = WS_FRAG_NONE \<and>
     lcState v' = lcState v \<and> sentClose v' = sentClose v \<and> rcvdClose v' = rcvdClose v"

text \<open>As updates of the variables, and their disjunction, which is \<^verbatim>\<open>Next\<close>.\<close>

lemma lc_actions:
  "lcHandshake v v' \<longleftrightarrow> lcState v = WS_CONNECTING \<and> v' = v\<lparr>lcState := WS_OPEN\<rparr>"
  "lcSendClose v v' \<longleftrightarrow> lcState v = WS_OPEN \<and> v' = v\<lparr>sentClose := True, lcState := WS_CLOSING\<rparr>"
  "lcRecvClose v v' \<longleftrightarrow> lcActive v \<and> \<not> rcvdClose v \<and>
     v' = v\<lparr>rcvdClose := True, sentClose := True, lcState := WS_CLOSED, lcFrag := WS_FRAG_NONE\<rparr>"
  "lcStartFrag t v v' \<longleftrightarrow> lcActive v \<and> lcFrag v = WS_FRAG_NONE \<and> t \<noteq> WS_FRAG_NONE \<and> v' = v\<lparr>lcFrag := t\<rparr>"
  "lcFinishFrag v v' \<longleftrightarrow> lcActive v \<and> lcFrag v \<noteq> WS_FRAG_NONE \<and> v' = v\<lparr>lcFrag := WS_FRAG_NONE\<rparr>"
  by (cases v; cases v'; auto simp: lcHandshake_def lcSendClose_def lcRecvClose_def lcStartFrag_def lcFinishFrag_def)+

lemma lcNext_iff:
  "lcNext v v' \<longleftrightarrow> lcHandshake v v' \<or> lcSendClose v v' \<or> lcRecvClose v v' \<or> (\<exists>t. lcStartFrag t v v') \<or>
     lcFinishFrag v v' \<or> lcState v = WS_CLOSED \<and> v' = v"
  unfolding lcNext.simps [of v v'] lc_actions by blast

text \<open>The safety invariants INV1, INV2, INV3, INV5 and INV6, in that order. They are not inductive
  by themselves; the last conjunct, that a Close is received only with our own accounted for,
  makes them so.\<close>

definition lcInv :: "lc_vars \<Rightarrow> bool" where
  "lcInv v \<longleftrightarrow>
     (lcState v = WS_CLOSED \<longleftrightarrow> sentClose v \<and> rcvdClose v) \<and>
     (lcFrag v \<noteq> WS_FRAG_NONE \<longrightarrow> lcActive v) \<and>
     (lcState v = WS_CLOSED \<longrightarrow> lcFrag v = WS_FRAG_NONE) \<and>
     (lcState v = WS_CLOSING \<longleftrightarrow> sentClose v \<and> \<not> rcvdClose v) \<and>
     (lcState v = WS_CONNECTING \<longrightarrow> \<not> sentClose v \<and> \<not> rcvdClose v) \<and>
     (rcvdClose v \<longrightarrow> sentClose v)"

lemma lcInv_iff:
  "lcInv v \<longleftrightarrow> (case lcState v of
     WS_CONNECTING \<Rightarrow> \<not> sentClose v \<and> \<not> rcvdClose v \<and> lcFrag v = WS_FRAG_NONE
   | WS_OPEN \<Rightarrow> \<not> sentClose v \<and> \<not> rcvdClose v
   | WS_CLOSING \<Rightarrow> sentClose v \<and> \<not> rcvdClose v
   | WS_CLOSED \<Rightarrow> sentClose v \<and> rcvdClose v \<and> lcFrag v = WS_FRAG_NONE)"
  by (cases "lcState v"; cases "sentClose v"; cases "rcvdClose v") (simp_all add: lcInv_def lcActive_def)

lemma lcInv_next: "lcNext v w \<Longrightarrow> lcInv v \<Longrightarrow> lcInv w"
  by (induction rule: lcNext.induct) (auto simp: lcInv_iff lcActive_def)

lemma lcState_next: "lcNext v w \<Longrightarrow> lcState v \<le> lcState w"
  by (induction rule: lcNext.induct) (auto simp: lcActive_def less_eq_ws_state_def)

interpretation lc: monotone_system lcInit lcNext lcInv lcState
proof unfold_locales
  show "lcInv s" if "lcInit s" for s using that by (simp add: lcInit_def lcInv_iff)
  show "lcInv t" if "lcInv s" "lcNext s t" for s t using that(2,1) by (rule lcInv_next)
  show "lcState s \<le> lcState t" if "lcInv s" "lcNext s t" for s t using that(2) by (rule lcState_next)
qed

lemma closed_is_top: "WS_CLOSED \<le> s \<Longrightarrow> s = WS_CLOSED"
  by (cases s) (simp_all add: less_eq_ws_state_def)

section \<open>The handlers implement the specification\<close>

definition lc_abs :: "ws_conn \<Rightarrow> lc_vars" where
  "lc_abs c = \<lparr>lcState = state c, lcFrag = frag c, sentClose = sent_close c, rcvdClose = rcvd_close c\<rparr>"

lemma lc_abs_simps [simp]:
  "lcState (lc_abs c) = state c" "lcFrag (lc_abs c) = frag c"
  "sentClose (lc_abs c) = sent_close c" "rcvdClose (lc_abs c) = rcvd_close c"
  "lcActive (lc_abs c) = ws_lc_active c"
  by (simp_all add: lc_abs_def lcActive_def ws_lc_active_def)

text \<open>A handler for an action: in every connection in which the action is enabled the handler takes
  this action and answers \<open>WS_OK\<close>, in every other one it answers \<open>WS_ERR_ILLEGAL_STATE\<close> and
  changes nothing. The fields the specification does not speak of are left alone, but for the
  length of the message being assembled, which is \<open>n\<close> of the connection afterwards.\<close>

definition lc_action ::
    "(ws_conn \<Rightarrow> int \<times> ws_conn) \<Rightarrow> (lc_vars \<Rightarrow> lc_vars \<Rightarrow> bool) \<Rightarrow> (ws_conn \<Rightarrow> size_t) \<Rightarrow> bool" where
  "lc_action h act n \<longleftrightarrow> (\<forall>c. lcInv (lc_abs c) \<longrightarrow>
     (if \<exists>v'. act (lc_abs c) v'
      then fst (h c) = WS_OK \<and> act (lc_abs c) (lc_abs (snd (h c))) \<and> msg_len (snd (h c)) = n c \<and>
        snd (h c) = c\<lparr>state := state (snd (h c)), frag := frag (snd (h c)), sent_close := sent_close (snd (h c)),
          rcvd_close := rcvd_close (snd (h c)), msg_len := msg_len (snd (h c))\<rparr>
      else h c = (WS_ERR_ILLEGAL_STATE, c)))"

lemma lc_abs_update [simp]:
  "lc_abs (c\<lparr>state := s\<rparr>) = (lc_abs c)\<lparr>lcState := s\<rparr>"
  "lc_abs (c\<lparr>frag := f\<rparr>) = (lc_abs c)\<lparr>lcFrag := f\<rparr>"
  "lc_abs (c\<lparr>sent_close := b\<rparr>) = (lc_abs c)\<lparr>sentClose := b\<rparr>"
  "lc_abs (c\<lparr>rcvd_close := b\<rparr>) = (lc_abs c)\<lparr>rcvdClose := b\<rparr>"
  "lc_abs (c\<lparr>msg_len := n\<rparr>) = lc_abs c" "lc_abs (c\<lparr>rx_len := n\<rparr>) = lc_abs c"
  "lc_abs (c\<lparr>msg_buf := m\<rparr>) = lc_abs c" "lc_abs (c\<lparr>failed := b\<rparr>) = lc_abs c"
  "lc_abs (c\<lparr>close_code := k\<rparr>) = lc_abs c"
  by (simp_all add: lc_abs_def)

lemma active_not_rcvd: "lcInv (lc_abs c) \<Longrightarrow> ws_lc_active c \<Longrightarrow> \<not> rcvd_close c"
  by (auto simp: lcInv_iff ws_lc_active_def)

lemma lcInv_active: "lcInv (lc_abs c) \<Longrightarrow> frag c \<noteq> WS_FRAG_NONE \<Longrightarrow> ws_lc_active c"
  by (auto simp: lcInv_iff ws_lc_active_def split: ws_state.splits)

text \<open>When each action is enabled.\<close>

lemma lc_enabled:
  "(\<exists>v'. lcHandshake v v') \<longleftrightarrow> lcState v = WS_CONNECTING"
  "(\<exists>v'. lcSendClose v v') \<longleftrightarrow> lcState v = WS_OPEN"
  "(\<exists>v'. lcRecvClose v v') \<longleftrightarrow> lcActive v \<and> \<not> rcvdClose v"
  "(\<exists>v'. lcStartFrag t v v') \<longleftrightarrow> lcActive v \<and> lcFrag v = WS_FRAG_NONE \<and> t \<noteq> WS_FRAG_NONE"
  "(\<exists>v'. lcFinishFrag v v') \<longleftrightarrow> lcActive v \<and> lcFrag v \<noteq> WS_FRAG_NONE"
  by (simp_all add: lc_actions)

lemma handshake_action: "lc_action ws_lc_handshake lcHandshake msg_len"
  by (simp add: lc_action_def lc_enabled) (simp add: lcHandshake_def ws_lc_handshake_def)

lemma send_close_action: "lc_action ws_lc_send_close lcSendClose msg_len"
  by (simp add: lc_action_def lc_enabled) (simp add: lcSendClose_def ws_lc_send_close_def)

lemma recv_close_action: "lc_action ws_lc_recv_close lcRecvClose (\<lambda>_. 0)"
  using active_not_rcvd
  by (simp add: lc_action_def lc_enabled) (auto simp: lcRecvClose_def ws_lc_recv_close_def)

lemma start_frag_action:
  "t \<noteq> WS_FRAG_NONE \<Longrightarrow> lc_action (\<lambda>c. ws_lc_start_frag c t) (lcStartFrag t) msg_len"
  by (simp add: lc_action_def lc_enabled) (simp add: lcStartFrag_def ws_lc_start_frag_def)

lemma finish_frag_action: "lc_action ws_lc_finish_frag lcFinishFrag msg_len"
  by (simp add: lc_action_def lc_enabled) (simp add: lcFinishFrag_def ws_lc_finish_frag_def)

section \<open>Properties\<close>

text \<open>C28. Each handler of the lifecycle is the action of its own name of the TLA+ specification: in
  every connection that satisfies the invariant, when that action is enabled the handler takes
  exactly it and answers \<open>WS_OK\<close>, otherwise it answers \<open>WS_ERR_ILLEGAL_STATE\<close> and leaves the
  connection alone; starting a fragment stores the type it is given. No other field of the
  connection changes, except that receiving a Close discards the message being assembled.\<close>

theorem lifecycle_handlers:
  "lc_action ws_lc_handshake lcHandshake msg_len \<and>
   lc_action ws_lc_send_close lcSendClose msg_len \<and>
   lc_action ws_lc_recv_close lcRecvClose (\<lambda>_. 0) \<and>
   lc_action (\<lambda>c. ws_lc_start_frag c WS_FRAG_TEXT) (lcStartFrag WS_FRAG_TEXT) msg_len \<and>
   lc_action (\<lambda>c. ws_lc_start_frag c WS_FRAG_BIN) (lcStartFrag WS_FRAG_BIN) msg_len \<and>
   lc_action ws_lc_finish_frag lcFinishFrag msg_len"
  by (intro conjI handshake_action send_close_action recv_close_action start_frag_action
      finish_frag_action) simp_all

end
