(* ===== verification/Codec.thy ===== *)
theory Codec
  imports Prelude
begin

text \<open>
  The interface between a layer that recognises one item at the front of a byte stream (a frame
  header, a UTF-8 character) and the layer that reads a stream of them. The frame parser and the
  UTF-8 decoder are both shown to provide it.
\<close>

locale prefix_codec =
  fixes enc :: "'a \<Rightarrow> byte list"
    and dec :: "byte list \<Rightarrow> (nat \<times> 'a) option"
    and wf :: "'a \<Rightarrow> bool"
  assumes dec_enc: "wf a \<Longrightarrow> dec (enc a @ rest) = Some (length (enc a), a)"
    and dec_sound: "dec bs = Some (n, a) \<Longrightarrow> wf a \<and> n \<le> length bs \<and> take n bs = enc a"
begin

lemma dec_iff: "dec bs = Some (n, a) \<longleftrightarrow> wf a \<and> n = length (enc a) \<and> (\<exists>rest. bs = enc a @ rest)"
proof
  assume "dec bs = Some (n, a)"
  from dec_sound [OF this] have wf: "wf a" and len: "n \<le> length bs" and front: "take n bs = enc a"
    by blast+
  then have "n = length (enc a)" "bs = enc a @ drop n bs"
    using length_take [of n bs] append_take_drop_id [of n bs] by (auto simp: min_def)
  with wf show "wf a \<and> n = length (enc a) \<and> (\<exists>rest. bs = enc a @ rest)" by blast
qed (auto simp: dec_enc)

lemma enc_unique:
  assumes "wf a" and "wf b" and "enc a @ r = enc b @ s"
  shows "a = b \<and> r = s"
proof -
  have "Some (length (enc a), a) = Some (length (enc b), b)"
    using dec_enc [OF assms(1), of r] dec_enc [OF assms(2), of s] assms(3) by simp
  with assms(3) show ?thesis by simp
qed

lemma enc_inj: "wf a \<Longrightarrow> wf b \<Longrightarrow> enc a = enc b \<Longrightarrow> a = b"
  using enc_unique [of a b "[]" "[]"] by simp

end

text \<open>When no item is empty, a stream of items is determined by its bytes.\<close>

locale stream_codec = prefix_codec +
  assumes enc_nonempty: "wf a \<Longrightarrow> enc a \<noteq> []"
begin

lemma concat_enc_unique:
  assumes "\<forall>a \<in> set as. wf a" and "\<forall>b \<in> set bs. wf b"
    and "concat (map enc as) = concat (map enc bs)"
  shows "as = bs"
  using assms
proof (induction as arbitrary: bs)
  case Nil
  then show ?case using enc_nonempty by (cases bs) auto
next
  case (Cons a as)
  obtain b bs' where bs: "bs = b # bs'"
    using Cons.prems enc_nonempty [of a] by (cases bs) auto
  have "a = b \<and> concat (map enc as) = concat (map enc bs')"
    by (rule enc_unique) (use Cons.prems bs in simp_all)
  with Cons.IH [of bs'] Cons.prems bs show ?case by simp
qed

text \<open>Reading a stream item by item: one decoding step at the front, then the rest.\<close>

lemma stream_step:
  "(\<exists>as. (\<forall>a \<in> set as. wf a) \<and> bs = concat (map enc as)) \<longleftrightarrow>
   bs = [] \<or> (\<exists>n a. dec bs = Some (n, a) \<and>
     (\<exists>as. (\<forall>a \<in> set as. wf a) \<and> drop n bs = concat (map enc as)))"
proof
  assume "\<exists>as. (\<forall>a \<in> set as. wf a) \<and> bs = concat (map enc as)"
  then obtain as where as: "\<forall>a \<in> set as. wf a" "bs = concat (map enc as)" by blast
  then show "bs = [] \<or> (\<exists>n a. dec bs = Some (n, a) \<and>
     (\<exists>as. (\<forall>a \<in> set as. wf a) \<and> drop n bs = concat (map enc as)))"
    by (cases as) (auto simp: dec_enc)
next
  assume "bs = [] \<or> (\<exists>n a. dec bs = Some (n, a) \<and>
     (\<exists>as. (\<forall>a \<in> set as. wf a) \<and> drop n bs = concat (map enc as)))"
  then show "\<exists>as. (\<forall>a \<in> set as. wf a) \<and> bs = concat (map enc as)"
  proof (elim disjE exE conjE)
    assume "bs = []"
    then show ?thesis by (intro exI [of _ "[]"]) simp
  next
    fix n a as
    assume dec: "dec bs = Some (n, a)" and as: "\<forall>a \<in> set as. wf a" "drop n bs = concat (map enc as)"
    then have "wf a" "bs = enc a @ concat (map enc as)" by (auto simp: dec_iff)
    with as show ?thesis by (intro exI [of _ "a # as"]) simp
  qed
qed

end

end
