(* ===== verification/Frame.thy ===== *)
theory Frame
  imports Api Util Codec Bytes
begin

text \<open>
  Frame headers, after \<^verbatim>\<open>src/framing/frame.c\<close>: close codes, opcode classes, the length field,
  parsing and building. \<open>encode_header\<close> and \<open>wf_header\<close> state the wire format of RFC 6455
  section 5.2 on their own; the lemmas show that the builder writes exactly that format and
  that the parser accepts exactly the encodings of well-formed headers.
\<close>

section \<open>Close codes and opcode classes\<close>

definition in_range16 :: "uint16 \<Rightarrow> uint16 \<Rightarrow> uint16 \<Rightarrow> bool" where
  "in_range16 c lo hi \<longleftrightarrow> c \<ge> lo \<and> c \<le> hi"

definition close_reserved :: "uint16 \<Rightarrow> bool" where
  "close_reserved c \<longleftrightarrow> c = 1004 \<or> c = 1005 \<or> c = 1006"

definition close_protocol_ok :: "uint16 \<Rightarrow> bool" where
  "close_protocol_ok code = (if \<not> in_range16 code 1000 1011 then False else \<not> close_reserved code)"

definition ws_close_code_sendable :: "uint16 \<Rightarrow> bool" where
  "ws_close_code_sendable code =
     (if close_protocol_ok code then True else in_range16 code 3000 4999)"

definition kOpClass :: "ws_opclass list" where
  "kOpClass =
    [WS_CLASS_DATA,     WS_CLASS_DATA,     WS_CLASS_DATA,     WS_CLASS_RESERVED,
     WS_CLASS_RESERVED, WS_CLASS_RESERVED, WS_CLASS_RESERVED, WS_CLASS_RESERVED,
     WS_CLASS_CONTROL,  WS_CLASS_CONTROL,  WS_CLASS_CONTROL,  WS_CLASS_RESERVED,
     WS_CLASS_RESERVED, WS_CLASS_RESERVED, WS_CLASS_RESERVED, WS_CLASS_RESERVED]"

definition ws_classify_opcode :: "byte \<Rightarrow> ws_opclass" where
  "ws_classify_opcode opc = kOpClass ! unat (opc AND 0x0F)"

section \<open>Parsing\<close>

definition read_be :: "byte list \<Rightarrow> size_t \<Rightarrow> uint64 option" where
  "read_be buf n =
     for_loop 0 n (\<lambda>i v. do { b \<leftarrow> load buf i; Some (push_bit 8 v OR ucast b) }) 0"

definition ext_bytes :: "byte \<Rightarrow> size_t" where
  "ext_bytes l7 = (if l7 = 126 then 2 else if l7 = 127 then 8 else 0)"

definition raw_len :: "byte list \<Rightarrow> size_t \<Rightarrow> uint64 option" where
  "raw_len buf ext =
     (if ext = 0 then do { b \<leftarrow> load buf 1; Some (ucast (b AND 0x7F)) }
      else read_be (drop 2 buf) ext)"

definition len64_ok :: "uint64 \<Rightarrow> bool" where
  "len64_ok v = (if drop_bit 63 v \<noteq> 0 then False else v > 0xFFFF)"

definition len_ok :: "size_t \<Rightarrow> uint64 \<Rightarrow> bool" where
  "len_ok ext v = (if ext = 0 then True else if ext = 2 then v \<ge> 126 else len64_ok v)"

text \<open>Returns the status, the length (\<open>*len\<close>) and the header size before the key (\<open>*hdr\<close>).
  On \<open>WS_ERR_NEED_MORE\<close> the code leaves \<open>*len\<close> unset; it is not read then.\<close>

definition decode_len :: "byte list \<Rightarrow> size_t \<Rightarrow> (int \<times> uint64 \<times> size_t) option" where
  "decode_len buf avail = do {
     b1 \<leftarrow> load buf 1;
     let ext = ext_bytes (b1 AND 0x7F);
     let hdr = 2 + ext;
     if avail < hdr then Some (WS_ERR_NEED_MORE, 0, hdr)
     else do {
       len \<leftarrow> raw_len buf ext;
       if \<not> len_ok ext len then Some (WS_ERR_PROTOCOL, len, hdr) else Some (0, len, hdr)
     }
   }"

definition control_too_big :: "ws_opcode \<Rightarrow> uint64 \<Rightarrow> bool" where
  "control_too_big opc plen \<longleftrightarrow> ws_classify_opcode (ucast opc) = WS_CLASS_CONTROL \<and> plen > 125"

definition control_fragmented :: "ws_opcode \<Rightarrow> bool \<Rightarrow> bool" where
  "control_fragmented opc fn \<longleftrightarrow> ws_classify_opcode (ucast opc) = WS_CLASS_CONTROL \<and> \<not> fn"

definition fill_fields :: "byte list \<Rightarrow> uint64 \<Rightarrow> ws_frame_header \<Rightarrow> ws_frame_header option" where
  "fill_fields buf plen out = do {
     b0 \<leftarrow> load buf 0;
     b1 \<leftarrow> load buf 1;
     Some (out\<lparr>fin := b0 AND 0x80 \<noteq> 0,
               rsv := drop_bit 4 b0 AND 0x07,
               opcode := ucast (b0 AND 0x0F),
               masked := b1 AND 0x80 \<noteq> 0,
               payload_len := plen\<rparr>)
   }"

definition parse_mask ::
  "byte list \<Rightarrow> size_t \<Rightarrow> size_t \<Rightarrow> ws_frame_header \<Rightarrow> (int \<times> ws_frame_header) option" where
  "parse_mask buf len hdr out =
     (if \<not> masked out then Some (int hdr, out)
      else if len < hdr + 4 then Some (WS_ERR_NEED_MORE, out)
      else do {
        key \<leftarrow> ws_memcpy (mask_key out) 0 buf hdr 4;
        Some (int (hdr + 4), out\<lparr>mask_key := key\<rparr>)
      })"

definition header_well_formed :: "ws_frame_header \<Rightarrow> bool" where
  "header_well_formed h =
     (if rsv h \<noteq> 0 then False
      else if control_too_big (opcode h) (payload_len h) then False
      else \<not> control_fragmented (opcode h) (fin h))"

definition finish_parse ::
  "byte list \<Rightarrow> size_t \<Rightarrow> size_t \<Rightarrow> ws_frame_header \<Rightarrow> (int \<times> ws_frame_header) option" where
  "finish_parse buf len hdr out =
     (if \<not> header_well_formed out then Some (WS_ERR_PROTOCOL, out)
      else parse_mask buf len hdr out)"

definition ws_parse_header ::
  "byte list \<Rightarrow> size_t \<Rightarrow> ws_frame_header \<Rightarrow> (int \<times> ws_frame_header) option" where
  "ws_parse_header buf len out =
     (if len < 2 then Some (WS_ERR_NEED_MORE, out)
      else do {
        (rc, plen, hdr) \<leftarrow> decode_len buf len;
        if rc \<noteq> 0 then Some (rc, out)
        else do {
          out' \<leftarrow> fill_fields buf plen out;
          finish_parse buf len hdr out'
        }
      })"

section \<open>Building\<close>

definition write_be :: "byte list \<Rightarrow> nat \<Rightarrow> uint64 \<Rightarrow> size_t \<Rightarrow> byte list option" where
  "write_be buf off v n =
     for_loop 0 n (\<lambda>i t. store t (off + (n - 1 - i)) (ucast (drop_bit (8 * i) v))) buf"

definition hdr_len :: "uint64 \<Rightarrow> size_t" where
  "hdr_len plen = (if plen < 126 then 2 else if plen \<le> 0xFFFF then 4 else 10)"

definition len_field :: "uint64 \<Rightarrow> size_t \<Rightarrow> byte" where
  "len_field plen hdr = (if hdr = 2 then ucast plen else if hdr = 4 then 126 else 127)"

definition set_high_bit :: "byte \<Rightarrow> bool \<Rightarrow> byte" where
  "set_high_bit b flag = (if flag then b OR 0x80 else b)"

definition build_len :: "ws_frame_header \<Rightarrow> byte list \<Rightarrow> size_t \<Rightarrow> byte list option" where
  "build_len h buf hdr = do {
     buf1 \<leftarrow> store buf 1 (len_field (payload_len h) hdr);
     b1 \<leftarrow> load buf1 1;
     buf2 \<leftarrow> store buf1 1 (set_high_bit b1 (masked h));
     if hdr > 2 then write_be buf2 2 (payload_len h) (hdr - 2) else Some buf2
   }"

definition build_byte0 :: "ws_frame_header \<Rightarrow> byte" where
  "build_byte0 h = set_high_bit (ucast (opcode h) AND 0x0F) (fin h)"

definition build_mask :: "ws_frame_header \<Rightarrow> byte list \<Rightarrow> size_t \<Rightarrow> byte list option" where
  "build_mask h buf hdr = (if masked h then ws_memcpy buf hdr (mask_key h) 0 4 else Some buf)"

definition total_len :: "size_t \<Rightarrow> bool \<Rightarrow> size_t" where
  "total_len hdr msk = (if msk then hdr + 4 else hdr)"

definition ws_build_header ::
  "ws_frame_header \<Rightarrow> byte list \<Rightarrow> size_t \<Rightarrow> (int \<times> byte list) option" where
  "ws_build_header h buf cap = (
     let hdr = hdr_len (payload_len h);
         need = total_len hdr (masked h)
     in if cap < need then Some (WS_ERR_TOO_SMALL, buf)
        else do {
          buf0 \<leftarrow> store buf 0 (build_byte0 h);
          buf1 \<leftarrow> build_len h buf0 hdr;
          buf2 \<leftarrow> build_mask h buf1 hdr;
          Some (int need, buf2)
        })"

section \<open>The wire format\<close>

text \<open>The wire format of RFC 6455 section 5.2, stated on numbers: the flag and opcode byte, the
  mask flag and 7-bit length, the extended length in its shortest form, the key.\<close>

definition len7 :: "uint64 \<Rightarrow> nat" where
  "len7 v = (if unat v < 126 then unat v else if unat v < 2 ^ 16 then 126 else 127)"

definition len_ext :: "uint64 \<Rightarrow> nat" where
  "len_ext v = (if unat v < 126 then 0 else if unat v < 2 ^ 16 then 2 else 8)"

definition encode_header :: "ws_frame_header \<Rightarrow> byte list" where
  "encode_header h =
     [word_of_nat (unat (opcode h) + (if fin h then 128 else 0)),
      word_of_nat (len7 (payload_len h) + (if masked h then 128 else 0))]
     @ be_bytes (len_ext (payload_len h)) (payload_len h)
     @ (if masked h then mask_key h else [])"

definition wf_header :: "ws_frame_header \<Rightarrow> bool" where
  "wf_header h \<longleftrightarrow> unat (opcode h) < 16 \<and> rsv h = 0 \<and> unat (payload_len h) < 2 ^ 63 \<and>
     length (mask_key h) = 4 \<and> (masked h \<or> mask_key h = [0, 0, 0, 0]) \<and>
     (ws_classify_opcode (ucast (opcode h)) = WS_CLASS_CONTROL \<longrightarrow>
        unat (payload_len h) \<le> 125 \<and> fin h)"

section \<open>Big-endian numbers\<close>

lemma read_be_eq [mem_simps]:
  assumes "n \<le> length buf"
  shows "read_be buf n = Some (be_val (take n buf))"
  unfolding read_be_def
proof (rule for_loop_fun [where g = "\<lambda>j. be_val (take j buf)"])
  fix j assume "j < n"
  then show "do { b \<leftarrow> load buf j; Some (push_bit 8 (be_val (take j buf)) OR ucast b) } =
      Some (be_val (take (Suc j) buf))"
    using assms by (simp add: take_Suc_conv_app_nth be_val_snoc)
qed (simp_all add: be_val_def)

lemma write_be_eq [mem_simps]:
  assumes "off + n \<le> length buf"
  shows "write_be buf off v n = Some (patch buf off (be_bytes n v))"
proof -
  let ?g = "\<lambda>j. patch buf (off + (n - j)) (drop (n - j) (be_bytes n v))"
  have "write_be buf off v n = Some (?g n)"
    unfolding write_be_def
  proof (rule for_loop_fun [where g = ?g])
    fix j assume j: "j < n"
    have "(?g j)[off + (n - 1 - j) := ucast (drop_bit (8 * j) v)] = ?g (Suc j)"
      using assms j
      by (intro nth_equalityI) (auto simp: nth_patch nth_list_update be_bytes_def)
    then show "store (?g j) (off + (n - 1 - j)) (ucast (drop_bit (8 * j) v)) = Some (?g (Suc j))"
      using assms j by simp
  qed simp_all
  then show ?thesis by simp
qed

section \<open>The builder writes the wire format\<close>

lemma hdr_len_eq: "hdr_len v = 2 + len_ext v"
  by (auto simp: hdr_len_def len_ext_def word_less_nat_alt word_le_nat_alt)

lemma len7_less: "len7 v < 128"
  by (simp add: len7_def)

lemma unat_set_high_bit: "unat b < 128 \<Longrightarrow> unat (set_high_bit b f) = unat b + (if f then 128 else 0)"
  by (simp add: set_high_bit_def unat_byte_or_80)

lemma set_high_bit_eq:
  "unat b < 128 \<Longrightarrow> set_high_bit b f = word_of_nat (unat b + (if f then 128 else 0))"
  by (subst byte_eq_of_nat) (simp_all add: unat_set_high_bit)

lemma build_byte0_eq:
  assumes "unat (opcode h) < 16"
  shows "build_byte0 h = word_of_nat (unat (opcode h) + (if fin h then 128 else 0))"
proof -
  have "unat (ucast (opcode h) AND 0x0F :: byte) = unat (opcode h)"
    using assms by (simp add: unat_byte_and_0F unsigned_ucast_eq take_bit_nat_eq_self)
  then show ?thesis using assms by (simp add: build_byte0_def set_high_bit_eq)
qed

lemma unat_len_field: "unat (len_field v (hdr_len v)) = len7 v"
  by (auto simp: len_field_def hdr_len_eq len_ext_def len7_def unsigned_ucast_eq take_bit_nat_eq_self)

lemma len_byte_eq:
  "set_high_bit (len_field v (hdr_len v)) f = word_of_nat (len7 v + (if f then 128 else 0))"
  by (simp add: set_high_bit_eq unat_len_field len7_less)

lemma length_encode_header:
  "length (mask_key h) = 4 \<Longrightarrow> length (encode_header h) = total_len (hdr_len (payload_len h)) (masked h)"
  by (simp add: encode_header_def total_len_def hdr_len_eq)

lemma length_encode_le: "length (mask_key h) = 4 \<Longrightarrow> length (encode_header h) \<le> 14"
  by (simp add: length_encode_header total_len_def hdr_len_def)

lemma list_eq_patch0: "length xs \<le> length buf \<Longrightarrow> patch buf 0 xs = xs @ drop (length xs) buf"
  by (simp add: patch_def)

lemma build_len_eq:
  assumes "2 + len_ext (payload_len h) \<le> length buf"
  shows "build_len h (buf[0 := x]) (hdr_len (payload_len h)) =
    Some (patch buf 0 ([x, set_high_bit (len_field (payload_len h) (hdr_len (payload_len h))) (masked h)]
      @ be_bytes (len_ext (payload_len h)) (payload_len h)))"
proof -
  let ?v = "payload_len h"
  define y where "y = set_high_bit (len_field ?v (hdr_len ?v)) (masked h)"
  have two: "buf[0 := x, 1 := y] = patch buf 0 [x, y]"
    using assms by (cases buf; cases "tl buf") (auto simp: patch_def)
  have "build_len h (buf[0 := x]) (hdr_len ?v) =
      (if hdr_len ?v > 2 then write_be (patch buf 0 [x, y]) 2 ?v (hdr_len ?v - 2)
       else Some (patch buf 0 [x, y]))"
    using assms two by (simp add: build_len_def y_def)
  also have "\<dots> = Some (patch buf 0 ([x, y] @ be_bytes (len_ext ?v) ?v))"
    using assms by (auto simp: hdr_len_eq mem_simps) (simp_all add: patch_def be_bytes_def)
  finally show ?thesis by (simp add: y_def)
qed

lemma build_mask_eq:
  assumes "length pre = hdr" and "length (mask_key h) = 4"
    and "length (pre @ (if masked h then mask_key h else [])) \<le> length buf"
  shows "build_mask h (patch buf 0 pre) hdr =
    Some (patch buf 0 (pre @ (if masked h then mask_key h else [])))"
  using assms by (auto simp: build_mask_def mem_simps patch_def add.commute)

lemma ws_build_header_eq [mem_simps]:
  assumes op: "unat (opcode h) < 16" and key: "length (mask_key h) = 4"
    and cap: "length (encode_header h) \<le> cap" "cap \<le> length buf"
  shows "ws_build_header h buf cap =
    Some (int (length (encode_header h)), patch buf 0 (encode_header h))"
proof -
  let ?v = "payload_len h"
  let ?pre = "[build_byte0 h, set_high_bit (len_field ?v (hdr_len ?v)) (masked h)]
    @ be_bytes (len_ext ?v) ?v"
  have enc: "encode_header h = ?pre @ (if masked h then mask_key h else [])"
    by (simp only: encode_header_def build_byte0_eq [OF op] len_byte_eq append_assoc)
  have len: "length (encode_header h) \<le> length buf" using cap by simp
  then have "2 + len_ext ?v \<le> length buf" by (simp add: enc)
  then have bl: "build_len h (buf[0 := build_byte0 h]) (hdr_len ?v) = Some (patch buf 0 ?pre)"
    by (rule build_len_eq)
  have bm: "build_mask h (patch buf 0 ?pre) (hdr_len ?v) = Some (patch buf 0 (encode_header h))"
    unfolding enc by (rule build_mask_eq) (use key len enc in \<open>simp_all add: hdr_len_eq\<close>)
  have "0 < length buf" using len by (cases buf) (auto simp: enc)
  then have "ws_build_header h buf cap =
      Some (int (total_len (hdr_len ?v) (masked h)), patch buf 0 (encode_header h))"
    using cap key bl bm by (simp add: ws_build_header_def length_encode_header)
  then show ?thesis by (simp only: length_encode_header [OF key])
qed

lemma ws_build_header_small:
  "length (mask_key h) = 4 \<Longrightarrow> cap < length (encode_header h) \<Longrightarrow>
   ws_build_header h buf cap = Some (WS_ERR_TOO_SMALL, buf)"
  by (simp add: ws_build_header_def length_encode_header)

section \<open>The parser accepts exactly the encodings of well-formed headers\<close>

text \<open>The header the parser fills in, and the length value of the field, as functions of the
  bytes read.\<close>

definition parsed_ext :: "byte \<Rightarrow> nat" where
  "parsed_ext b1 = ext_bytes (b1 AND 0x7F)"

definition parsed_len :: "byte list \<Rightarrow> uint64" where
  "parsed_len buf = (if parsed_ext (buf ! 1) = 0 then ucast (buf ! 1 AND 0x7F)
     else be_val (take (parsed_ext (buf ! 1)) (drop 2 buf)))"

definition parsed_fields :: "byte list \<Rightarrow> ws_frame_header \<Rightarrow> ws_frame_header" where
  "parsed_fields buf out = out\<lparr>fin := 128 \<le> unat (buf ! 0),
     rsv := drop_bit 4 (buf ! 0) AND 0x07, opcode := ucast (buf ! 0 AND 0x0F),
     masked := 128 \<le> unat (buf ! 1), payload_len := parsed_len buf\<rparr>"

lemma ws_parse_header_cases:
  assumes "len \<le> length buf" and "length (mask_key out) = 4"
  shows "ws_parse_header buf len out =
    (let e = parsed_ext (buf ! 1); h = parsed_fields buf out in
     if len < 2 + e \<or> len < 2 then Some (WS_ERR_NEED_MORE, out)
     else if \<not> len_ok e (parsed_len buf) then Some (WS_ERR_PROTOCOL, out)
     else if \<not> header_well_formed h then Some (WS_ERR_PROTOCOL, h)
     else if \<not> masked h then Some (int (2 + e), h)
     else if len < 6 + e then Some (WS_ERR_NEED_MORE, h)
     else Some (int (6 + e), h\<lparr>mask_key := take 4 (drop (2 + e) buf)\<rparr>))"
proof (cases "len < 2")
  case True
  then show ?thesis by (simp add: ws_parse_header_def Let_def)
next
  case False
  then have b: "0 < length buf" "Suc 0 < length buf" "buf \<noteq> []" using assms by auto
  have rl: "raw_len buf (parsed_ext (buf ! 1)) = Some (parsed_len buf)"
    if "2 + parsed_ext (buf ! 1) \<le> len"
    using that assms b by (simp add: raw_len_def parsed_len_def mem_simps)
  have dl: "decode_len buf len =
      (if len < 2 + parsed_ext (buf ! 1) then Some (WS_ERR_NEED_MORE, 0, 2 + parsed_ext (buf ! 1))
       else if \<not> len_ok (parsed_ext (buf ! 1)) (parsed_len buf)
         then Some (WS_ERR_PROTOCOL, parsed_len buf, 2 + parsed_ext (buf ! 1))
       else Some (0, parsed_len buf, 2 + parsed_ext (buf ! 1)))"
    using b rl by (simp add: decode_len_def Let_def parsed_ext_def [symmetric] not_less)
  have ff: "fill_fields buf (parsed_len buf) out = Some (parsed_fields buf out)"
    using b by (simp add: fill_fields_def parsed_fields_def byte_high_bit)
  have pm: "parse_mask buf len (2 + parsed_ext (buf ! 1)) (parsed_fields buf out) =
     (let e = parsed_ext (buf ! 1); h = parsed_fields buf out in
     if \<not> masked h then Some (int (2 + e), h)
     else if len < 6 + e then Some (WS_ERR_NEED_MORE, h)
     else Some (int (6 + e), h\<lparr>mask_key := take 4 (drop (2 + e) buf)\<rparr>))"
    using assms by (auto simp: parse_mask_def parsed_fields_def Let_def mem_simps patch_def)
  show ?thesis
    using False dl ff pm
    by (simp add: ws_parse_header_def finish_parse_def Let_def status_defs)
qed

lemma len_ext_pos: "len_ext v \<noteq> 0 \<Longrightarrow> len7 v = (if len_ext v = 2 then 126 else 127)"
  by (simp add: len_ext_def len7_def split: if_splits)

lemma unat_parsed_opcode: "unat (ucast (b AND 0x0F) :: uint32) = unat (b :: byte) mod 16"
  by (simp add: unat_ucast_up byte_fields)

lemma unat_parsed_imm: "unat (ucast (b AND 0x7F) :: uint64) = unat (b :: byte) mod 128"
  by (simp add: unat_ucast_up byte_fields)

lemma parsed_ext_eq:
  "parsed_ext b = (if unat b mod 128 = 126 then 2 else if unat b mod 128 = 127 then 8 else 0)"
proof -
  have "b AND 0x7F = 126 \<longleftrightarrow> unat (b AND 0x7F) = 126" "b AND 0x7F = 127 \<longleftrightarrow> unat (b AND 0x7F) = 127"
    by (simp_all add: byte_eq_of_nat [symmetric])
  then show ?thesis by (simp add: parsed_ext_def ext_bytes_def byte_fields)
qed

lemma len_ok_cases:
  assumes "parsed_ext (buf ! 1) + 2 \<le> length buf" and "len_ok (parsed_ext (buf ! 1)) (parsed_len buf)"
  shows "len_ext (parsed_len buf) = parsed_ext (buf ! 1)"
    and "len7 (parsed_len buf) = unat (buf ! 1) mod 128"
    and "unat (parsed_len buf) < 2 ^ 63"
    and "be_bytes (parsed_ext (buf ! 1)) (parsed_len buf) = take (parsed_ext (buf ! 1)) (drop 2 buf)"
proof -
  let ?e = "parsed_ext (buf ! 1)" and ?v = "parsed_len buf" and ?m = "unat (buf ! 1) mod 128"
  have d63: "unat (drop_bit 63 ?v) = unat ?v div 2 ^ 63"
    by (simp add: drop_bit_eq_div unat_div)
  have bytes: "length (take ?e (drop 2 buf)) = ?e" using assms(1) by simp
  have v0: "unat ?v = ?m" if "?e = 0" using that by (simp add: parsed_len_def unat_parsed_imm)
  have v2: "?v = be_val (take ?e (drop 2 buf))" if "?e \<noteq> 0" using that by (simp add: parsed_len_def)
  have "?m < 126 \<or> ?m = 126 \<or> ?m = 127" by linarith
  then consider (imm) "?e = 0" "?m < 126" | (e2) "?e = 2" "?m = 126" | (e8) "?e = 8" "?m = 127"
    by (auto simp: parsed_ext_eq)
  then have "len_ext ?v = ?e \<and> len7 ?v = ?m \<and> unat ?v < 2 ^ 63 \<and> be_bytes ?e ?v = take ?e (drop 2 buf)"
  proof cases
    case imm
    then show ?thesis using v0 by (simp add: len_ext_def len7_def be_bytes_def)
  next
    case e2
    then have "unat ?v < 2 ^ 16" "126 \<le> unat ?v"
      using assms(2) v2 unat_be_val_less [of "take ?e (drop 2 buf)"] bytes
      by (simp_all add: len_ok_def word_le_nat_alt)
    then show ?thesis using e2 v2 bytes be_bytes_be_val [of "take ?e (drop 2 buf)"]
      by (simp add: len_ext_def len7_def)
  next
    case e8
    then have "drop_bit 63 ?v = 0" "0xFFFF < unat ?v"
      using assms(2) by (auto simp: len_ok_def len64_ok_def word_less_nat_alt split: if_splits)
    then have "unat ?v < 2 ^ 63" "0xFFFF < unat ?v" using d63 by (simp_all add: div_eq_0_iff)
    then show ?thesis using e8 v2 bytes be_bytes_be_val [of "take ?e (drop 2 buf)"]
      by (simp add: len_ext_def len7_def)
  qed
  then show "len_ext ?v = ?e" "len7 ?v = ?m" "unat ?v < 2 ^ 63" "be_bytes ?e ?v = take ?e (drop 2 buf)"
    by simp_all
qed

lemma take2:
  "2 \<le> length buf \<Longrightarrow> take (Suc (Suc n)) buf = buf ! 0 # buf ! Suc 0 # take n (drop 2 buf)"
  by (cases buf; cases "tl buf") auto

lemma byte0_split:
  fixes b :: byte
  assumes "drop_bit 4 b AND 0x07 = 0"
  shows "b = word_of_nat (unat b mod 16 + (if 128 \<le> unat b then 128 else 0))"
proof -
  have "unat b div 16 mod 8 = 0"
    using arg_cong [OF assms, of unat] by (simp add: byte_fields)
  then have "unat b = unat b mod 16 + (if 128 \<le> unat b then 128 else 0)"
    by (rule flag_opcode_split [OF unat_byte_less])
  then show ?thesis by (rule byte_of_natI)
qed

lemma byte1_split: "(b :: byte) = word_of_nat (unat b mod 128 + (if 128 \<le> unat b then 128 else 0))"
  by (rule byte_of_natI) (rule flag_length_split [OF unat_byte_less])

lemma encode_parsed:
  assumes "parsed_ext (buf ! 1) + 2 \<le> length buf"
    and "len_ok (parsed_ext (buf ! 1)) (parsed_len buf)" and "rsv (parsed_fields buf out) = 0"
  shows "encode_header ((parsed_fields buf out)\<lparr>mask_key := k\<rparr>) =
    take (2 + parsed_ext (buf ! 1)) buf @ (if masked (parsed_fields buf out) then k else [])"
proof -
  have "buf ! 0 = word_of_nat (unat (buf ! 0) mod 16 + (if 128 \<le> unat (buf ! 0) then 128 else 0))"
    by (rule byte0_split) (use assms(3) in \<open>simp add: parsed_fields_def\<close>)
  moreover note byte1_split [of "buf ! 1"] len_ok_cases [OF assms(1,2)]
  ultimately show ?thesis using assms(1)
    by (simp add: encode_header_def parsed_fields_def unat_parsed_opcode take2)
qed

lemma wf_parsed:
  assumes "parsed_ext (buf ! 1) + 2 \<le> length buf"
    and "len_ok (parsed_ext (buf ! 1)) (parsed_len buf)"
    and "header_well_formed (parsed_fields buf out)"
    and "length k = 4" and "masked (parsed_fields buf out) \<or> k = [0, 0, 0, 0]"
  shows "wf_header ((parsed_fields buf out)\<lparr>mask_key := k\<rparr>)"
  using assms(3-5) len_ok_cases(3) [OF assms(1,2)]
  by (auto simp: wf_header_def header_well_formed_def control_too_big_def control_fragmented_def
      unat_parsed_opcode word_less_nat_alt not_less parsed_fields_def split: if_splits)

lemma parse_sound:
  assumes "ws_parse_header buf len zero_header = Some (n, h)" and "0 < n" and "len \<le> length buf"
  shows "wf_header h \<and> n = int (length (encode_header h)) \<and> n \<le> int len \<and>
    take (nat n) buf = encode_header h"
proof -
  let ?e = "parsed_ext (buf ! 1)" and ?p = "parsed_fields buf zero_header"
  have z: "length (mask_key zero_header) = 4" "mask_key zero_header = [0, 0, 0, 0]"
    by (simp_all add: zero_header_def)
  note cs = assms(1) [unfolded ws_parse_header_cases [OF assms(3) z(1)] Let_def]
  from cs assms(2) have ok: "2 + ?e \<le> len" "len_ok ?e (parsed_len buf)" "header_well_formed ?p"
    by (auto simp: status_defs split: if_splits)
  then have e: "?e + 2 \<le> length buf" and r: "rsv ?p = 0"
    using assms(3) by (auto simp: header_well_formed_def split: if_splits)
  have key: "mask_key ?p = [0, 0, 0, 0]" by (simp add: parsed_fields_def z)
  show ?thesis
  proof (cases "masked ?p")
    case False
    with cs ok assms(2) have nh: "n = int (2 + ?e)" "h = ?p\<lparr>mask_key := [0, 0, 0, 0]\<rparr>"
      using key by (auto simp: status_defs split: if_splits)
    moreover from nh have "nat n = 2 + ?e" by (simp only: nat_int)
    ultimately show ?thesis
      using False wf_parsed [OF e ok(2,3)] encode_parsed [OF e ok(2) r] ok(1) e by simp
  next
    case True
    let ?k = "take 4 (drop (2 + ?e) buf)"
    from True cs ok assms(2) have nh: "n = int (6 + ?e)" "h = ?p\<lparr>mask_key := ?k\<rparr>" "6 + ?e \<le> len"
      by (auto simp: status_defs split: if_splits)
    have "take (6 + ?e) buf = take (2 + ?e) buf @ ?k"
      using take_add [of "2 + ?e" 4 buf] by (simp add: ac_simps)
    moreover from nh have "nat n = 6 + ?e" by (simp only: nat_int)
    ultimately show ?thesis
      using True nh wf_parsed [OF e ok(2,3), of ?k] encode_parsed [OF e ok(2) r, of ?k] assms(3) by simp
  qed
qed

lemma encode_bytes:
  assumes "unat (opcode h) < 16"
  shows "unat (encode_header h ! 0) = unat (opcode h) + (if fin h then 128 else 0)"
    and "unat (encode_header h ! 1) = len7 (payload_len h) + (if masked h then 128 else 0)"
    and "drop 2 (encode_header h) =
      be_bytes (len_ext (payload_len h)) (payload_len h) @ (if masked h then mask_key h else [])"
    and "2 \<le> length (encode_header h)"
proof -
  have "unat (opcode h) + (if fin h then 128 else 0) < 256"
    "len7 (payload_len h) + (if masked h then 128 else 0) < 256"
    using assms len7_less [of "payload_len h"] by auto
  note of_nat_byte = this [THEN unat_of_nat_byte]
  have "encode_header h ! 0 = word_of_nat (unat (opcode h) + (if fin h then 128 else 0))"
    "encode_header h ! 1 = word_of_nat (len7 (payload_len h) + (if masked h then 128 else 0))"
    by (simp_all add: encode_header_def)
  then show "unat (encode_header h ! 0) = unat (opcode h) + (if fin h then 128 else 0)"
    "unat (encode_header h ! 1) = len7 (payload_len h) + (if masked h then 128 else 0)"
    by (simp_all only: of_nat_byte)
qed (simp_all add: encode_header_def)

lemma parsed_ext_encode:
  "unat b = len7 v + (if m then 128 else 0) \<Longrightarrow> parsed_ext b = len_ext v"
  using len7_less [of v] by (auto simp: parsed_ext_eq len7_def len_ext_def split: if_splits)

lemma unat_len_ext_less: "unat (v :: uint64) < 2 ^ (8 * len_ext v) \<or> len_ext v = 0"
  using unsigned_less [of v, where ?'a = nat] by (auto simp: len_ext_def)

lemma len_ok_wf: "unat v < 2 ^ 63 \<Longrightarrow> len_ok (len_ext v) v"
proof -
  assume "unat v < 2 ^ 63"
  then have "unat (drop_bit 63 v) = 0" by (simp add: drop_bit_eq_div unat_div)
  then have "drop_bit 63 v = 0" by (simp only: unsigned_eq_0_iff)
  then show ?thesis
    by (auto simp: len_ok_def len64_ok_def len_ext_def word_le_nat_alt word_less_nat_alt)
qed

lemma parsed_fields_encode:
  assumes wf: "wf_header h"
  shows "parsed_ext ((encode_header h @ rest) ! 1) = len_ext (payload_len h)"
    and "parsed_len (encode_header h @ rest) = payload_len h"
    and "parsed_fields (encode_header h @ rest) out = h\<lparr>mask_key := mask_key out\<rparr>"
proof -
  let ?buf = "encode_header h @ rest" and ?v = "payload_len h"
  have op: "unat (opcode h) < 16" using wf by (simp add: wf_header_def)
  note eb = encode_bytes [OF op]
  have b: "?buf ! 0 = encode_header h ! 0" "?buf ! 1 = encode_header h ! 1"
    using eb(4) by (auto simp: nth_append)
  have b1: "unat (?buf ! 1) = len7 ?v + (if masked h then 128 else 0)" using eb(2) b by simp
  show e: "parsed_ext (?buf ! 1) = len_ext ?v" by (rule parsed_ext_encode [OF b1])
  have m: "unat (?buf ! 1) mod 128 = len7 ?v" "128 \<le> unat (?buf ! 1) \<longleftrightarrow> masked h"
    using b1 len7_less [of ?v] by auto
  show pl: "parsed_len ?buf = ?v"
  proof (cases "len_ext ?v = 0")
    case True
    have "unat (ucast (?buf ! 1 AND 0x7F) :: uint64) = unat ?v"
      using True m(1) by (simp only: unat_parsed_imm) (auto simp: len_ext_def len7_def split: if_splits)
    then have "ucast (?buf ! 1 AND 0x7F) = ?v" by (rule word_unat_eqI)
    then show ?thesis using True e by (simp add: parsed_len_def)
  next
    case False
    have "drop 2 ?buf = be_bytes (len_ext ?v) ?v @ (if masked h then mask_key h else []) @ rest"
      using eb(3,4) by simp
    then show ?thesis
      using False e unat_len_ext_less [of ?v] by (simp add: parsed_len_def be_val_be_bytes)
  qed
  have b0: "unat (?buf ! 0) = unat (opcode h) + (if fin h then 128 else 0)" using eb(1) b by simp
  have "ucast (?buf ! 0 AND 0x0F) = opcode h" "128 \<le> unat (?buf ! 0) \<longleftrightarrow> fin h"
    "drop_bit 4 (?buf ! 0) AND 0x07 = 0"
  proof -
    have "(unat (opcode h) + 8 * 16) mod 16 = unat (opcode h)"
      using op by (simp only: mod_mult_self1 mod_less)
    then have "unat (ucast (?buf ! 0 AND 0x0F) :: uint32) = unat (opcode h)"
      using op b0 by (simp only: unat_parsed_opcode) auto
    then show "ucast (?buf ! 0 AND 0x0F) = opcode h" by (rule word_unat_eqI)
    show "128 \<le> unat (?buf ! 0) \<longleftrightarrow> fin h" using op b0 by auto
    have "unat (drop_bit 4 (?buf ! 0) AND 0x07) = 0"
      using op b0 by (simp only: byte_fields) (auto simp: div_add1_eq)
    then show "drop_bit 4 (?buf ! 0) AND 0x07 = 0" by (simp only: unsigned_eq_0_iff)
  qed
  then show "parsed_fields ?buf out = h\<lparr>mask_key := mask_key out\<rparr>"
    using wf m(2) pl by (simp add: parsed_fields_def wf_header_def)
qed

lemma parse_complete:
  assumes wf: "wf_header h" and len: "len \<le> length (encode_header h @ rest)"
  shows "ws_parse_header (encode_header h @ rest) len zero_header =
    (if length (encode_header h) \<le> len then Some (int (length (encode_header h)), h)
     else Some (WS_ERR_NEED_MORE,
       if len < 2 + len_ext (payload_len h) then zero_header else h\<lparr>mask_key := [0, 0, 0, 0]\<rparr>))"
proof -
  let ?buf = "encode_header h @ rest" and ?e = "len_ext (payload_len h)"
  have z: "length (mask_key zero_header) = 4" by (simp add: zero_header_def)
  have w: "unat (payload_len h) < 2 ^ 63" "unat (opcode h) < 16" "length (mask_key h) = 4"
    "masked h \<or> mask_key h = [0, 0, 0, 0]"
    using wf by (simp_all add: wf_header_def)
  have hw: "header_well_formed (h\<lparr>mask_key := k\<rparr>)" for k
    using wf by (auto simp: wf_header_def header_well_formed_def control_too_big_def
        control_fragmented_def word_less_nat_alt)
  have enc: "length (encode_header h) = 2 + ?e + (if masked h then 4 else 0)"
    using w(3) by (simp add: encode_header_def)
  have key: "take 4 (drop (2 + ?e) ?buf) = mask_key h" if "masked h"
    using that w(3) by (simp add: encode_header_def)
  have zk: "mask_key zero_header = [0, 0, 0, 0]" by (simp add: zero_header_def)
  have hk: "h\<lparr>mask_key := [0, 0, 0, 0]\<rparr> = h" if "\<not> masked h" using that w(4) by simp
  show ?thesis
    unfolding ws_parse_header_cases [OF len z] Let_def parsed_fields_encode [OF wf] zk
    using enc key hk w(3) by (simp add: len_ok_wf [OF w(1)] hw)
qed

text \<open>A header that fails does so for good: more bytes never turn a protocol error into a frame,
  and a shorter prefix of an accepted header only ever asks for more bytes.\<close>

lemma parse_error_stable:
  assumes "ws_parse_header buf len zero_header = Some (WS_ERR_PROTOCOL, h)"
    and "len \<le> len'" and "len' \<le> length buf"
  shows "ws_parse_header buf len' zero_header = Some (WS_ERR_PROTOCOL, h)"
proof -
  have z: "length (mask_key zero_header) = 4" by (simp add: zero_header_def)
  show ?thesis
    using assms
    by (auto simp: ws_parse_header_cases [OF _ z] Let_def status_defs split: if_splits)
qed

lemma parse_total:
  assumes "len \<le> length buf" and "length (mask_key out) = 4"
  shows "\<exists>n h. ws_parse_header buf len out = Some (n, h) \<and>
    (n = WS_ERR_NEED_MORE \<or> n = WS_ERR_PROTOCOL \<or> 2 \<le> n \<and> n \<le> 14) \<and> length (mask_key h) = 4"
  using assms
  by (auto simp: ws_parse_header_cases Let_def status_defs parsed_fields_def parsed_ext_eq)

text \<open>The parser looks at nothing behind the bytes it is told of.\<close>

lemma parse_prefix_only:
  assumes "len \<le> length P"
  shows "ws_parse_header (P @ X) len zero_header = ws_parse_header P len zero_header"
proof (cases "len < 2")
  case True
  then show ?thesis by (simp add: ws_parse_header_def)
next
  case False
  have z: "length (mask_key zero_header) = 4" by (simp add: zero_header_def)
  have b: "(P @ X) ! 0 = P ! 0" "(P @ X) ! 1 = P ! 1" using False assms by (auto simp: nth_append)
  let ?e = "parsed_ext (P ! 1)"
  show ?thesis
  proof (cases "len < 2 + ?e")
    case True
    then show ?thesis
      using assms False b unfolding ws_parse_header_cases [OF assms z]
        ws_parse_header_cases [OF le_trans [OF assms, of "length (P @ X)"] z, simplified]
      by (simp add: Let_def)
  next
    case room: False
    then have l: "parsed_len (P @ X) = parsed_len P" using assms b by (simp add: parsed_len_def)
    then have f: "parsed_fields (P @ X) zero_header = parsed_fields P zero_header"
      using b by (simp add: parsed_fields_def)
    have k: "take 4 (drop (2 + ?e) (P @ X)) = take 4 (drop (2 + ?e) P)" if "\<not> len < 6 + ?e"
      using that assms by simp
    show ?thesis
      using assms b l f k unfolding ws_parse_header_cases [OF assms z]
        ws_parse_header_cases [OF le_trans [OF assms, of "length (P @ X)"] z, simplified]
      by (simp add: Let_def)
  qed
qed

section \<open>Headers as a prefix code\<close>

definition decode_header :: "byte list \<Rightarrow> (nat \<times> ws_frame_header) option" where
  "decode_header bs = (case ws_parse_header bs (length bs) zero_header of
     Some (n, h) \<Rightarrow> if 0 < n then Some (nat n, h) else None | None \<Rightarrow> None)"

interpretation header: prefix_codec encode_header decode_header wf_header
proof unfold_locales
  fix h and rest :: "byte list"
  assume wf: "wf_header h"
  have "encode_header h \<noteq> []" by (simp add: encode_header_def)
  then show "decode_header (encode_header h @ rest) = Some (length (encode_header h), h)"
    by (simp add: decode_header_def parse_complete [OF wf])
next
  fix bs n h
  assume "decode_header bs = Some (n, h)"
  then obtain m where m: "ws_parse_header bs (length bs) zero_header = Some (m, h)" "0 < m" "n = nat m"
    by (auto simp: decode_header_def split: option.splits if_splits)
  from parse_sound [OF m(1,2)] m(3) show "wf_header h \<and> n \<le> length bs \<and> take n bs = encode_header h"
    by auto
qed

section \<open>Tables\<close>

lemma classify_cases:
  "ws_classify_opcode b =
    (if unat b mod 16 \<le> 2 then WS_CLASS_DATA
     else if 8 \<le> unat b mod 16 \<and> unat b mod 16 \<le> 10 then WS_CLASS_CONTROL else WS_CLASS_RESERVED)"
proof -
  have "\<forall>n < 16. kOpClass ! n = (if n \<le> 2 then WS_CLASS_DATA
      else if 8 \<le> n \<and> n \<le> 10 then WS_CLASS_CONTROL else WS_CLASS_RESERVED)"
    by (simp add: kOpClass_def less_Suc_eq numeral_eq_Suc All_less_Suc)
  then show ?thesis
    by (simp add: ws_classify_opcode_def unat_byte_and_0F)
qed

lemma classify_in_table: "unat (b AND 0x0F :: byte) < length kOpClass"
  by (simp add: byte_fields kOpClass_def)

lemma close_sendable_iff:
  "ws_close_code_sendable c \<longleftrightarrow>
    unat c \<in> {1000..1011} - {1004, 1005, 1006} \<union> {3000..4999}"
proof -
  have "c = 1004 \<longleftrightarrow> unat c = 1004" "c = 1005 \<longleftrightarrow> unat c = 1005" "c = 1006 \<longleftrightarrow> unat c = 1006"
    by (auto simp: word_unat_eq_iff)
  then show ?thesis
    by (auto simp: ws_close_code_sendable_def close_protocol_ok_def in_range16_def close_reserved_def
        word_le_nat_alt)
qed

section \<open>Properties\<close>

text \<open>C18. A well-formed header is written into any buffer with room for it, and parsing what was
  written gives the header back together with the number of bytes written, whatever follows in
  the buffer.\<close>

theorem header_roundtrip:
  assumes "wf_header h" and "length (encode_header h) \<le> cap" and "cap \<le> length buf"
  shows "\<exists>n buf'. ws_build_header h buf cap = Some (int n, buf') \<and> n \<le> 14 \<and>
    ws_parse_header buf' (length buf') zero_header = Some (int n, h) \<and> drop n buf' = drop n buf"
proof -
  let ?E = "encode_header h"
  have k: "unat (opcode h) < 16" "length (mask_key h) = 4" using assms(1) by (simp_all add: wf_header_def)
  have p: "patch buf 0 ?E = ?E @ drop (length ?E) buf" using assms(2,3) by (simp add: patch_def)
  have "ws_parse_header (?E @ drop (length ?E) buf) (length (?E @ drop (length ?E) buf)) zero_header =
      Some (int (length ?E), h)"
    by (subst parse_complete [OF assms(1)]) simp_all
  then show ?thesis
    using ws_build_header_eq [OF k assms(2,3)] length_encode_le [OF k(2)] p by auto
qed

theorem header_roundtrip_witness:
  "\<exists>n buf'. ws_build_header \<lparr>opcode = 2, payload_len = 300, mask_key = [1, 2, 3, 4], fin = True,
      masked = True, rsv = 0\<rparr> (replicate 14 0) 14 = Some (int n, buf') \<and> n \<le> 14 \<and>
    ws_parse_header buf' (length buf') zero_header = Some (int n, \<lparr>opcode = 2, payload_len = 300,
      mask_key = [1, 2, 3, 4], fin = True, masked = True, rsv = 0\<rparr>) \<and>
    drop n buf' = drop n (replicate 14 0)"
  by (rule header_roundtrip)
    (simp_all add: wf_header_def encode_header_def len_ext_def classify_cases)

text \<open>C19. The parser accepts nothing but canonical headers: whatever it accepts is well formed
  (reserved bits clear, minimal length form, length below \<open>2^63\<close>, control frames final and at
  most 125 bytes) and the bytes consumed are exactly its encoding.\<close>

theorem parse_only_canonical:
  assumes "ws_parse_header buf len zero_header = Some (n, h)" and "0 < n" and "len \<le> length buf"
  shows "wf_header h \<and> n \<le> int len \<and> take (nat n) buf = encode_header h"
  using parse_sound [OF assms] by blast

theorem parse_only_canonical_witness:
  "wf_header \<lparr>opcode = 1, payload_len = 5, mask_key = [0, 0, 0, 0], fin = True, masked = False, rsv = 0\<rparr> \<and>
   (2 :: int) \<le> int 2 \<and> take (nat 2) [0x81, 0x05] =
     encode_header \<lparr>opcode = 1, payload_len = 5, mask_key = [0, 0, 0, 0], fin = True, masked = False, rsv = 0\<rparr>"
  by (rule parse_only_canonical) code_simp+

text \<open>C27. The answer of the parser on a stream settles as bytes arrive: it always answers, with
  a header size between 2 and 14 or with one of its two errors; a protocol error stays one
  however many bytes follow, and a proper prefix of a well-formed header asks for more bytes.\<close>

theorem parse_incremental:
  assumes "len \<le> len'" and "len' \<le> length buf"
  shows "\<exists>n h. ws_parse_header buf len zero_header = Some (n, h) \<and>
    (n = WS_ERR_NEED_MORE \<or>
     n = WS_ERR_PROTOCOL \<and> ws_parse_header buf len' zero_header = Some (WS_ERR_PROTOCOL, h) \<or>
     2 \<le> n \<and> n \<le> 14 \<and> ws_parse_header buf len' zero_header = Some (n, h) \<and>
       (\<forall>k < nat n. \<exists>h'. ws_parse_header buf k zero_header = Some (WS_ERR_NEED_MORE, h')))"
proof -
  have z: "length (mask_key zero_header) = 4" by (simp add: zero_header_def)
  obtain n h where p: "ws_parse_header buf len zero_header = Some (n, h)"
      "n = WS_ERR_NEED_MORE \<or> n = WS_ERR_PROTOCOL \<or> 2 \<le> n \<and> n \<le> 14"
    using parse_total [of len buf zero_header] assms z by auto
  have "ws_parse_header buf len' zero_header = Some (n, h) \<and>
      (\<forall>k < nat n. \<exists>h'. ws_parse_header buf k zero_header = Some (WS_ERR_NEED_MORE, h'))" if "2 \<le> n"
  proof -
    have s: "wf_header h" "n = int (length (encode_header h))" "take (nat n) buf = encode_header h"
        "n \<le> int len"
      using parse_sound [OF p(1)] that assms by auto
    have b: "buf = encode_header h @ drop (nat n) buf" using s(3) append_take_drop_id [of "nat n" buf] by simp
    have "ws_parse_header buf m zero_header =
        (if length (encode_header h) \<le> m then Some (int (length (encode_header h)), h)
         else Some (WS_ERR_NEED_MORE,
           if m < 2 + len_ext (payload_len h) then zero_header else h\<lparr>mask_key := [0, 0, 0, 0]\<rparr>))"
      if "m \<le> length buf" for m
      using parse_complete [OF s(1), of m "drop (nat n) buf"] that b by simp
    then show ?thesis using s assms by auto
  qed
  with p parse_error_stable [of buf len h len'] assms show ?thesis by auto
qed

theorem parse_incremental_witness:
  "\<exists>n h. ws_parse_header [0x81, 0x05, 0x68] 2 zero_header = Some (n, h) \<and>
    (n = WS_ERR_NEED_MORE \<or>
     n = WS_ERR_PROTOCOL \<and> ws_parse_header [0x81, 0x05, 0x68] 3 zero_header = Some (WS_ERR_PROTOCOL, h) \<or>
     2 \<le> n \<and> n \<le> 14 \<and> ws_parse_header [0x81, 0x05, 0x68] 3 zero_header = Some (n, h) \<and>
       (\<forall>k < nat n. \<exists>h'. ws_parse_header [0x81, 0x05, 0x68] k zero_header = Some (WS_ERR_NEED_MORE, h')))"
  by (rule parse_incremental) simp_all

text \<open>The close codes an endpoint may send are exactly those of RFC 6455 section 7.4: 1000 to
  1011 without 1004, 1005 and 1006, and the registered and private ranges 3000 to 4999.\<close>

lemma close_codes:
  "ws_close_code_sendable c \<longleftrightarrow>
    unat c \<in> {1000, 1001, 1002, 1003, 1007, 1008, 1009, 1010, 1011} \<union> {3000..4999}"
proof -
  have "{1000..1011 :: nat} - {1004, 1005, 1006} = {1000, 1001, 1002, 1003, 1007, 1008, 1009, 1010, 1011}"
    by (simp add: atLeastAtMost_upt insert_Diff_if)
  then show ?thesis by (simp only: close_sendable_iff)
qed

text \<open>The class table covers every opcode byte, whatever its high bits: 0 to 2 are data, 8 to 10
  control, all others reserved, and the lookup never leaves the table.\<close>

lemma opcode_classes:
  "unat (b AND 0x0F) < length kOpClass \<and>
   ws_classify_opcode b =
     (if unat b mod 16 \<in> {0, 1, 2} then WS_CLASS_DATA
      else if unat b mod 16 \<in> {8, 9, 10} then WS_CLASS_CONTROL else WS_CLASS_RESERVED)"
proof -
  have "m \<in> {0, 1, 2} \<longleftrightarrow> m \<le> 2" "m \<in> {8, 9, 10} \<longleftrightarrow> 8 \<le> m \<and> m \<le> 10" for m :: nat by auto
  then show ?thesis using classify_in_table [of b] by (simp only: classify_cases)
qed

end
