(* ===== verification/Utf8.thy ===== *)
theory Utf8
  imports Codec
begin

text \<open>
  UTF-8 validation, after \<^verbatim>\<open>src/framing/utf8.c\<close>. The validator is shown to accept exactly the
  byte sequences that are the UTF-8 encoding (RFC 3629) of a sequence of Unicode scalar values:
  overlong forms, surrogates and values above U+10FFFF are rejected, and nothing else is.
\<close>

section \<open>The validator (utf8.c)\<close>

definition in_range8 :: "byte \<Rightarrow> byte \<Rightarrow> byte \<Rightarrow> bool" where
  "in_range8 b lo hi \<longleftrightarrow> b \<ge> lo \<and> b \<le> hi"

text \<open>The rows of the table of 256 entries, run by run: eight rows of 0, four rows and two
  entries of 255, thirty of 1, sixteen of 2, five of 3, eleven of 255.\<close>

definition kContCount :: "byte list" where
  "kContCount = replicate 128 0 @ replicate 66 255 @ replicate 30 1 @ replicate 16 2
     @ replicate 5 3 @ replicate 11 255"

definition first_lo :: "byte \<Rightarrow> byte" where
  "first_lo b0 = (if b0 = 0xE0 then 0xA0 else if b0 = 0xF0 then 0x90 else 0x80)"

definition first_hi :: "byte \<Rightarrow> byte" where
  "first_hi b0 = (if b0 = 0xED then 0x9F else if b0 = 0xF4 then 0x8F else 0xBF)"

function conts_loop :: "byte list \<Rightarrow> nat \<Rightarrow> nat \<Rightarrow> bool option" where
  "conts_loop p i n =
     (if i < n then do {
        b \<leftarrow> load p i;
        if \<not> in_range8 b 0x80 0xBF then Some False else conts_loop p (Suc i) n
      } else Some True)"
  by pat_completeness auto
termination
  by (relation "measure (\<lambda>(p, i, n). n - i)") auto

declare conts_loop.simps [simp del]

definition conts_ok :: "byte list \<Rightarrow> byte \<Rightarrow> bool option" where
  "conts_ok p n = conts_loop p 0 (unat n)"

definition tail_ok :: "byte list \<Rightarrow> size_t \<Rightarrow> byte \<Rightarrow> byte \<Rightarrow> bool option" where
  "tail_ok data i b0 cont = do {
     b1 \<leftarrow> load data (i + 1);
     if \<not> in_range8 b1 (first_lo b0) (first_hi b0) then Some False
     else conts_ok (drop (i + 2) data) (cont - 1)
   }"

text \<open>\<open>i < len\<close> is the size of an object and \<open>cont \<le> 255\<close>, so the sum does not wrap.\<close>

definition seq_fits :: "size_t \<Rightarrow> size_t \<Rightarrow> byte \<Rightarrow> bool" where
  "seq_fits i len cont = (if cont = 255 then False else i + 1 + unat cont \<le> len)"

definition tail_guard_ok :: "byte list \<Rightarrow> size_t \<Rightarrow> byte \<Rightarrow> bool option" where
  "tail_guard_ok data i cont =
     (if cont = 0 then Some True else do { b0 \<leftarrow> load data i; tail_ok data i b0 cont })"

text \<open>The result is the verdict and the new value of \<open>*i\<close>.\<close>

definition decode_step :: "byte list \<Rightarrow> size_t \<Rightarrow> size_t \<Rightarrow> (bool \<times> size_t) option" where
  "decode_step data len i = do {
     b \<leftarrow> load data i;
     cont \<leftarrow> load kContCount (unat b);
     if \<not> seq_fits i len cont then Some (False, i)
     else do {
       ok \<leftarrow> tail_guard_ok data i cont;
       if \<not> ok then Some (False, i) else Some (True, i + (1 + unat cont))
     }
   }"

lemma decode_step_progress: "decode_step data len i = Some (True, j) \<Longrightarrow> i < j"
  by (auto simp: decode_step_def bind_eq_Some_conv split: if_splits)

function utf8_loop :: "byte list \<Rightarrow> size_t \<Rightarrow> size_t \<Rightarrow> bool option" where
  "utf8_loop data len i =
     (if i < len then
        (case decode_step data len i of
           None \<Rightarrow> None
         | Some (ok, j) \<Rightarrow> if \<not> ok then Some False else utf8_loop data len j)
      else Some True)"
  by pat_completeness auto
termination
  by (relation "measure (\<lambda>(data, len, i). len - i)") (auto dest: decode_step_progress)

declare utf8_loop.simps [simp del]

definition ws_utf8_valid :: "byte list \<Rightarrow> size_t \<Rightarrow> bool option" where
  "ws_utf8_valid data len = utf8_loop data len 0"

section \<open>UTF-8 (RFC 3629)\<close>

definition scalar_value :: "nat \<Rightarrow> bool" where
  "scalar_value cp \<longleftrightarrow> cp \<le> 0x10FFFF \<and> \<not> (0xD800 \<le> cp \<and> cp \<le> 0xDFFF)"

definition utf8_units :: "nat \<Rightarrow> nat list" where
  "utf8_units cp =
     (if cp < 0x80 then [cp]
      else if cp < 0x800 then [0xC0 + cp div 64, 0x80 + cp mod 64]
      else if cp < 0x10000 then [0xE0 + cp div 4096, 0x80 + cp div 64 mod 64, 0x80 + cp mod 64]
      else [0xF0 + cp div 262144, 0x80 + cp div 4096 mod 64, 0x80 + cp div 64 mod 64,
            0x80 + cp mod 64])"

definition utf8_encode :: "nat \<Rightarrow> byte list" where
  "utf8_encode cp = map word_of_nat (utf8_units cp)"

fun utf8_value :: "nat list \<Rightarrow> nat" where
  "utf8_value [a] = a"
| "utf8_value [a, b] = (a - 0xC0) * 64 + (b - 0x80)"
| "utf8_value [a, b, c] = (a - 0xE0) * 4096 + (b - 0x80) * 64 + (c - 0x80)"
| "utf8_value [a, b, c, d] =
     (a - 0xF0) * 262144 + (b - 0x80) * 4096 + (c - 0x80) * 64 + (d - 0x80)"
| "utf8_value _ = 0"

definition is_utf8 :: "byte list \<Rightarrow> bool" where
  "is_utf8 bs \<longleftrightarrow> (\<exists>cps. (\<forall>cp \<in> set cps. scalar_value cp) \<and> bs = concat (map utf8_encode cps))"

definition utf8_decode :: "byte list \<Rightarrow> (nat \<times> nat) option" where
  "utf8_decode bs = (if bs = [] then None else
     case decode_step bs (length bs) 0 of
       Some (True, n) \<Rightarrow> Some (n, utf8_value (map unat (take n bs)))
     | _ \<Rightarrow> None)"

section \<open>One step\<close>

lemma kContCount_nth:
  "n < 256 \<Longrightarrow> kContCount ! n =
    (if n < 0x80 then 0 else if n < 0xC2 then 255 else if n < 0xE0 then 1
     else if n < 0xF0 then 2 else if n < 0xF5 then 3 else 255)"
  by (auto simp: kContCount_def nth_append)

lemma load_kContCount:
  "load kContCount (unat (b :: byte)) = Some (if unat b < 0x80 then 0 else if unat b < 0xC2 then 255
     else if unat b < 0xE0 then 1 else if unat b < 0xF0 then 2 else if unat b < 0xF5 then 3 else 255)"
  using kContCount_nth [of "unat b"] by (simp add: load_def kContCount_def)

text \<open>The range of the first continuation byte, on numbers.\<close>

definition first_ok :: "nat \<Rightarrow> nat \<Rightarrow> bool" where
  "first_ok a b \<longleftrightarrow> (if a = 0xE0 then 0xA0 else if a = 0xF0 then 0x90 else 0x80) \<le> b \<and>
     b \<le> (if a = 0xED then 0x9F else if a = 0xF4 then 0x8F else 0xBF)"

lemma in_range8_first: "in_range8 b (first_lo a) (first_hi a) \<longleftrightarrow> first_ok (unat a) (unat b)"
proof -
  have "a = 0xE0 \<longleftrightarrow> unat a = 0xE0" "a = 0xF0 \<longleftrightarrow> unat a = 0xF0" "a = 0xED \<longleftrightarrow> unat a = 0xED"
    "a = 0xF4 \<longleftrightarrow> unat a = 0xF4" by (auto simp: word_unat_eq_iff)
  then show ?thesis
    by (simp add: in_range8_def first_lo_def first_hi_def first_ok_def word_le_nat_alt)
qed

lemma in_range8_cont: "in_range8 b 0x80 0xBF \<longleftrightarrow> 0x80 \<le> unat b \<and> unat b \<le> 0xBF"
  by (simp add: in_range8_def word_le_nat_alt)

lemma conts_loop_eq:
  "n \<le> length p \<Longrightarrow> conts_loop p i n = Some (\<forall>j. i \<le> j \<and> j < n \<longrightarrow> in_range8 (p ! j) 0x80 0xBF)"
proof (induction p i n rule: conts_loop.induct)
  case (1 p i n)
  show ?case
  proof (cases "i < n")
    case True
    then show ?thesis
      using "1.IH" "1.prems" by (simp add: conts_loop.simps [of p i n] all_from_step)
  qed (auto simp: conts_loop.simps [of p i n])
qed

lemma conts_ok_1: "1 \<le> length p \<Longrightarrow> conts_ok p 1 = Some (in_range8 (p ! 0) 0x80 0xBF)"
  by (simp add: conts_ok_def conts_loop_eq)

lemma conts_ok_2:
  "2 \<le> length p \<Longrightarrow> conts_ok p 2 = Some (in_range8 (p ! 0) 0x80 0xBF \<and> in_range8 (p ! 1) 0x80 0xBF)"
  by (auto simp: conts_ok_def conts_loop_eq less_2_cases_iff)

lemma conts_ok_0: "conts_ok p 0 = Some True"
  by (simp add: conts_ok_def conts_loop_eq)

text \<open>What one step accepts, by the lead byte.\<close>

definition step_spec :: "nat list \<Rightarrow> nat \<Rightarrow> nat option" where
  "step_spec d n = (
     if d ! 0 < 0x80 then Some 1
     else if 0xC2 \<le> d ! 0 \<and> d ! 0 < 0xE0 \<and> 2 \<le> n \<and> first_ok (d ! 0) (d ! 1) then Some 2
     else if 0xE0 \<le> d ! 0 \<and> d ! 0 < 0xF0 \<and> 3 \<le> n \<and> first_ok (d ! 0) (d ! 1) \<and>
       0x80 \<le> d ! 2 \<and> d ! 2 \<le> 0xBF then Some 3
     else if 0xF0 \<le> d ! 0 \<and> d ! 0 < 0xF5 \<and> 4 \<le> n \<and> first_ok (d ! 0) (d ! 1) \<and>
       0x80 \<le> d ! 2 \<and> d ! 2 \<le> 0xBF \<and> 0x80 \<le> d ! 3 \<and> d ! 3 \<le> 0xBF then Some 4
     else None)"

lemma decode_step_spec:
  assumes "i < len" and "len \<le> length data"
  shows "decode_step data len i =
    (case step_spec (map unat (drop i data)) (len - i) of
       Some k \<Rightarrow> Some (True, i + k) | None \<Rightarrow> Some (False, i))"
proof -
  let ?b = "data ! i" and ?d = "map unat (drop i data)"
  have b0: "?d ! 0 = unat ?b" using assms by simp
  have d: "?d ! j = unat (data ! (i + j))" if "j < len - i" for j using assms that by simp
  have ld: "load data i = Some ?b" using assms by simp
  have t: "tail_ok data i ?b c = do {
      b1 \<leftarrow> Some (data ! (i + 1));
      if \<not> first_ok (unat ?b) (unat b1) then Some False else conts_ok (drop (i + 2) data) (c - 1) }"
    if "i + 2 \<le> len" for c
    using that assms by (simp add: tail_ok_def in_range8_first)
  consider (ascii) "unat ?b < 0x80" | (bad) "0x80 \<le> unat ?b" "unat ?b < 0xC2"
    | (two) "0xC2 \<le> unat ?b" "unat ?b < 0xE0" | (three) "0xE0 \<le> unat ?b" "unat ?b < 0xF0"
    | (four) "0xF0 \<le> unat ?b" "unat ?b < 0xF5" | (high) "0xF5 \<le> unat ?b" by linarith
  then show ?thesis
  proof cases
    case ascii
    then show ?thesis using assms b0
      by (simp add: decode_step_def ld load_kContCount seq_fits_def tail_guard_ok_def step_spec_def)
  next
    case bad
    then show ?thesis using b0
      by (simp add: decode_step_def ld load_kContCount seq_fits_def step_spec_def)
  next
    case two
    show ?thesis
    proof (cases "i + 2 \<le> len")
      case True
      then have "?d ! 1 = unat (data ! (i + 1))" using d by simp
      then show ?thesis using two b0 t [OF True] True
        by (simp add: decode_step_def ld load_kContCount seq_fits_def tail_guard_ok_def step_spec_def
            conts_ok_0)
    qed (use two b0 in \<open>auto simp: decode_step_def ld load_kContCount seq_fits_def step_spec_def\<close>)
  next
    case three
    show ?thesis
    proof (cases "i + 3 \<le> len")
      case True
      then have "?d ! 1 = unat (data ! (i + 1))" "?d ! 2 = unat (data ! (i + 2))" using d by simp_all
      then show ?thesis using three b0 t True assms
        by (simp add: decode_step_def ld load_kContCount seq_fits_def tail_guard_ok_def step_spec_def
            conts_ok_1 in_range8_cont)
    qed (use three b0 in \<open>auto simp: decode_step_def ld load_kContCount seq_fits_def step_spec_def\<close>)
  next
    case four
    show ?thesis
    proof (cases "i + 4 \<le> len")
      case True
      then have "?d ! 1 = unat (data ! (i + 1))" "?d ! 2 = unat (data ! (i + 2))"
        "?d ! 3 = unat (data ! (Suc (Suc (Suc i))))"
        using d [of 1] d [of 2] d [of 3] by (simp_all add: numeral_3_eq_3)
      then show ?thesis using four b0 t True assms
        by (simp add: decode_step_def ld load_kContCount seq_fits_def tail_guard_ok_def step_spec_def
            conts_ok_2 in_range8_cont)
    qed (use four b0 in \<open>auto simp: decode_step_def ld load_kContCount seq_fits_def step_spec_def\<close>)
  next
    case high
    then show ?thesis using b0
      by (simp add: decode_step_def ld load_kContCount seq_fits_def step_spec_def)
  qed
qed

section \<open>The step decodes one character\<close>

text \<open>Base-64 digits.\<close>

lemma radix64_2:
  fixes x y :: nat
  assumes "y < 64"
  shows "(x * 64 + y) div 64 = x" "(x * 64 + y) mod 64 = y"
  using assms by simp_all

lemma radix64_3:
  fixes x y z :: nat
  assumes "y < 64" "z < 64"
  shows "(x * 4096 + y * 64 + z) div 4096 = x" "(x * 4096 + y * 64 + z) div 64 mod 64 = y"
    "(x * 4096 + y * 64 + z) mod 64 = z"
proof -
  have e: "x * 4096 + y * 64 + z = (x * 64 + y) * 64 + z" by simp
  have d: "(x * 4096 + y * 64 + z) div 64 = x * 64 + y" "(x * 4096 + y * 64 + z) mod 64 = z"
    unfolding e by (rule radix64_2 [OF assms(2)])+
  then show "(x * 4096 + y * 64 + z) div 64 mod 64 = y" "(x * 4096 + y * 64 + z) mod 64 = z"
    using radix64_2 [OF assms(1)] by simp_all
  have "(x * 4096 + y * 64 + z) div 4096 = (x * 4096 + y * 64 + z) div 64 div 64"
    by (simp add: div_mult2_eq [symmetric])
  then show "(x * 4096 + y * 64 + z) div 4096 = x" using d radix64_2 [OF assms(1)] by simp
qed

lemma radix64_4:
  fixes w x y z :: nat
  assumes "x < 64" "y < 64" "z < 64"
  defines "n \<equiv> w * 262144 + x * 4096 + y * 64 + z"
  shows "n div 262144 = w" "n div 4096 mod 64 = x" "n div 64 mod 64 = y" "n mod 64 = z"
proof -
  have e: "n = (w * 64 + x) * 4096 + y * 64 + z" by (simp add: n_def)
  then show "n div 64 mod 64 = y" "n mod 64 = z"
    using radix64_3 [OF assms(2,3), of "w * 64 + x"] by simp_all
  have d: "n div 4096 = w * 64 + x" using radix64_3 [OF assms(2,3), of "w * 64 + x"] e by simp
  then show "n div 4096 mod 64 = x" using radix64_2 [OF assms(1)] by simp
  have "n div 262144 = n div 4096 div 64" by (simp add: div_mult2_eq [symmetric])
  then show "n div 262144 = w" using d radix64_2 [OF assms(1)] by simp
qed

lemma radix64_cases:
  fixes n :: nat
  obtains w x y z where "n = w * 262144 + x * 4096 + y * 64 + z" "x < 64" "y < 64" "z < 64"
proof
  have "n = n div 64 * 64 + n mod 64" "n div 64 = n div 4096 * 64 + n div 64 mod 64"
    "n div 4096 = n div 262144 * 64 + n div 4096 mod 64"
    by (simp_all add: div_mult2_eq [of n 64 64, simplified] div_mult2_eq [of n 4096 64, simplified])
  then show "n = n div 262144 * 262144 + n div 4096 mod 64 * 4096 + n div 64 mod 64 * 64 + n mod 64"
    by linarith
qed simp_all

lemma utf8_units_value: "scalar_value cp \<Longrightarrow> utf8_value (utf8_units cp) = cp"
proof -
  assume "scalar_value cp"
  obtain w x y z where n: "cp = w * 262144 + x * 4096 + y * 64 + z" "x < 64" "y < 64" "z < 64"
    by (rule radix64_cases)
  note r = radix64_4 [OF n(2-4), of w, folded n(1)]
  have "cp div 64 = cp div 4096 * 64 + cp div 64 mod 64"
    by (simp add: div_mult2_eq [of cp 64 64, simplified])
  moreover have "cp div 4096 = cp div 262144 * 64 + cp div 4096 mod 64"
    by (simp add: div_mult2_eq [of cp 4096 64, simplified])
  ultimately show ?thesis using n(1) r by (simp add: utf8_units_def)
qed

lemma utf8_units_less: "scalar_value cp \<Longrightarrow> u \<in> set (utf8_units cp) \<Longrightarrow> u < 256"
proof -
  assume cp: "scalar_value cp" and u: "u \<in> set (utf8_units cp)"
  have "cp div 262144 \<le> 4" "cp < 0x800 \<Longrightarrow> cp div 64 < 32" "cp < 0x10000 \<Longrightarrow> cp div 4096 < 16"
    using cp by (auto simp: scalar_value_def)
  moreover have "cp mod 64 < 64" "cp div 64 mod 64 < 64" "cp div 4096 mod 64 < 64" by simp_all
  ultimately show "u < 256" using u by (auto simp: utf8_units_def split: if_splits)
qed

lemma map_unat_encode: "scalar_value cp \<Longrightarrow> map unat (utf8_encode cp) = utf8_units cp"
  using utf8_units_less [of cp] by (auto simp: utf8_encode_def unat_of_nat_byte intro!: map_idI)

lemma step_spec_units:
  assumes "scalar_value cp"
  shows "step_spec (utf8_units cp @ r) (length (utf8_units cp @ r)) = Some (length (utf8_units cp))"
proof -
  obtain w x y z where n: "cp = w * 262144 + x * 4096 + y * 64 + z" "x < 64" "y < 64" "z < 64"
    by (rule radix64_cases)
  note rdx = radix64_4 [OF n(2-4), of w, folded n(1)]
  have c64: "cp div 64 = cp div 4096 * 64 + y" and c4096: "cp div 4096 = w * 64 + x"
    using rdx div_mult2_eq [of cp 64 64] div_mult2_eq [of cp 4096 64] by auto
  consider (one) "cp < 0x80" | (two) "0x80 \<le> cp" "cp < 0x800" | (three) "0x800 \<le> cp" "cp < 0x10000"
    | (four) "0x10000 \<le> cp" by linarith
  then show ?thesis
  proof cases
    case one
    then show ?thesis by (simp add: utf8_units_def step_spec_def)
  next
    case two
    then have "w = 0" using n by linarith
    moreover from this have "x = 0" using n two by linarith
    moreover from calculation have "2 \<le> y" "y < 32" using n two by linarith+
    ultimately show ?thesis using two rdx c64 c4096 n(3,4)
      by (simp add: utf8_units_def step_spec_def first_ok_def)
  next
    case three
    then have w: "w = 0" using n by linarith
    then have x: "w = 0" "x < 16" using n three by linarith+
    have "x = 0 \<longrightarrow> 32 \<le> y" "x = 13 \<longrightarrow> y < 32"
      using three assms n x by (auto simp: scalar_value_def)
    then show ?thesis using three rdx c64 c4096 n(3,4) x
      by (auto simp: utf8_units_def step_spec_def first_ok_def)
  next
    case four
    then have "w \<le> 4" "w = 0 \<longrightarrow> 16 \<le> x" "w = 4 \<longrightarrow> x < 16"
      using assms n by (auto simp: scalar_value_def)
    then show ?thesis using four rdx c64 c4096 n(2-4)
      by (auto simp: utf8_units_def step_spec_def first_ok_def)
  qed
qed

lemma first_ok_range: "first_ok a b \<Longrightarrow> 0x80 \<le> b \<and> b \<le> 0xBF"
  by (auto simp: first_ok_def split: if_splits)

lemma step_spec_sound:
  assumes "step_spec d (length d) = Some k" and "d \<noteq> []"
  shows "k \<le> length d \<and> 0 < k \<and> scalar_value (utf8_value (take k d)) \<and>
    utf8_units (utf8_value (take k d)) = take k d"
proof -
  obtain a d1 where d: "d = a # d1" using assms(2) by (cases d) auto
  from assms(1) consider (one) "k = 1" "a < 0x80"
    | (two) b d2 where "k = 2" "d1 = b # d2" "0xC2 \<le> a" "a < 0xE0" "first_ok a b"
    | (three) b c d3 where "k = 3" "d1 = b # c # d3" "0xE0 \<le> a" "a < 0xF0" "first_ok a b"
        "0x80 \<le> c" "c \<le> 0xBF"
    | (four) b c e d4 where "k = 4" "d1 = b # c # e # d4" "0xF0 \<le> a" "a < 0xF5" "first_ok a b"
        "0x80 \<le> c" "c \<le> 0xBF" "0x80 \<le> e" "e \<le> 0xBF"
    unfolding d step_spec_def
    by (cases d1; cases "tl d1"; cases "tl (tl d1)") (auto split: if_splits)
  then show ?thesis
  proof cases
    case one
    then show ?thesis by (simp add: d scalar_value_def utf8_units_def)
  next
    case two
    define x y where "x = a - 0xC0" and "y = b - 0x80"
    then have xy: "a = 0xC0 + x" "b = 0x80 + y" "y < 64" "2 \<le> x" "x < 32"
      using two first_ok_range [OF two(5)] by auto
    then show ?thesis using two radix64_2 [of y x] by (simp add: d scalar_value_def utf8_units_def)
  next
    case three
    define x y z where "x = a - 0xE0" and "y = b - 0x80" and "z = c - 0x80"
    then have xyz: "a = 0xE0 + x" "b = 0x80 + y" "c = 0x80 + z" "y < 64" "z < 64" "x < 16"
      using three first_ok_range [OF three(5)] by auto
    then have g: "x = 0 \<Longrightarrow> 32 \<le> y" "x = 13 \<Longrightarrow> y < 32"
      using three(5) by (auto simp: first_ok_def)
    have "0x800 \<le> x * 4096 + y * 64 + z" "x * 4096 + y * 64 + z < 0x10000"
      using xyz(4-6) g by linarith+
    moreover have "\<not> (0xD800 \<le> x * 4096 + y * 64 + z \<and> x * 4096 + y * 64 + z \<le> 0xDFFF)"
      using xyz(4-6) g(2) by (cases "x \<le> 12"; cases "x = 13") auto
    ultimately show ?thesis using three xyz radix64_3 [of y z x]
      by (simp add: d scalar_value_def utf8_units_def)
  next
    case four
    define w x y z where "w = a - 0xF0" and "x = b - 0x80" and "y = c - 0x80" and "z = e - 0x80"
    then have wxyz: "a = 0xF0 + w" "b = 0x80 + x" "c = 0x80 + y" "e = 0x80 + z" "x < 64" "y < 64"
      "z < 64" "w < 5"
      using four first_ok_range [OF four(5)] by auto
    then have g: "w = 0 \<Longrightarrow> 16 \<le> x" "w = 4 \<Longrightarrow> x < 16"
      using four(5) by (auto simp: first_ok_def)
    have "0x10000 \<le> w * 262144 + x * 4096 + y * 64 + z"
      "w * 262144 + x * 4096 + y * 64 + z \<le> 0x10FFFF"
      using wxyz(5-8) g by linarith+
    then show ?thesis using four wxyz radix64_4 [of x y z w]
      by (simp add: d scalar_value_def utf8_units_def)
  qed
qed

lemma utf8_decode_eq:
  "utf8_decode bs = (if bs = [] then None else
     map_option (\<lambda>k. (k, utf8_value (map unat (take k bs)))) (step_spec (map unat bs) (length bs)))"
  by (auto simp: utf8_decode_def decode_step_spec split: option.splits)

lemma map_of_nat_unat: "map word_of_nat (map unat bs) = (bs :: byte list)"
  by (simp add: map_idI)

lemma utf8_units_nonempty: "utf8_units cp \<noteq> []"
  by (simp add: utf8_units_def)

interpretation utf8: stream_codec utf8_encode utf8_decode scalar_value
proof unfold_locales
  fix cp and rest :: "byte list"
  assume cp: "scalar_value cp"
  have "utf8_encode cp \<noteq> []" by (simp add: utf8_encode_def utf8_units_nonempty)
  then show "utf8_decode (utf8_encode cp @ rest) = Some (length (utf8_encode cp), cp)"
    using step_spec_units [OF cp, of "map unat rest"]
    by (simp add: utf8_decode_eq map_unat_encode [OF cp] utf8_units_value [OF cp])
      (simp add: utf8_encode_def)
next
  fix bs n cp
  assume "utf8_decode bs = Some (n, cp)"
  then have ne: "bs \<noteq> []" and st: "step_spec (map unat bs) (length (map unat bs)) = Some n"
    and cp: "cp = utf8_value (take n (map unat bs))"
    by (auto simp: utf8_decode_eq take_map split: if_splits)
  have "map unat bs \<noteq> []" using ne by simp
  note snd = step_spec_sound [OF st this, folded cp]
  have "utf8_encode cp = map word_of_nat (take n (map unat bs))" using snd by (simp add: utf8_encode_def)
  then have "utf8_encode cp = take n bs" by (simp only: take_map [symmetric] map_of_nat_unat)
  with snd show "scalar_value cp \<and> n \<le> length bs \<and> take n bs = utf8_encode cp" by simp
next
  fix cp
  show "utf8_encode cp \<noteq> []" by (simp add: utf8_encode_def utf8_units_nonempty)
qed

section \<open>The loop accepts exactly UTF-8\<close>

lemma is_utf8_step:
  "is_utf8 bs \<longleftrightarrow> bs = [] \<or> (\<exists>n a. utf8_decode bs = Some (n, a) \<and> is_utf8 (drop n bs))"
  unfolding is_utf8_def by (rule utf8.stream_step)

lemma step_spec_append:
  assumes "n \<le> length d" and "0 < n"
  shows "step_spec d n = step_spec (take n d) (length (take n d))"
  using assms by (simp add: step_spec_def min_absorb2 cong: conj_cong)

lemma decode_step_decode:
  assumes "i < len" and "len \<le> length data"
  shows "decode_step data len i =
    (case utf8_decode (take (len - i) (drop i data)) of
       Some (k, _) \<Rightarrow> Some (True, i + k) | None \<Rightarrow> Some (False, i))"
proof -
  have "step_spec (map unat (drop i data)) (len - i) =
      step_spec (map unat (take (len - i) (drop i data))) (length (take (len - i) (drop i data)))"
    using step_spec_append [of "len - i" "map unat (drop i data)"] assms by (simp add: take_map)
  then show ?thesis
    using assms by (auto simp: decode_step_spec utf8_decode_eq split: option.splits)
qed

lemma utf8_loop_eq:
  "len \<le> length data \<Longrightarrow> i \<le> len \<Longrightarrow>
   utf8_loop data len i = Some (is_utf8 (take (len - i) (drop i data)))"
proof (induction data len i rule: utf8_loop.induct)
  case (1 data len i)
  let ?bs = "take (len - i) (drop i data)"
  show ?case
  proof (cases "i < len")
    case False
    then show ?thesis using is_utf8_step [of ?bs] by (simp add: utf8_loop.simps [of data len i])
  next
    case True
    then have ne: "?bs \<noteq> []" using "1.prems" by simp
    show ?thesis
    proof (cases "utf8_decode ?bs")
      case None
      then have "decode_step data len i = Some (False, i)"
        using True "1.prems" by (simp add: decode_step_decode)
      then show ?thesis
        using True None ne is_utf8_step [of ?bs] by (simp add: utf8_loop.simps [of data len i])
    next
      case (Some ka)
      then obtain k a where ka: "utf8_decode ?bs = Some (k, a)" by (cases ka) auto
      then have ds: "decode_step data len i = Some (True, i + k)"
        using True "1.prems" by (simp add: decode_step_decode)
      have k: "k \<le> len - i" using utf8.dec_sound [OF ka] "1.prems" by simp
      have "utf8_loop data len (i + k) = Some (is_utf8 (take (len - (i + k)) (drop (i + k) data)))"
        by (rule "1.IH" [OF True ds refl]) (use "1.prems" k True in auto)
      moreover have "take (len - (i + k)) (drop (i + k) data) = drop k ?bs"
        by (simp add: drop_take add.commute)
      moreover have "is_utf8 ?bs \<longleftrightarrow> is_utf8 (drop k ?bs)"
        using is_utf8_step [of ?bs] ka ne by simp
      ultimately show ?thesis
        using True ds by (simp add: utf8_loop.simps [of data len i])
    qed
  qed
qed

lemma ws_utf8_valid_eq:
  "len \<le> length data \<Longrightarrow> ws_utf8_valid data len = Some (is_utf8 (take len data))"
  by (simp add: ws_utf8_valid_def utf8_loop_eq)

section \<open>Properties\<close>

text \<open>C17. The validator accepts a byte string exactly when it is the concatenation of the UTF-8
  encodings of Unicode scalar values (no overlong form, no surrogate, nothing above 10FFFF, no
  truncated sequence), it always returns, and it never reads past \<open>len\<close>.\<close>

theorem ws_utf8_valid_correct:
  assumes "len \<le> length data"
  shows "ws_utf8_valid data len =
    Some (\<exists>cps. (\<forall>cp \<in> set cps. scalar_value cp) \<and> take len data = concat (map utf8_encode cps))"
  using ws_utf8_valid_eq [OF assms] by (simp add: is_utf8_def)

theorem ws_utf8_valid_correct_witness:
  "ws_utf8_valid [0xE2, 0x82, 0xAC] 3 =
    Some (\<exists>cps. (\<forall>cp \<in> set cps. scalar_value cp) \<and> [0xE2, 0x82, 0xAC] = concat (map utf8_encode cps))"
  using ws_utf8_valid_correct [of 3 "[0xE2, 0x82, 0xAC]"] by simp

end
