(* ===== verification/Stream.thy ===== *)
theory Stream
  imports Lifecycle Frame Utf8
begin

text \<open>
  The sans-I/O driver, after \<^verbatim>\<open>src/session/stream.c\<close>. A connection owns one buffer:
  \<open>[0, msg_len)\<close> holds the message assembled so far and \<open>[msg_len, msg_len + rx_len)\<close> the bytes
  received and not yet parsed. Every function is written over that buffer in the option monad,
  \<open>None\<close> being an access outside it, and in the order of the source; functions that take
  \<^verbatim>\<open>ws_event *ev\<close> return the updated event. This is the release build, in which the trace macros
  are empty; \<open>Debug\<close> has the other one.
\<close>

section \<open>Set-up and reception\<close>

definition ws_conn_init :: "ws_role \<Rightarrow> byte list \<Rightarrow> size_t \<Rightarrow> ws_conn" where
  "ws_conn_init r buf cap =
     \<lparr>state = WS_CONNECTING, frag = WS_FRAG_NONE, role = r, sent_close = False, rcvd_close = False,
      msg_buf = buf, msg_cap = cap, msg_len = 0, rx_len = 0, close_code = 0, failed = False\<rparr>"

definition ws_conn_open :: "ws_conn \<Rightarrow> ws_conn" where
  "ws_conn_open c = snd (ws_lc_handshake c)"

definition ws_conn_recv :: "ws_conn \<Rightarrow> byte list \<Rightarrow> size_t \<Rightarrow> (int \<times> ws_conn) option" where
  "ws_conn_recv c bytes len =
     (if size_add (size_add (msg_len c) (rx_len c)) len > msg_cap c then Some (WS_ERR_TOO_SMALL, c)
      else do {
        buf \<leftarrow> ws_memcpy (msg_buf c) (msg_len c + rx_len c) bytes 0 len;
        Some (to_int len, c\<lparr>msg_buf := buf, rx_len := size_add (rx_len c) len\<rparr>)
      })"

section \<open>The raw region\<close>

definition fwd_copy :: "byte list \<Rightarrow> nat \<Rightarrow> nat \<Rightarrow> size_t \<Rightarrow> byte list option" where
  "fwd_copy buf dst src n =
     for_loop 0 n (\<lambda>i t. do { b \<leftarrow> load t (src + i); store t (dst + i) b }) buf"

text \<open>The pointer \<^verbatim>\<open>raw(c)\<close>, as an index into \<open>msg_buf\<close>.\<close>

definition raw :: "ws_conn \<Rightarrow> nat" where
  "raw c = msg_len c"

definition raw_consume :: "ws_conn \<Rightarrow> size_t \<Rightarrow> ws_conn option" where
  "raw_consume c n = do {
     buf \<leftarrow> fwd_copy (msg_buf c) (raw c) (raw c + n) (size_sub (rx_len c) n);
     Some (c\<lparr>msg_buf := buf, rx_len := size_sub (rx_len c) n\<rparr>)
   }"

definition fail :: "ws_conn \<Rightarrow> ws_event \<Rightarrow> ws_event_type \<times> ws_conn \<times> ws_event" where
  "fail c ev =
     (WS_EV_ERROR, c\<lparr>failed := True, frag := WS_FRAG_NONE, msg_len := 0\<rparr>, ev\<lparr>ev_type := WS_EV_ERROR\<rparr>)"

definition emit :: "ws_conn \<Rightarrow> ws_event \<Rightarrow> ws_event_type \<Rightarrow> ws_event_type \<times> ws_conn \<times> ws_event" where
  "emit c ev t = (t, c, ev\<lparr>ev_type := t\<rparr>)"

text \<open>Returns readiness, the header and \<open>*hdr\<close>, \<open>*total\<close> (not written, here 0, when not ready).\<close>

definition frame_ready ::
    "ws_conn \<Rightarrow> ws_frame_header \<Rightarrow> (bool \<times> ws_frame_header \<times> size_t \<times> size_t) option" where
  "frame_ready c h0 = do {
     (hn, h) \<leftarrow> ws_parse_header (drop (raw c) (msg_buf c)) (rx_len c) h0;
     if hn \<le> 0 then Some (False, h, 0, 0)
     else let hdr = nat hn; total = size_add (nat hn) (unat (payload_len h)) in
       Some (rx_len c \<ge> total, h, hdr, total)
   }"

definition unmask_payload :: "ws_conn \<Rightarrow> ws_frame_header \<Rightarrow> size_t \<Rightarrow> ws_conn option" where
  "unmask_payload c h hdr =
     (if masked h then do {
        buf \<leftarrow> ws_mask (msg_buf c) (raw c + hdr) (unat (payload_len h)) (mask_key h);
        Some (c\<lparr>msg_buf := buf\<rparr>)
      } else Some c)"

definition accumulate :: "ws_conn \<Rightarrow> ws_frame_header \<Rightarrow> size_t \<Rightarrow> ws_conn option" where
  "accumulate c h hdr = do {
     let plen = unat (payload_len h);
     b1 \<leftarrow> fwd_copy (msg_buf c) (raw c) (raw c + hdr) plen;
     b2 \<leftarrow> fwd_copy b1 (raw c + plen) (raw c + hdr + plen) (size_sub (size_sub (rx_len c) hdr) plen);
     let c1 = c\<lparr>msg_buf := b2, rx_len := size_sub (rx_len c) hdr\<rparr>;
     let c2 = c1\<lparr>msg_len := size_add (msg_len c1) plen\<rparr>;
     Some (c2\<lparr>rx_len := size_sub (rx_len c2) plen\<rparr>)
   }"

section \<open>Data frames\<close>

definition message_utf8_ok :: "ws_conn \<Rightarrow> bool option" where
  "message_utf8_ok c =
     (if frag c \<noteq> WS_FRAG_TEXT then Some True else ws_utf8_valid (msg_buf c) (msg_len c))"

definition finish_message :: "ws_conn \<Rightarrow> ws_event \<Rightarrow> (ws_event_type \<times> ws_conn \<times> ws_event) option" where
  "finish_message c ev = do {
     ok \<leftarrow> message_utf8_ok c;
     if \<not> ok then Some (fail c ev)
     else let
       ev1 = ev\<lparr>ev_op := if frag c = WS_FRAG_BIN then WS_OP_BIN else WS_OP_TEXT,
         ev_data := Some 0, ev_len := msg_len c\<rparr>;
       c1 = snd (ws_lc_finish_frag c);
       c2 = c1\<lparr>msg_len := 0\<rparr>
     in Some (emit c2 ev1 WS_EV_MESSAGE)
   }"

definition is_interleave :: "ws_conn \<Rightarrow> bool \<Rightarrow> bool" where
  "is_interleave c is_cont = (if is_cont then False else frag c \<noteq> WS_FRAG_NONE)"

definition is_stray_cont :: "ws_conn \<Rightarrow> bool \<Rightarrow> bool" where
  "is_stray_cont c is_cont = (if \<not> is_cont then False else frag c = WS_FRAG_NONE)"

definition data_illegal :: "ws_conn \<Rightarrow> ws_frame_header \<Rightarrow> bool \<Rightarrow> bool" where
  "data_illegal c h is_cont =
     (if is_stray_cont c is_cont then True
      else if is_interleave c is_cont then True
      else size_add (msg_len c) (unat (payload_len h)) > msg_cap c)"

definition begin_data :: "ws_conn \<Rightarrow> ws_frame_header \<Rightarrow> bool \<Rightarrow> ws_conn" where
  "begin_data c h is_cont =
     (if is_cont then c
      else snd (ws_lc_start_frag c (if opcode h = WS_OP_BIN then WS_FRAG_BIN else WS_FRAG_TEXT)))"

definition on_data ::
    "ws_conn \<Rightarrow> ws_frame_header \<Rightarrow> size_t \<Rightarrow> ws_event \<Rightarrow> (ws_event_type \<times> ws_conn \<times> ws_event) option" where
  "on_data c h hdr ev = (
     let is_cont = (opcode h = WS_OP_CONT) in
     if data_illegal c h is_cont then Some (fail c ev)
     else do {
       c2 \<leftarrow> accumulate (begin_data c h is_cont) h hdr;
       if \<not> fin h then Some (emit c2 ev WS_EV_NONE)
       else finish_message c2 ev
     })"

section \<open>Control frames\<close>

text \<open>The big-endian code \<^verbatim>\<open>(uint16_t)((raw(c)[hdr] << 8) | raw(c)[hdr + 1])\<close>, computed in
  \<^verbatim>\<open>int\<close>.\<close>

definition close_code_at :: "ws_conn \<Rightarrow> size_t \<Rightarrow> uint16 option" where
  "close_code_at c hdr = do {
     b0 \<leftarrow> load (msg_buf c) (raw c + hdr);
     b1 \<leftarrow> load (msg_buf c) (raw c + (hdr + 1));
     Some (ucast (push_bit 8 (ucast b0 :: uint32) OR ucast b1))
   }"

definition close_code_reason_ok :: "ws_conn \<Rightarrow> size_t \<Rightarrow> size_t \<Rightarrow> bool option" where
  "close_code_reason_ok c hdr plen = do {
     code \<leftarrow> close_code_at c hdr;
     if \<not> ws_close_code_sendable code then Some False
     else ws_utf8_valid (drop (raw c + hdr + 2) (msg_buf c)) (size_sub plen 2)
   }"

definition close_body_ok :: "ws_conn \<Rightarrow> ws_frame_header \<Rightarrow> size_t \<Rightarrow> bool option" where
  "close_body_ok c h hdr = (
     let plen = unat (payload_len h) in
     if plen = 0 then Some True
     else if plen = 1 then Some False
     else close_code_reason_ok c hdr plen)"

definition on_close ::
    "ws_conn \<Rightarrow> ws_frame_header \<Rightarrow> size_t \<Rightarrow> ws_event \<Rightarrow> (ws_event_type \<times> ws_conn \<times> ws_event) option" where
  "on_close c h hdr ev = do {
     ok \<leftarrow> close_body_ok c h hdr;
     if \<not> ok then Some (fail c ev)
     else do {
       let plen = unat (payload_len h);
       c1 \<leftarrow> (if plen \<ge> 2 then do { code \<leftarrow> close_code_at c hdr; Some (c\<lparr>close_code := code\<rparr>) }
              else Some c);
       let ev1 = ev\<lparr>ev_close_code := close_code c1\<rparr>;
       let c2 = snd (ws_lc_recv_close c1);
       c3 \<leftarrow> raw_consume c2 (size_add hdr plen);
       Some (emit c3 ev1 WS_EV_CLOSE)
     }
   }"

definition on_control ::
    "ws_conn \<Rightarrow> ws_frame_header \<Rightarrow> size_t \<Rightarrow> ws_event \<Rightarrow> (ws_event_type \<times> ws_conn \<times> ws_event) option" where
  "on_control c h hdr ev =
     (if opcode h = WS_OP_CLOSE then on_close c h hdr ev
      else do {
        let ev1 = ev\<lparr>ev_data := Some (raw c + hdr), ev_len := unat (payload_len h)\<rparr>;
        let t = (if opcode h = WS_OP_PING then WS_EV_PING else WS_EV_PONG);
        c1 \<leftarrow> raw_consume c (size_add hdr (unat (payload_len h)));
        Some (emit c1 ev1 t)
      })"

section \<open>Routing\<close>

definition route ::
    "ws_conn \<Rightarrow> ws_frame_header \<Rightarrow> size_t \<Rightarrow> ws_event \<Rightarrow> (ws_event_type \<times> ws_conn \<times> ws_event) option" where
  "route c h hdr ev = (
     let cls = ws_classify_opcode (ucast (opcode h)) in
     if cls = WS_CLASS_CONTROL then on_control c h hdr ev
     else if cls = WS_CLASS_DATA then on_data c h hdr ev
     else Some (fail c ev))"

definition mask_ok :: "ws_conn \<Rightarrow> ws_frame_header \<Rightarrow> bool" where
  "mask_ok c h = (if role c \<noteq> WS_ROLE_SERVER then True else masked h)"

text \<open>\<open>Inl\<close> is the early exit with the result in \<open>*out\<close>, \<open>Inr\<close> the connection to go on with.\<close>

definition admit ::
    "ws_conn \<Rightarrow> ws_frame_header \<Rightarrow> ws_event \<Rightarrow> (ws_event_type \<times> ws_conn \<times> ws_event) + unit" where
  "admit c h ev =
     (if \<not> ws_lc_active c then Inl (fail c ev)
      else if \<not> mask_ok c h then Inl (fail c ev)
      else Inr ())"

definition clear_event :: "ws_event \<Rightarrow> ws_event" where
  "clear_event ev = ev\<lparr>ev_type := WS_EV_NONE, ev_op := WS_OP_TEXT, ev_data := None, ev_len := 0,
     ev_close_code := 0\<rparr>"

definition dispatch ::
    "ws_conn \<Rightarrow> ws_frame_header \<Rightarrow> size_t \<Rightarrow> ws_event \<Rightarrow> (ws_event_type \<times> ws_conn \<times> ws_event) option" where
  "dispatch c h hdr ev =
     (case admit c h ev of
        Inl out \<Rightarrow> Some out
      | Inr _ \<Rightarrow> do { c1 \<leftarrow> unmask_payload c h hdr; route c1 h hdr ev })"

text \<open>The header variable of \<open>ws_conn_poll\<close> is not initialised by the source; the parser writes
  every field that is read afterwards (the key only of a masked frame), so it starts at
  \<open>zero_header\<close> here.\<close>

definition ws_conn_poll :: "ws_conn \<Rightarrow> ws_event \<Rightarrow> (ws_event_type \<times> ws_conn \<times> ws_event) option" where
  "ws_conn_poll c ev0 = (
     let ev = clear_event ev0 in
     if failed c then Some (emit c ev WS_EV_ERROR)
     else do {
       (ready, h, hdr, total) \<leftarrow> frame_ready c zero_header;
       if \<not> ready then Some (WS_EV_NONE, c, ev)
       else dispatch c h hdr ev
     })"

section \<open>Outbound frames\<close>

text \<open>\<open>key\<close> is the global \<^verbatim>\<open>ws_client_mask_key\<close>, which the caller fills.\<close>

definition out_header :: "byte list \<Rightarrow> ws_conn \<Rightarrow> ws_frame_header \<Rightarrow> ws_frame_header option" where
  "out_header key c h =
     (if role c = WS_ROLE_CLIENT then do {
        k \<leftarrow> ws_memcpy (mask_key h) 0 key 0 4;
        Some (h\<lparr>masked := True, mask_key := k\<rparr>)
      } else Some h)"

definition frame_fits :: "int \<Rightarrow> size_t \<Rightarrow> size_t \<Rightarrow> bool" where
  "frame_fits hn len cap = (if hn < 0 then False else size_sub cap (nat hn) \<ge> len)"

definition build_frame ::
    "byte list \<Rightarrow> ws_conn \<Rightarrow> ws_opcode \<Rightarrow> byte list \<Rightarrow> size_t \<Rightarrow> byte list \<Rightarrow> size_t \<Rightarrow>
     (size_t \<times> byte list) option" where
  "build_frame key c op payload len out cap = do {
     h \<leftarrow> out_header key c
       (zero_header\<lparr>opcode := op, payload_len := word_of_nat len, fin := True, masked := False\<rparr>);
     (hn, out1) \<leftarrow> ws_build_header h out cap;
     if \<not> frame_fits hn len cap then Some (0, out1)
     else do {
       out2 \<leftarrow> ws_memcpy out1 (nat hn) payload 0 len;
       out3 \<leftarrow> (if masked h then ws_mask out2 (nat hn) len (mask_key h) else Some out2);
       Some (size_add (nat hn) len, out3)
     }
   }"

definition ws_send_message ::
    "byte list \<Rightarrow> ws_conn \<Rightarrow> ws_opcode \<Rightarrow> byte list \<Rightarrow> size_t \<Rightarrow> byte list \<Rightarrow> size_t \<Rightarrow>
     (size_t \<times> byte list) option" where
  "ws_send_message key c op payload len out cap =
     (if \<not> ws_lc_active c then Some (0, out) else build_frame key c op payload len out cap)"

definition ws_send_pong ::
    "byte list \<Rightarrow> ws_conn \<Rightarrow> byte list \<Rightarrow> size_t \<Rightarrow> byte list \<Rightarrow> size_t \<Rightarrow>
     (size_t \<times> byte list) option" where
  "ws_send_pong key c payload len out cap =
     (if \<not> ws_lc_active c then Some (0, out) else build_frame key c WS_OP_PONG payload len out cap)"

definition ws_send_close ::
    "byte list \<Rightarrow> ws_conn \<Rightarrow> uint16 \<Rightarrow> byte list \<Rightarrow> size_t \<Rightarrow> (size_t \<times> ws_conn \<times> byte list) option" where
  "ws_send_close key c code out cap =
     (if state c \<noteq> WS_OPEN then Some (0, c, out)
      else do {
        (n, out1) \<leftarrow> build_frame key c WS_OP_CLOSE [ucast (drop_bit 8 code), ucast code] 2 out cap;
        Some (n, if n > 0 then snd (ws_lc_send_close c) else c, out1)
      })"

section \<open>The buffer as three lists\<close>

text \<open>\<open>layout c A P J\<close>: the assembled message, the pending bytes and the unused rest.\<close>

definition layout :: "ws_conn \<Rightarrow> byte list \<Rightarrow> byte list \<Rightarrow> byte list \<Rightarrow> bool" where
  "layout c A P J \<longleftrightarrow> msg_buf c = A @ P @ J \<and> msg_len c = length A \<and> rx_len c = length P"

definition asm :: "ws_conn \<Rightarrow> byte list" where
  "asm c = take (msg_len c) (msg_buf c)"

definition pending :: "ws_conn \<Rightarrow> byte list" where
  "pending c = take (rx_len c) (drop (msg_len c) (msg_buf c))"

definition conn_wf :: "ws_conn \<Rightarrow> bool" where
  "conn_wf c \<longleftrightarrow> length (msg_buf c) = msg_cap c \<and> msg_cap c < OBJ_MAX \<and>
     msg_len c + rx_len c \<le> msg_cap c \<and> lcInv (lc_abs c) \<and>
     (frag c = WS_FRAG_NONE \<longrightarrow> msg_len c = 0) \<and> (failed c \<longrightarrow> frag c = WS_FRAG_NONE)"

lemma layout_asm: "layout c A P J \<Longrightarrow> asm c = A" and layout_pending: "layout c A P J \<Longrightarrow> pending c = P"
  by (simp_all add: layout_def asm_def pending_def)

lemma conn_layout:
  assumes "conn_wf c"
  shows "layout c (asm c) (pending c) (drop (msg_len c + rx_len c) (msg_buf c))"
proof -
  have "msg_len c + rx_len c \<le> length (msg_buf c)" using assms by (simp add: conn_wf_def)
  moreover have "msg_buf c = take (msg_len c) (msg_buf c) @
      take (rx_len c) (drop (msg_len c) (msg_buf c)) @ drop (msg_len c + rx_len c) (msg_buf c)"
    by (rule take_take_drop [symmetric])
  ultimately show ?thesis by (simp add: layout_def asm_def pending_def)
qed

lemma fwd_copy_eq [mem_simps]:
  assumes "dst \<le> src" and "src + n \<le> length buf"
  shows "fwd_copy buf dst src n = Some (patch buf dst (take n (drop src buf)))"
  unfolding fwd_copy_def
  by (rule for_loop_patch) (use assms in \<open>auto simp: nth_patch\<close>)

lemma raw_consume_layout:
  assumes "layout c A (F @ R) J" and "length F = n" and "length (msg_buf c) \<le> OBJ_MAX"
  shows "raw_consume c n =
    Some (c\<lparr>msg_buf := A @ R @ drop (length R) (F @ R) @ J, rx_len := length R\<rparr>)"
proof -
  have b: "msg_buf c = A @ F @ R @ J" "msg_len c = length A" "rx_len c = length F + length R"
    using assms(1) by (simp_all add: layout_def)
  have r: "size_sub (rx_len c) n = length R" using b assms(2,3) by (simp add: size_sub_obj)
  show ?thesis
    unfolding raw_consume_def raw_def r b(2)
    using assms(2) by (subst fwd_copy_eq) (simp_all add: b patch_def)
qed

lemma unmask_layout:
  assumes "layout c A (E @ W @ R) J" and "length (mask_key h) = 4" and "length W = unat (payload_len h)"
  shows "unmask_payload c h (length E) =
    Some (c\<lparr>msg_buf := A @ E @ (if masked h then mask_bytes (mask_key h) W else W) @ R @ J\<rparr>)"
proof -
  have b: "msg_buf c = A @ E @ W @ R @ J" "msg_len c = length A" using assms(1) by (simp_all add: layout_def)
  show ?thesis
  proof (cases "masked h")
    case True
    with assms(2,3) show ?thesis
      unfolding unmask_payload_def raw_def b(2) by (simp add: ws_mask_eq b(1) patch_def)
  next
    case False
    then show ?thesis unfolding unmask_payload_def by (simp add: b(1) [symmetric])
  qed
qed

lemma accumulate_layout:
  assumes "layout c A (E @ D @ R) J" and "length D = unat (payload_len h)"
    and "length (msg_buf c) \<le> OBJ_MAX"
  shows "accumulate c h (length E) =
    Some (c\<lparr>msg_buf := A @ D @ R @ drop (length D + length R) (E @ D @ R) @ J,
      rx_len := length R, msg_len := length A + length D\<rparr>)"
proof -
  have b: "msg_buf c = A @ E @ D @ R @ J" "msg_len c = length A"
    "rx_len c = length E + length D + length R"
    using assms(1) by (simp_all add: layout_def)
  let ?p = "length D"
  have s: "size_sub (rx_len c) (length E) = ?p + length R"
    "size_sub (?p + length R) ?p = length R" "size_add (length A) ?p = length A + ?p"
    using b assms(3) by (simp_all add: size_sub_obj size_add_obj)
  define X where "X = drop ?p (E @ D) @ R @ J"
  have X': "X = drop ?p ((E @ D @ R) @ J)" by (simp add: X_def)
  have c1: "fwd_copy (msg_buf c) (length A) (length A + length E) ?p = Some (A @ D @ X)"
    by (subst fwd_copy_eq) (simp_all add: b patch_def X_def)
  have X: "drop (length E) X = R @ J" "length X = length E + length R + length J"
    by (simp_all add: X_def)
  have "drop (length R) X = drop (?p + length R) ((E @ D @ R) @ J)"
    unfolding X' drop_drop by (simp only: add.commute)
  also have "\<dots> = drop (?p + length R) (E @ D @ R) @ J" by (subst drop_append) simp
  finally have X2: "drop (length R) X = drop (?p + length R) (E @ D @ R) @ J" .
  have "take (length R) (drop (length A + length E + ?p) (A @ D @ X)) = R"
    using X(1) by simp
  moreover have "drop (length A + ?p + length R) (A @ D @ X) = drop (?p + length R) (E @ D @ R) @ J"
    unfolding X2 [symmetric] by simp
  ultimately have c2: "fwd_copy (A @ D @ X) (length A + ?p) (length A + length E + ?p) (length R) =
      Some (A @ D @ R @ drop (?p + length R) (E @ D @ R) @ J)"
    by (subst fwd_copy_eq) (simp_all add: patch_def X(2) del: drop_append)
  show ?thesis
    unfolding accumulate_def raw_def Let_def b(2) assms(2) [symmetric] c1 bind.bind_lunit s c2
    by (simp add: s b(2))
qed

end
