(* ===== verification/Driver.thy ===== *)
theory Driver
  imports Stream
begin

text \<open>
  What the driver of \<^verbatim>\<open>src/session/stream.c\<close> promises, frame by frame. \<open>deliver\<close> is the protocol
  as RFC 6455 and \<^verbatim>\<open>spec/STREAM_REQUIREMENTS.md\<close> (S4 to S14) state it, on frames instead of
  bytes in a shared buffer. The main lemma, \<open>poll_frame\<close>, shows that \<open>ws_conn_poll\<close> refines it,
  and says exactly which bytes are pending afterwards.
\<close>

section \<open>The protocol on frames\<close>

datatype devent = Nothing | Message ws_opcode "byte list" | Ping "byte list" | Pong "byte list"
  | Closed uint16 | Violation

record driver =
  d_state :: ws_state
  d_frag :: ws_frag
  d_role :: ws_role
  d_sent :: bool
  d_rcvd :: bool
  d_msg :: "byte list"
  d_code :: uint16
  d_failed :: bool

definition violation :: "driver \<Rightarrow> devent \<times> driver" where
  "violation d = (Violation, d\<lparr>d_failed := True, d_frag := WS_FRAG_NONE, d_msg := []\<rparr>)"

definition body_code :: "byte list \<Rightarrow> uint16" where
  "body_code D = word_of_nat (unat (D ! 0) * 256 + unat (D ! 1))"

definition close_body :: "byte list \<Rightarrow> bool" where
  "close_body D \<longleftrightarrow> D = [] \<or>
     2 \<le> length D \<and> ws_close_code_sendable (body_code D) \<and> is_utf8 (drop 2 D)"

definition deliver_close :: "driver \<Rightarrow> byte list \<Rightarrow> devent \<times> driver" where
  "deliver_close d D =
     (if \<not> close_body D then violation d
      else let code = (if D = [] then d_code d else body_code D) in
        (Closed code, d\<lparr>d_code := code, d_rcvd := True, d_sent := True, d_state := WS_CLOSED,
           d_frag := WS_FRAG_NONE, d_msg := []\<rparr>))"

definition deliver_data :: "driver \<Rightarrow> ws_opcode \<Rightarrow> bool \<Rightarrow> byte list \<Rightarrow> devent \<times> driver" where
  "deliver_data d op fn D =
     (if (op = WS_OP_CONT) = (d_frag d = WS_FRAG_NONE) then violation d
      else let
        t = (if op = WS_OP_CONT then d_frag d else if op = WS_OP_BIN then WS_FRAG_BIN else WS_FRAG_TEXT);
        m = d_msg d @ D
      in if \<not> fn then (Nothing, d\<lparr>d_frag := t, d_msg := m\<rparr>)
         else if t = WS_FRAG_TEXT \<and> \<not> is_utf8 m then violation d
         else (Message (if t = WS_FRAG_BIN then WS_OP_BIN else WS_OP_TEXT) m,
           d\<lparr>d_frag := WS_FRAG_NONE, d_msg := []\<rparr>))"

definition deliver :: "driver \<Rightarrow> ws_frame_header \<Rightarrow> byte list \<Rightarrow> devent \<times> driver" where
  "deliver d h D =
     (if d_failed d then (Violation, d)
      else if d_state d \<noteq> WS_OPEN \<and> d_state d \<noteq> WS_CLOSING then violation d
      else if d_role d = WS_ROLE_SERVER \<and> \<not> masked h then violation d
      else if opcode h = WS_OP_CLOSE then deliver_close d D
      else if opcode h = WS_OP_PING then (Ping D, d)
      else if opcode h = WS_OP_PONG then (Pong D, d)
      else if opcode h \<in> {WS_OP_CONT, WS_OP_TEXT, WS_OP_BIN} then deliver_data d (opcode h) (fin h) D
      else violation d)"

section \<open>Frames on the wire\<close>

definition wire_payload :: "ws_frame_header \<Rightarrow> byte list \<Rightarrow> byte list" where
  "wire_payload h D = (if masked h then mask_bytes (mask_key h) D else D)"

definition wire :: "ws_frame_header \<Rightarrow> byte list \<Rightarrow> byte list" where
  "wire h D = encode_header h @ wire_payload h D"

definition wf_frame :: "ws_frame_header \<Rightarrow> byte list \<Rightarrow> bool" where
  "wf_frame h D \<longleftrightarrow> wf_header h \<and> length D = unat (payload_len h)"

lemma length_wire_payload [simp]: "length (wire_payload h D) = length D"
  by (simp add: wire_payload_def)

lemma unwire [simp]: "wire_payload h (wire_payload h D) = D"
  by (simp add: wire_payload_def ws.mask_mask)

lemma length_wire: "length (wire h D) = length (encode_header h) + length D"
  by (simp add: wire_def)

lemma encode_header_min: "2 \<le> length (encode_header h)"
  and encode_header_nonempty [simp]: "encode_header h \<noteq> []"
  by (simp_all add: encode_header_def)

section \<open>What the caller observes\<close>

definition dabs :: "ws_conn \<Rightarrow> driver" where
  "dabs c = \<lparr>d_state = state c, d_frag = frag c, d_role = role c, d_sent = sent_close c,
     d_rcvd = rcvd_close c, d_msg = asm c, d_code = close_code c, d_failed = failed c\<rparr>"

lemma dabs_simps [simp]:
  "d_state (dabs c) = state c" "d_frag (dabs c) = frag c" "d_role (dabs c) = role c"
  "d_sent (dabs c) = sent_close c" "d_rcvd (dabs c) = rcvd_close c" "d_msg (dabs c) = asm c"
  "d_code (dabs c) = close_code c" "d_failed (dabs c) = failed c"
  by (simp_all add: dabs_def)

definition ev_bytes :: "ws_conn \<Rightarrow> ws_event \<Rightarrow> byte list" where
  "ev_bytes c ev = (case ev_data ev of None \<Rightarrow> [] | Some i \<Rightarrow> take (ev_len ev) (drop i (msg_buf c)))"

lemma ev_bytes_type [simp]: "ev_bytes c (ev\<lparr>ev_type := t\<rparr>) = ev_bytes c ev"
  by (cases "ev_data ev") (simp_all add: ev_bytes_def)

definition observe :: "ws_event_type \<times> ws_conn \<times> ws_event \<Rightarrow> devent" where
  "observe r = (case r of (t, c, ev) \<Rightarrow>
     (case t of WS_EV_NONE \<Rightarrow> Nothing
      | WS_EV_MESSAGE \<Rightarrow> Message (ev_op ev) (ev_bytes c ev)
      | WS_EV_PING \<Rightarrow> Ping (ev_bytes c ev)
      | WS_EV_PONG \<Rightarrow> Pong (ev_bytes c ev)
      | WS_EV_CLOSE \<Rightarrow> Closed (ev_close_code ev)
      | WS_EV_ERROR \<Rightarrow> Violation))"

text \<open>The event's pointer is null, with length 0, or the payload lies inside the buffer.\<close>

definition ev_in :: "ws_conn \<Rightarrow> ws_event \<Rightarrow> bool" where
  "ev_in c ev \<longleftrightarrow> (case ev_data ev of None \<Rightarrow> ev_len ev = 0 | Some a \<Rightarrow> a + ev_len ev \<le> length (msg_buf c))"

definition blank :: "ws_event \<Rightarrow> bool" where
  "blank ev \<longleftrightarrow> ev_data ev = None \<and> ev_len ev = 0"

lemma blank_clear [simp]: "blank (clear_event ev)"
  by (simp add: blank_def clear_event_def)

lemma ev_in_blank: "blank ev \<Longrightarrow> ev_in c (ev\<lparr>ev_type := t\<rparr>)"
  "blank ev \<Longrightarrow> ev_in c (ev\<lparr>ev_close_code := k, ev_type := t\<rparr>)" "blank ev \<Longrightarrow> ev_in c ev"
  by (simp_all add: blank_def ev_in_def)

fun ev_kind :: "devent \<Rightarrow> ws_event_type" where
  "ev_kind Nothing = WS_EV_NONE"
| "ev_kind (Message op m) = WS_EV_MESSAGE"
| "ev_kind (Ping D) = WS_EV_PING"
| "ev_kind (Pong D) = WS_EV_PONG"
| "ev_kind (Closed k) = WS_EV_CLOSE"
| "ev_kind Violation = WS_EV_ERROR"

section \<open>Finding the frame\<close>

lemma frame_ready_yes:
  assumes "layout c A (wire h D @ R) J" and "wf_frame h D" and "length (msg_buf c) \<le> OBJ_MAX"
  shows "frame_ready c zero_header =
    Some (True, h, length (encode_header h), length (encode_header h) + length D)"
proof -
  let ?n = "length (encode_header h)"
  have wf: "wf_header h" "length D = unat (payload_len h)" using assms(2) by (simp_all add: wf_frame_def)
  have b: "drop (raw c) (msg_buf c) = encode_header h @ wire_payload h D @ R @ J"
    "rx_len c = ?n + length D + length R" "?n + length D \<le> OBJ_MAX"
    using assms(1,3) by (auto simp: layout_def raw_def wire_def)
  have p: "ws_parse_header (encode_header h @ wire_payload h D @ R @ J) (rx_len c) zero_header =
      Some (int ?n, h)"
    using b(2) by (subst parse_complete [OF wf(1)]) simp_all
  show ?thesis
    unfolding frame_ready_def b(1) p bind.bind_lunit
    using b(2,3) wf(2) by (simp add: Let_def size_add_obj)
qed

lemma frame_ready_no:
  assumes "layout c A P J" and "length (msg_buf c) \<le> OBJ_MAX"
    and "\<not> (\<exists>h D R. wf_frame h D \<and> P = wire h D @ R)"
  shows "\<exists>h hdr total. frame_ready c zero_header = Some (False, h, hdr, total)"
proof -
  have b: "drop (raw c) (msg_buf c) = P @ J" "rx_len c = length P" "length P \<le> OBJ_MAX"
    using assms(1,2) by (auto simp: layout_def raw_def)
  obtain n h where p: "ws_parse_header (P @ J) (length P) zero_header = Some (n, h)"
    using parse_total [of "length P" "P @ J" zero_header] by (auto simp: zero_header_def)
  show ?thesis
  proof (cases "n \<le> 0")
    case True
    then show ?thesis by (simp add: frame_ready_def b p)
  next
    case False
    then have s: "wf_header h" "n = int (length (encode_header h))" "n \<le> int (length P)"
      "take (nat n) (P @ J) = encode_header h"
      using parse_sound [OF p] by auto
    have "\<not> nat n + unat (payload_len h) \<le> length P"
    proof
      assume l: "nat n + unat (payload_len h) \<le> length P"
      define W where "W = take (unat (payload_len h)) (drop (nat n) P)"
      have "P = encode_header h @ W @ drop (nat n + unat (payload_len h)) P"
      proof -
        have "P = take (nat n) P @ drop (nat n) P" by simp
        also have "drop (nat n) P = W @ drop (unat (payload_len h)) (drop (nat n) P)"
          by (simp only: W_def append_take_drop_id)
        finally show ?thesis using s(3,4) by (simp add: add.commute)
      qed
      moreover have "length W = unat (payload_len h)" using l by (simp add: W_def)
      ultimately have "wf_frame h (wire_payload h W)"
        "P = wire h (wire_payload h W) @ drop (nat n + unat (payload_len h)) P"
        using s(1) by (simp_all add: wf_frame_def wire_def)
      with assms(3) show False by blast
    qed
    moreover have "nat n + unat (payload_len h) < SIZE_MOD"
      using s b(3) OBJ_MAX_double by (auto simp: wf_header_def OBJ_MAX_def)
    ultimately show ?thesis using False by (simp add: frame_ready_def b p Let_def)
  qed
qed

section \<open>Dispatching the frame\<close>

text \<open>The state of the proof once the payload has been unmasked in place.\<close>

definition dispatched :: "ws_conn \<Rightarrow> ws_frame_header \<Rightarrow> byte list \<Rightarrow> byte list \<Rightarrow> byte list \<Rightarrow> bool" where
  "dispatched c h D R J \<longleftrightarrow> conn_wf c \<and> layout c (asm c) (encode_header h @ D @ R) J \<and>
     wf_frame h D \<and> \<not> failed c \<and> ws_lc_active c \<and> (role c = WS_ROLE_SERVER \<longrightarrow> masked h)"

text \<open>What one poll leaves behind. The bytes pending after a message are those of the message
  itself followed by the rest, cut to the length of the rest; likewise after a Close that
  interrupts a message. They are the rest exactly when nothing was assembled in front of it.\<close>

definition left_over :: "devent \<Rightarrow> byte list \<Rightarrow> byte list \<Rightarrow> byte list \<Rightarrow> byte list \<Rightarrow> bool" where
  "left_over e A F R P \<longleftrightarrow>
     (case e of Message op m \<Rightarrow> P = take (length R) (m @ R)
      | Closed k \<Rightarrow> P = take (length R) (drop (length F) (A @ F @ R))
      | Violation \<Rightarrow> True
      | _ \<Rightarrow> P = R)"

definition poll_ok ::
    "ws_conn \<Rightarrow> ws_frame_header \<Rightarrow> byte list \<Rightarrow> byte list \<Rightarrow> ws_event_type \<times> ws_conn \<times> ws_event \<Rightarrow> bool" where
  "poll_ok c h D R r \<longleftrightarrow> (case r of (t, c', ev') \<Rightarrow> case deliver (dabs c) h D of (e, d) \<Rightarrow>
     conn_wf c' \<and> ev_type ev' = t \<and> t = ev_kind e \<and> dabs c' = d \<and> msg_cap c' = msg_cap c \<and>
     msg_len c' + rx_len c' \<le> msg_len c + rx_len c \<and>
     ev_in c' ev' \<and> left_over e (asm c) (encode_header h @ D) R (pending c') \<and>
     (length R \<le> length (encode_header h) \<or> opcode h \<notin> {WS_OP_PING, WS_OP_PONG} \<longrightarrow> observe r = e))"

lemma poll_okD:
  assumes "poll_ok c h D R (t, c', ev')"
  shows "conn_wf c'" "ev_type ev' = t" "dabs c' = snd (deliver (dabs c) h D)" "msg_cap c' = msg_cap c"
    "msg_len c' + rx_len c' \<le> msg_len c + rx_len c"
    "left_over (fst (deliver (dabs c) h D)) (asm c) (encode_header h @ D) R (pending c')"
    "length R \<le> length (encode_header h) \<or> opcode h \<notin> {WS_OP_PING, WS_OP_PONG} \<Longrightarrow>
      observe (t, c', ev') = fst (deliver (dabs c) h D)"
    "t = ev_kind (fst (deliver (dabs c) h D))" "ev_in c' ev'"
  using assms unfolding poll_ok_def case_prod_unfold fst_conv snd_conv by blast+

lemma fail_ok:
  assumes "conn_wf c" and "deliver (dabs c0) h D = violation (dabs c0)"
    and "dabs c = (dabs c0)\<lparr>d_frag := f, d_msg := m\<rparr>" and "msg_cap c = msg_cap c0"
    and "rx_len c \<le> msg_len c0 + rx_len c0" and "blank ev"
  shows "poll_ok c0 h D R (fail c ev)"
proof -
  let ?c = "c\<lparr>failed := True, frag := WS_FRAG_NONE, msg_len := 0\<rparr>"
  have "conn_wf ?c"
    using assms(1) by (auto simp: conn_wf_def lcInv_iff split: ws_state.splits)
  moreover have "dabs ?c = snd (violation (dabs c0))"
    using assms(3) by (simp add: violation_def dabs_def asm_def)
  ultimately show ?thesis
    using assms(2,4,5) ev_in_blank(1) [OF assms(6)] by (simp add: poll_ok_def fail_def violation_def left_over_def observe_def)
qed

lemma fail_same:
  assumes "blank ev" and "conn_wf c" and "deliver (dabs c) h D = violation (dabs c)"
  shows "poll_ok c h D R (fail c ev)"
  by (rule fail_ok [where f = "frag c" and m = "asm c"]) (use assms in \<open>simp_all add: dabs_def\<close>)

lemma dispatched_facts:
  assumes "dispatched c h D R J"
  shows "msg_buf c = asm c @ encode_header h @ D @ R @ J" "msg_len c = length (asm c)"
    "rx_len c = length (encode_header h) + length D + length R" "unat (payload_len h) = length D"
    "length (msg_buf c) \<le> OBJ_MAX" "length (asm c) + rx_len c + length J = msg_cap c"
    "msg_cap c < OBJ_MAX" "size_add (length (encode_header h)) (length D) = length (encode_header h @ D)"
    "deliver (dabs c) h D =
      (if opcode h = WS_OP_CLOSE then deliver_close (dabs c) D
       else if opcode h = WS_OP_PING then (Ping D, dabs c)
       else if opcode h = WS_OP_PONG then (Pong D, dabs c)
       else if opcode h \<in> {WS_OP_CONT, WS_OP_TEXT, WS_OP_BIN}
         then deliver_data (dabs c) (opcode h) (fin h) D
       else violation (dabs c))"
proof -
  show "msg_buf c = asm c @ encode_header h @ D @ R @ J" "msg_len c = length (asm c)"
    "rx_len c = length (encode_header h) + length D + length R" "unat (payload_len h) = length D"
    and cap: "length (asm c) + rx_len c + length J = msg_cap c" "msg_cap c < OBJ_MAX"
    and "length (msg_buf c) \<le> OBJ_MAX"
    using assms by (auto simp: dispatched_def layout_def conn_wf_def wf_frame_def)
  show "size_add (length (encode_header h)) (length D) = length (encode_header h @ D)"
    using assms by (subst size_add_obj) (auto simp: dispatched_def layout_def conn_wf_def)
  show "deliver (dabs c) h D =
      (if opcode h = WS_OP_CLOSE then deliver_close (dabs c) D
       else if opcode h = WS_OP_PING then (Ping D, dabs c)
       else if opcode h = WS_OP_PONG then (Pong D, dabs c)
       else if opcode h \<in> {WS_OP_CONT, WS_OP_TEXT, WS_OP_BIN}
         then deliver_data (dabs c) (opcode h) (fin h) D
       else violation (dabs c))"
    using assms by (auto simp: deliver_def dispatched_def ws_lc_active_def)
qed

lemma consume_frame:
  assumes "dispatched c h D R J"
  shows "raw_consume c (length (encode_header h @ D)) =
    Some (c\<lparr>msg_buf := asm c @ R @ drop (length R) (encode_header h @ D @ R) @ J, rx_len := length R\<rparr>)"
  using raw_consume_layout [of c "asm c" "encode_header h @ D" R J] dispatched_facts [OF assms]
  by (simp add: layout_def)

lemma payload_after_consume:
  assumes "length R \<le> length E"
  shows "take (length D) (drop (length A + length E) (A @ R @ drop (length R) (E @ D @ R) @ J)) = D"
  using assms by simp

lemma on_ping_pong_ok:
  assumes ev: "blank ev" and d: "dispatched c h D R J" and op: "opcode h = WS_OP_PING \<or> opcode h = WS_OP_PONG"
  shows "\<exists>r. on_control c h (length (encode_header h)) ev = Some r \<and> poll_ok c h D R r"
proof -
  note f = dispatched_facts [OF d]
  let ?E = "encode_header h"
  let ?buf = "asm c @ R @ drop (length R) (?E @ D @ R) @ J"
  let ?c = "c\<lparr>msg_buf := ?buf, rx_len := length R\<rparr>"
  let ?t = "if opcode h = WS_OP_PING then WS_EV_PING else WS_EV_PONG"
  let ?ev = "ev\<lparr>ev_data := Some (length (asm c) + length ?E), ev_len := length D\<rparr>"
  have nc: "opcode h \<noteq> WS_OP_CLOSE" using op by (auto simp: op_defs)
  have run: "on_control c h (length ?E) ev = Some (emit ?c ?ev ?t)"
  proof -
    have "raw_consume c (size_add (length ?E) (unat (payload_len h))) = Some ?c"
      unfolding f(4) f(8) by (rule consume_frame [OF d])
    then show ?thesis
      unfolding on_control_def raw_def f(2) using nc f(4) by simp
  qed
  have "layout ?c (asm c) R (drop (length R) (?E @ D @ R) @ J)" using f(2) by (simp add: layout_def)
  then have a: "asm ?c = asm c" "pending ?c = R" by (rule layout_asm, rule layout_pending)
  have wf: "conn_wf ?c"
    using d f(2,3,6) unfolding dispatched_def conn_wf_def by auto
  have ab: "dabs ?c = dabs c" using a by (simp add: dabs_def)
  have pl: "ev_bytes ?c ?ev = D" if "length R \<le> length ?E"
    using payload_after_consume [OF that] by (simp add: ev_bytes_def)
  have dl: "deliver (dabs c) h D = (if opcode h = WS_OP_PING then Ping D else Pong D, dabs c)"
    using f(9) op by (auto simp: op_defs)
  have "ev_in ?c (?ev\<lparr>ev_type := ?t\<rparr>)" by (simp add: ev_in_def)
  then have "poll_ok c h D R (emit ?c ?ev ?t)"
    using op wf ab a(2) pl f(3)
    by (auto simp: poll_ok_def dl emit_def left_over_def observe_def ev_bytes_def)
  with run show ?thesis by blast
qed

lemma close_code_at_eq:
  assumes "dispatched c h D R J" and "2 \<le> length D"
  shows "close_code_at c (length (encode_header h)) = Some (body_code D)"
proof -
  note f = dispatched_facts [OF assms(1)]
  obtain x y D' where D: "D = x # y # D'" using assms(2) by (cases D; cases "tl D") auto
  have "unat (push_bit 8 (ucast x :: uint32) OR ucast y) = unat x * 256 + unat y"
    using unat_byte_less [of x] unat_byte_less [of y]
    by (subst unat_push_or; simp add: unat_ucast_up; linarith)
  then have "(ucast (push_bit 8 (ucast x :: uint32) OR ucast y) :: uint16) =
      word_of_nat (unat x * 256 + unat y)"
    by (intro word_unat_eqI) (simp only: unsigned_ucast_eq unsigned_of_nat of_nat_id)
  then show ?thesis by (simp add: close_code_at_def raw_def f(1,2) D body_code_def nth_append)
qed

lemma close_body_ok_eq:
  assumes "dispatched c h D R J"
  shows "close_body_ok c h (length (encode_header h)) = Some (close_body D)"
proof -
  note f = dispatched_facts [OF assms]
  show ?thesis
  proof (cases "2 \<le> length D")
    case True
    let ?n = "raw c + length (encode_header h) + 2"
    have s: "size_sub (length D) 2 = length D - 2" "drop ?n (msg_buf c) = drop 2 D @ R @ J"
      using True f(3,6,7) by (simp_all add: size_sub_obj raw_def f(1,2))
    have "ws_utf8_valid (drop ?n (msg_buf c)) (size_sub (length D) 2) = Some (is_utf8 (drop 2 D))"
      unfolding s using True by (subst ws_utf8_valid_eq) simp_all
    then show ?thesis
      using True close_code_at_eq [OF assms]
      by (auto simp: close_body_ok_def close_code_reason_ok_def f(4) Let_def close_body_def)
  next
    case False
    then have "length D = 0 \<or> length D = 1" by linarith
    then show ?thesis
      using False by (auto simp: close_body_ok_def f(4) Let_def close_body_def)
  qed
qed

text \<open>The buffer when a Close discards the message in front of it: \<open>msg_len\<close> is already 0, so the
  bytes slid down are counted from the start of the buffer.\<close>

lemma close_split:
  assumes d: "dispatched c h D R J"
  defines "F \<equiv> encode_header h @ D"
  shows "\<exists>front P J'. msg_buf c = front @ P @ J' \<and> length P = length R \<and> length front = length F \<and>
    P = take (length R) (drop (length F) (asm c @ F @ R))"
proof -
  define S where "S = asm c @ F @ R"
  have "msg_buf c = S @ J" using dispatched_facts(1) [OF d] by (simp add: S_def F_def)
  also have "S = take (length F) S @ take (length R) (drop (length F) S) @ drop (length F + length R) S"
    by (rule take_take_drop [symmetric])
  finally have "msg_buf c = take (length F) S @ take (length R) (drop (length F) S) @
      (drop (length F + length R) S @ J)" by (simp only: append_assoc)
  moreover have "length F + length R \<le> length S" by (simp add: S_def)
  ultimately show ?thesis unfolding S_def [symmetric]
    by (intro exI conjI) (assumption, auto)
qed

lemma on_close_ok:
  assumes ev: "blank ev" and d: "dispatched c h D R J" and op: "opcode h = WS_OP_CLOSE"
  shows "\<exists>r. on_control c h (length (encode_header h)) ev = Some r \<and> poll_ok c h D R r"
proof -
  note f = dispatched_facts [OF d]
  let ?E = "encode_header h"
  let ?F = "?E @ D"
  have dl: "deliver (dabs c) h D = deliver_close (dabs c) D" using f(9) op by simp
  show ?thesis
  proof (cases "close_body D")
    case False
    have "poll_ok c h D R (fail c ev)"
      by (rule fail_same [OF ev]) (use d False dl in \<open>auto simp: dispatched_def deliver_close_def\<close>)
    then show ?thesis
      using op False by (simp add: on_control_def on_close_def close_body_ok_eq [OF d])
  next
    case True
    let ?code = "if D = [] then close_code c else body_code D"
    let ?c1 = "c\<lparr>close_code := ?code\<rparr>"
    let ?c2 = "?c1\<lparr>rcvd_close := True, sent_close := True, state := WS_CLOSED,
      frag := WS_FRAG_NONE, msg_len := 0\<rparr>"
    obtain front P J' where buf: "msg_buf c = front @ P @ J'" and len: "length P = length R"
        "length front = length ?F" and P: "P = take (length R) (drop (length ?F) (asm c @ ?F @ R))"
      using close_split [OF d] by blast
    have lay: "layout ?c2 [] (front @ P) J'"
      unfolding layout_def using buf len f(3) by simp
    have c1: "(if 2 \<le> length D then do { k \<leftarrow> close_code_at c (length ?E); Some (c\<lparr>close_code := k\<rparr>) }
        else Some c) = Some ?c1"
      using True close_code_at_eq [OF d] by (auto simp: close_body_def)
    have c2: "snd (ws_lc_recv_close ?c1) = ?c2"
      using d by (simp add: ws_lc_recv_close_def dispatched_def ws_lc_active_def)
    let ?c3 = "?c2\<lparr>msg_buf := P @ drop (length P) (front @ P) @ J', rx_len := length P\<rparr>"
    have c3: "raw_consume ?c2 (length ?F) = Some ?c3"
      using raw_consume_layout [OF lay len(2)] f(5) by simp
    have run: "on_control c h (length ?E) ev = Some (emit ?c3 (ev\<lparr>ev_close_code := ?code\<rparr>) WS_EV_CLOSE)"
      unfolding on_control_def on_close_def close_body_ok_eq [OF d] bind.bind_lunit Let_def
        f(4) f(8) c1 c2 c3
      using op True by simp
    have "layout ?c3 [] P (drop (length P) (front @ P) @ J')" by (simp add: layout_def)
    then have a: "asm ?c3 = []" "pending ?c3 = P" by (rule layout_asm, rule layout_pending)
    have "length (msg_buf ?c3) = length (msg_buf c)" unfolding buf by (simp del: drop_append)
    moreover have "conn_wf c" using d by (simp add: dispatched_def)
    ultimately have wf: "conn_wf ?c3"
      unfolding conn_wf_def lcInv_iff using len f(3,6) by simp
    have ab: "dabs ?c3 = snd (deliver_close (dabs c) D)" "fst (deliver_close (dabs c) D) = Closed ?code"
      using a True by (simp_all add: dabs_def deliver_close_def Let_def)
    define c3' where "c3' = ?c3"
    have "deliver_close (dabs c) D = (Closed ?code, dabs c3')"
      using ab by (intro prod_eqI) (simp_all add: c3'_def)
    moreover have "conn_wf c3'" "pending c3' = P" "msg_cap c3' = msg_cap c"
      "msg_len c3' + rx_len c3' \<le> msg_len c + rx_len c"
      using wf a(2) len(1) f(3) by (simp_all add: c3'_def)
    ultimately have "poll_ok c h D R (emit c3' (ev\<lparr>ev_close_code := ?code\<rparr>) WS_EV_CLOSE)"
      unfolding poll_ok_def dl emit_def left_over_def observe_def
      using P ev_in_blank(2) [OF ev] by simp
    with run show ?thesis unfolding c3'_def by blast
  qed
qed

definition data_frag :: "ws_conn \<Rightarrow> ws_frame_header \<Rightarrow> ws_frag" where
  "data_frag c h = (if opcode h = WS_OP_CONT then frag c
     else if opcode h = WS_OP_BIN then WS_FRAG_BIN else WS_FRAG_TEXT)"

text \<open>The size check S9 of \<open>data_illegal\<close> never fires: a frame that is buffered whole fits.\<close>

lemma data_illegal_iff:
  assumes "dispatched c h D R J"
  shows "data_illegal c h (opcode h = WS_OP_CONT) \<longleftrightarrow> (opcode h = WS_OP_CONT) = (frag c = WS_FRAG_NONE)"
proof -
  note f = dispatched_facts [OF assms]
  have "size_add (msg_len c) (unat (payload_len h)) = length (asm c) + length D"
    unfolding f(4) f(2) using f(3,6,7) by (intro size_add_obj) linarith
  moreover have "length (asm c) + length D \<le> msg_cap c" using f(3,6) by linarith
  ultimately show ?thesis
    by (auto simp: data_illegal_def is_stray_cont_def is_interleave_def)
qed

lemma begin_data_eq:
  assumes "ws_lc_active c" and "(opcode h = WS_OP_CONT) \<noteq> (frag c = WS_FRAG_NONE)"
  shows "begin_data c h (opcode h = WS_OP_CONT) = c\<lparr>frag := data_frag c h\<rparr>"
    and "data_frag c h \<noteq> WS_FRAG_NONE"
  using assms by (auto simp: begin_data_def ws_lc_start_frag_def data_frag_def)

text \<open>The connection after a data frame has been appended to the message.\<close>

definition appended :: "ws_conn \<Rightarrow> ws_frame_header \<Rightarrow> byte list \<Rightarrow> byte list \<Rightarrow> byte list \<Rightarrow> ws_conn" where
  "appended c h D R J = c\<lparr>frag := data_frag c h,
     msg_buf := asm c @ D @ R @ drop (length D + length R) (encode_header h @ D @ R) @ J,
     rx_len := length R, msg_len := length (asm c) + length D\<rparr>"

lemma appended_facts:
  assumes d: "dispatched c h D R J" and t: "data_frag c h \<noteq> WS_FRAG_NONE"
  shows "asm (appended c h D R J) = asm c @ D" and "pending (appended c h D R J) = R"
    and "conn_wf (appended c h D R J)"
    and "dabs (appended c h D R J) = (dabs c)\<lparr>d_frag := data_frag c h, d_msg := asm c @ D\<rparr>"
proof -
  note f = dispatched_facts [OF d]
  have "layout (appended c h D R J) (asm c @ D) R
      (drop (length D + length R) (encode_header h @ D @ R) @ J)"
    by (simp add: layout_def appended_def)
  then show a: "asm (appended c h D R J) = asm c @ D" and "pending (appended c h D R J) = R"
    by (rule layout_asm, rule layout_pending)
  show "dabs (appended c h D R J) = (dabs c)\<lparr>d_frag := data_frag c h, d_msg := asm c @ D\<rparr>"
    using a by (simp add: dabs_def) (simp add: appended_def)
  have "conn_wf c" "ws_lc_active c" "\<not> failed c" using d by (simp_all add: dispatched_def)
  then show "conn_wf (appended c h D R J)"
    using f(3,6,7) t
    by (auto simp: conn_wf_def appended_def lcInv_iff ws_lc_active_def split: ws_state.splits)
qed

lemma accumulate_frame:
  assumes d: "dispatched c h D R J"
  shows "accumulate (c\<lparr>frag := data_frag c h\<rparr>) h (length (encode_header h)) =
    Some (appended c h D R J)"
proof -
  note f = dispatched_facts [OF d]
  have "layout (c\<lparr>frag := data_frag c h\<rparr>) (asm c) (encode_header h @ D @ R) J"
    using d by (simp add: dispatched_def layout_def)
  from accumulate_layout [OF this] show ?thesis
    using f(4,5) by (simp add: appended_def)
qed

lemma finish_message_ok:
  assumes ev: "blank ev" and d: "dispatched c h D R J" and t: "data_frag c h \<noteq> WS_FRAG_NONE"
    and dl: "deliver (dabs c) h D =
      (if data_frag c h = WS_FRAG_TEXT \<and> \<not> is_utf8 (asm c @ D) then violation (dabs c)
       else (Message (if data_frag c h = WS_FRAG_BIN then WS_OP_BIN else WS_OP_TEXT) (asm c @ D),
         (dabs c)\<lparr>d_frag := WS_FRAG_NONE, d_msg := []\<rparr>))"
  shows "\<exists>r. finish_message (appended c h D R J) ev = Some r \<and> poll_ok c h D R r"
proof -
  note f = dispatched_facts [OF d] and g = appended_facts [OF d t]
  let ?c = "appended c h D R J" and ?m = "asm c @ D"
  have fr: "frag ?c = data_frag c h" "msg_len ?c = length ?m" "msg_cap ?c = msg_cap c"
    "rx_len ?c = length R"
    by (simp_all add: appended_def)
  have "ws_utf8_valid (msg_buf ?c) (length ?m) = Some (is_utf8 ?m)"
    by (subst ws_utf8_valid_eq) (simp_all add: appended_def)
  then have ok: "message_utf8_ok ?c = Some (data_frag c h = WS_FRAG_TEXT \<longrightarrow> is_utf8 ?m)"
    by (simp add: message_utf8_ok_def fr)
  show ?thesis
  proof (cases "data_frag c h = WS_FRAG_TEXT \<and> \<not> is_utf8 ?m")
    case True
    then have "poll_ok c h D R (fail ?c ev)"
      using dl fail_ok [OF g(3) _ g(4) fr(3) _ ev] fr(4) f(3) by simp
    then show ?thesis using True by (simp add: finish_message_def ok)
  next
    case False
    let ?ev = "ev\<lparr>ev_op := if data_frag c h = WS_FRAG_BIN then WS_OP_BIN else WS_OP_TEXT,
      ev_data := Some 0, ev_len := length ?m\<rparr>"
    let ?c' = "?c\<lparr>frag := WS_FRAG_NONE, msg_len := 0\<rparr>"
    have run: "finish_message ?c ev = Some (emit ?c' ?ev WS_EV_MESSAGE)"
      using False t d
      by (auto simp: finish_message_def ok Let_def fr ws_lc_finish_frag_def dispatched_def
          ws_lc_active_def) (simp_all add: appended_def)
    have b: "msg_buf ?c' = ?m @ R @ drop (length D + length R) (encode_header h @ D @ R) @ J"
      by (simp add: appended_def)
    have r: "rx_len ?c' = length R" by (simp add: appended_def)
    have "pending ?c' = take (length R) (?m @ R)" "ev_bytes ?c' ?ev = ?m"
      unfolding pending_def ev_bytes_def b r by simp_all
    moreover have "asm ?c' = []" by (simp add: asm_def)
    moreover have "ev_in ?c' (?ev\<lparr>ev_type := WS_EV_MESSAGE\<rparr>)" unfolding ev_in_def b by simp
    moreover have "conn_wf ?c'"
      using g(3) by (auto simp: conn_wf_def lcInv_iff split: ws_state.splits)
    moreover have "dabs ?c' = (dabs c)\<lparr>d_frag := WS_FRAG_NONE, d_msg := []\<rparr>"
      using g(4) by (simp add: dabs_def asm_def)
    ultimately have "poll_ok c h D R (emit ?c' ?ev WS_EV_MESSAGE)"
      using dl False f(3) by (auto simp: poll_ok_def emit_def left_over_def observe_def fr)
    with run show ?thesis by blast
  qed
qed

lemma on_data_ok:
  assumes ev: "blank ev" and d: "dispatched c h D R J" and op: "opcode h \<in> {WS_OP_CONT, WS_OP_TEXT, WS_OP_BIN}"
  shows "\<exists>r. on_data c h (length (encode_header h)) ev = Some r \<and> poll_ok c h D R r"
proof -
  note f = dispatched_facts [OF d]
  have dl: "deliver (dabs c) h D = deliver_data (dabs c) (opcode h) (fin h) D"
    using f(9) op by (auto simp: op_defs)
  have wf: "conn_wf c" "ws_lc_active c" using d by (simp_all add: dispatched_def)
  show ?thesis
  proof (cases "(opcode h = WS_OP_CONT) = (frag c = WS_FRAG_NONE)")
    case True
    have "poll_ok c h D R (fail c ev)"
      by (rule fail_same [OF ev]) (use wf dl True in \<open>simp_all add: deliver_data_def\<close>)
    moreover have "data_illegal c h (opcode h = WS_OP_CONT)"
      using data_illegal_iff [OF d] True by blast
    then have "on_data c h (length (encode_header h)) ev = Some (fail c ev)"
      unfolding on_data_def Let_def by (simp only: if_True)
    ultimately show ?thesis by blast
  next
    case False
    note b = begin_data_eq [OF wf(2) False] and g = appended_facts [OF d]
    let ?c = "appended c h D R J"
    have run: "on_data c h (length (encode_header h)) ev =
        (if \<not> fin h then Some (emit ?c ev WS_EV_NONE) else finish_message ?c ev)"
      unfolding on_data_def Let_def b(1) accumulate_frame [OF d] bind.bind_lunit
      using False data_illegal_iff [OF d] by (simp only: if_False)
    have dd: "deliver (dabs c) h D =
        (if \<not> fin h then (Nothing, (dabs c)\<lparr>d_frag := data_frag c h, d_msg := asm c @ D\<rparr>)
         else if data_frag c h = WS_FRAG_TEXT \<and> \<not> is_utf8 (asm c @ D) then violation (dabs c)
         else (Message (if data_frag c h = WS_FRAG_BIN then WS_OP_BIN else WS_OP_TEXT) (asm c @ D),
           (dabs c)\<lparr>d_frag := WS_FRAG_NONE, d_msg := []\<rparr>))"
      unfolding dl deliver_data_def data_frag_def Let_def using False by simp
    show ?thesis
    proof (cases "fin h")
      case True
      then show ?thesis unfolding run using finish_message_ok [OF ev d b(2)] dd by simp
    next
      case fin: False
      have "poll_ok c h D R (emit ?c ev WS_EV_NONE)"
        using g [OF b(2)] fin dd ev_in_blank(1) [OF ev]
        by (simp add: poll_ok_def emit_def left_over_def observe_def) (simp add: appended_def f(2,3))
      then show ?thesis unfolding run using fin by simp
    qed
  qed
qed

text \<open>Opcodes below 16 by class.\<close>

lemma classify_opcode:
  assumes "unat (opcode h) < 16"
  shows "ws_classify_opcode (ucast (opcode h)) =
    (if opcode h \<in> {WS_OP_CLOSE, WS_OP_PING, WS_OP_PONG} then WS_CLASS_CONTROL
     else if opcode h \<in> {WS_OP_CONT, WS_OP_TEXT, WS_OP_BIN} then WS_CLASS_DATA else WS_CLASS_RESERVED)"
proof -
  have u: "unat (ucast (opcode h) :: byte) = unat (opcode h)"
    using assms by (simp add: unsigned_ucast_eq take_bit_nat_eq_self)
  have o: "opcode h = w \<longleftrightarrow> unat (opcode h) = unat w" for w by (rule word_unat_eq_iff)
  have "unat (opcode h) \<in> {0, 1, 2, 8, 9, 10} \<or> unat (opcode h) \<notin> {0, 1, 2, 8, 9, 10}" by blast
  then show ?thesis
    unfolding classify_cases u using assms by (auto simp: o op_defs)
qed

lemma route_ok:
  assumes ev: "blank ev" and d: "dispatched c h D R J"
  shows "\<exists>r. route c h (length (encode_header h)) ev = Some r \<and> poll_ok c h D R r"
proof -
  have "unat (opcode h) < 16" using d by (simp add: dispatched_def wf_frame_def wf_header_def)
  note cl = classify_opcode [OF this]
  consider "opcode h = WS_OP_CLOSE" | "opcode h = WS_OP_PING \<or> opcode h = WS_OP_PONG"
    | "opcode h \<in> {WS_OP_CONT, WS_OP_TEXT, WS_OP_BIN}"
    | "opcode h \<notin> {WS_OP_CLOSE, WS_OP_PING, WS_OP_PONG, WS_OP_CONT, WS_OP_TEXT, WS_OP_BIN}"
    by blast
  then show ?thesis
  proof cases
    case 1
    then show ?thesis using on_close_ok [OF ev d] cl by (simp add: route_def)
  next
    case 2
    then show ?thesis using on_ping_pong_ok [OF ev d] cl by (auto simp: route_def)
  next
    case 3
    then have "ws_classify_opcode (ucast (opcode h)) = WS_CLASS_DATA"
      using cl by (auto simp: op_defs)
    then show ?thesis using on_data_ok [OF ev d 3] by (simp add: route_def)
  next
    case 4
    have "poll_ok c h D R (fail c ev)"
      by (rule fail_same [OF ev]) (use d 4 dispatched_facts(9) [OF d] in \<open>auto simp: dispatched_def\<close>)
    then show ?thesis using 4 cl by (simp add: route_def)
  qed
qed

section \<open>One poll\<close>

lemma poll_frame:
  assumes wf: "conn_wf c" and nf: "\<not> failed c" and fr: "wf_frame h D"
    and p: "pending c = wire h D @ R"
  shows "\<exists>r. ws_conn_poll c ev = Some r \<and> poll_ok c h D R r"
proof -
  let ?E = "encode_header h" and ?ev = "clear_event ev"
  obtain J where lay: "layout c (asm c) (?E @ wire_payload h D @ R) J"
    using conn_layout [OF wf] p by (auto simp: wire_def)
  have len: "length (msg_buf c) \<le> OBJ_MAX" using wf by (simp add: conn_wf_def)
  have hk: "length (mask_key h) = 4" "length D = unat (payload_len h)"
    using fr by (simp_all add: wf_frame_def wf_header_def)
  have poll: "ws_conn_poll c ev = dispatch c h (length ?E) ?ev"
    using frame_ready_yes [of c "asm c" h D R J] lay fr len nf
    by (simp add: ws_conn_poll_def wire_def)
  show ?thesis
  proof (cases "ws_lc_active c \<and> mask_ok c h")
    case False
    have "poll_ok c h D R (fail c ?ev)"
      by (rule fail_same [OF blank_clear])
        (use wf nf False in \<open>auto simp: deliver_def ws_lc_active_def mask_ok_def split: if_splits\<close>)
    moreover have "admit c h ?ev = Inl (fail c ?ev)" using False by (auto simp: admit_def)
    ultimately show ?thesis by (simp add: poll dispatch_def)
  next
    case True
    let ?c = "c\<lparr>msg_buf := asm c @ ?E @ D @ R @ J\<rparr>"
    have um: "unmask_payload c h (length ?E) = Some ?c"
      using unmask_layout [OF lay hk(1)] hk(2) unwire [of h D] by (simp add: wire_payload_def split: if_splits)
    have lay': "layout ?c (asm c) (?E @ D @ R) J" using lay by (simp add: layout_def)
    then have a: "asm ?c = asm c" by (rule layout_asm)
    have "length (msg_buf c) = length (asm c @ ?E @ D @ R @ J)" using lay by (simp add: layout_def)
    then have "conn_wf ?c" using wf by (simp add: conn_wf_def)
    then have "dispatched ?c h D R J"
      using lay' a fr nf True by (auto simp: dispatched_def ws_lc_active_def mask_ok_def)
    moreover have "poll_ok ?c h D R r = poll_ok c h D R r" for r
    proof -
      have "dabs ?c = dabs c" using a by (simp add: dabs_def)
      moreover have "msg_cap ?c = msg_cap c" "msg_len ?c = msg_len c" "rx_len ?c = rx_len c" by simp_all
      ultimately show ?thesis unfolding poll_ok_def a by (simp only:)
    qed
    moreover have "admit c h ?ev = Inr ()" using True by (simp add: admit_def)
    ultimately show ?thesis using route_ok [OF blank_clear, of ?c h D R J ev] by (simp add: poll dispatch_def um)
  qed
qed

lemma deliver_alternatives:
  obtains "d_failed d" "deliver d h D = (Violation, d)" | "deliver d h D = violation d"
    | "deliver d h D = deliver_close d D" | "deliver d h D = (Ping D, d)" | "deliver d h D = (Pong D, d)"
    | "deliver d h D = deliver_data d (opcode h) (fin h) D"
proof -
  have "deliver d h D \<in> {violation d, deliver_close d D, (Ping D, d), (Pong D, d),
      deliver_data d (opcode h) (fin h) D}" if "\<not> d_failed d"
    using that unfolding deliver_def by (simp only: insert_iff split: if_split) simp_all
  moreover have "deliver d h D = (Violation, d)" if "d_failed d" using that by (simp add: deliver_def)
  ultimately show thesis using that by blast
qed

lemma fst_violation: "fst (violation d) = Violation"
  by (simp add: violation_def)

lemma deliver_close_alternatives:
  obtains "deliver_close d D = violation d" | k where "deliver_close d D = (Closed k,
    d\<lparr>d_code := k, d_rcvd := True, d_sent := True, d_state := WS_CLOSED, d_frag := WS_FRAG_NONE, d_msg := []\<rparr>)"
  by (cases "close_body D") (simp_all add: deliver_close_def Let_def)

lemma deliver_data_alternatives:
  obtains "deliver_data d op fn D = violation d"
    | t where "deliver_data d op fn D = (Nothing, d\<lparr>d_frag := t, d_msg := d_msg d @ D\<rparr>)"
    | op' where "deliver_data d op fn D = (Message op' (d_msg d @ D), d\<lparr>d_frag := WS_FRAG_NONE, d_msg := []\<rparr>)"
proof -
  define t where "t = (if op = WS_OP_CONT then d_frag d else if op = WS_OP_BIN then WS_FRAG_BIN
    else WS_FRAG_TEXT)"
  have e: "deliver_data d op fn D =
     (if (op = WS_OP_CONT) = (d_frag d = WS_FRAG_NONE) then violation d
      else if \<not> fn then (Nothing, d\<lparr>d_frag := t, d_msg := d_msg d @ D\<rparr>)
      else if t = WS_FRAG_TEXT \<and> \<not> is_utf8 (d_msg d @ D) then violation d
      else (Message (if t = WS_FRAG_BIN then WS_OP_BIN else WS_OP_TEXT) (d_msg d @ D),
           d\<lparr>d_frag := WS_FRAG_NONE, d_msg := []\<rparr>))"
    unfolding deliver_data_def Let_def t_def by (rule refl)
  show thesis
  proof (cases "(op = WS_OP_CONT) = (d_frag d = WS_FRAG_NONE) \<or>
      fn \<and> t = WS_FRAG_TEXT \<and> \<not> is_utf8 (d_msg d @ D)")
    case True
    then show thesis by (intro that(1)) (auto simp only: e if_True if_False not_not split: if_split)
  next
    case False
    show thesis
    proof (cases fn)
      case True
      with False have "deliver_data d op fn D = (Message (if t = WS_FRAG_BIN then WS_OP_BIN else WS_OP_TEXT)
          (d_msg d @ D), d\<lparr>d_frag := WS_FRAG_NONE, d_msg := []\<rparr>)" by (subst e) auto
      then show thesis by (rule that(3))
    next
      case nfin: False
      with False have "deliver_data d op fn D = (Nothing, d\<lparr>d_frag := t, d_msg := d_msg d @ D\<rparr>)"
        by (subst e) simp
      then show thesis by (rule that(2))
    qed
  qed
qed

lemma deliver_message:
  assumes "fst (deliver d h D) = Message op m"
  shows "m = d_msg d @ D \<and> d_frag (snd (deliver d h D)) = WS_FRAG_NONE"
proof (cases rule: deliver_alternatives [where d = d and h = h and D = D])
  case 3
  then show ?thesis
    using assms by (cases rule: deliver_close_alternatives [where d = d and D = D]) (simp_all add: fst_violation)
next
  case 6
  then show ?thesis
    using assms
    by (cases rule: deliver_data_alternatives [where d = d and op = "opcode h" and fn = "fin h" and D = D]) (simp_all add: fst_violation)
qed (use assms in \<open>simp_all add: fst_violation\<close>)

lemma deliver_closed:
  assumes "fst (deliver d h D) = Closed k"
  shows "d_state (snd (deliver d h D)) = WS_CLOSED \<and> d_sent (snd (deliver d h D))"
proof (cases rule: deliver_alternatives [where d = d and h = h and D = D])
  case 3
  then show ?thesis
    using assms by (cases rule: deliver_close_alternatives [where d = d and D = D]) (simp_all add: fst_violation)
next
  case 6
  then show ?thesis
    using assms
    by (cases rule: deliver_data_alternatives [where d = d and op = "opcode h" and fn = "fin h" and D = D]) (simp_all add: fst_violation)
qed (use assms in \<open>simp_all add: fst_violation\<close>)

lemma left_over_cases:
  assumes "poll_ok c h D R (t, c', ev')"
  shows "(t \<in> {WS_EV_NONE, WS_EV_PING, WS_EV_PONG} \<longrightarrow> pending c' = R) \<and>
    (t = WS_EV_CLOSE \<longrightarrow>
      pending c' = take (length R) (drop (length (wire h D)) (asm c @ encode_header h @ D @ R))) \<and>
    (t = WS_EV_MESSAGE \<longrightarrow> pending c' = take (length R) (asm c @ D @ R))"
proof -
  note ok = poll_okD [OF assms]
  show ?thesis
    using ok(6,8) deliver_message [of "dabs c" h D]
    by (cases "fst (deliver (dabs c) h D)") (simp_all add: left_over_def length_wire del: drop_append take_append)
qed

definition latched :: "devent \<times> driver \<Rightarrow> bool" where
  "latched r \<longleftrightarrow> (fst r = Violation \<longleftrightarrow> d_failed (snd r))"

lemma deliver_latched: "latched (deliver d h D)"
proof (cases "d_failed d")
  case True
  then show ?thesis by (simp add: deliver_def latched_def)
next
  case False
  have v: "latched (violation d)" by (simp add: violation_def latched_def)
  show ?thesis
  proof (cases rule: deliver_alternatives [where d = d and h = h and D = D])
    case 1
    then show ?thesis using False by simp
  next
    case 3
    then show ?thesis
      using v False by (cases rule: deliver_close_alternatives [where d = d and D = D]) (simp_all add: latched_def)
  next
    case 6
    then show ?thesis
      using v False
      by (cases rule: deliver_data_alternatives [where d = d and op = "opcode h" and fn = "fin h" and D = D]) (simp_all add: latched_def)
  qed (use v False in \<open>simp_all add: latched_def\<close>)
qed

lemma poll_failed:
  "failed c \<Longrightarrow> ws_conn_poll c ev = Some (WS_EV_ERROR, c, (clear_event ev)\<lparr>ev_type := WS_EV_ERROR\<rparr>)"
  by (simp add: ws_conn_poll_def emit_def)

lemma poll_incomplete:
  assumes wf: "conn_wf c" and nf: "\<not> failed c"
    and no: "\<not> (\<exists>h D R. wf_frame h D \<and> pending c = wire h D @ R)"
  shows "ws_conn_poll c ev = Some (WS_EV_NONE, c, clear_event ev)"
proof -
  have "length (msg_buf c) \<le> OBJ_MAX" using wf by (simp add: conn_wf_def)
  from frame_ready_no [OF conn_layout [OF wf] this no] nf show ?thesis
    by (auto simp: ws_conn_poll_def)
qed

text \<open>The three cases are all there is.\<close>

lemma poll_cases:
  assumes "conn_wf c"
  obtains (failed) "failed c"
    | (frame) h D R where "\<not> failed c" "wf_frame h D" "pending c = wire h D @ R"
    | (incomplete) "\<not> failed c" "\<not> (\<exists>h D R. wf_frame h D \<and> pending c = wire h D @ R)"
  by blast

section \<open>Properties\<close>

text \<open>A server connection that has received a masked text frame \<open>Hi\<close> and further bytes, used to
  show that the hypotheses below can be met.\<close>

definition demo_header :: ws_frame_header where
  "demo_header = \<lparr>opcode = WS_OP_TEXT, payload_len = 2, mask_key = [1, 2, 3, 4], fin = True,
     masked = True, rsv = 0\<rparr>"

definition demo_rest :: "byte list" where
  "demo_rest = [0x89, 0x80]"

definition demo_conn :: ws_conn where
  "demo_conn = \<lparr>state = WS_OPEN, frag = WS_FRAG_NONE, role = WS_ROLE_SERVER, sent_close = False,
     rcvd_close = False, msg_buf = [0x81, 0x82, 1, 2, 3, 4, 0x49, 0x6B, 0x89, 0x80, 0, 0], msg_cap = 12,
     msg_len = 0, rx_len = 10, close_code = 0, failed = False\<rparr>"

lemma demo_facts:
  "conn_wf demo_conn" "\<not> failed demo_conn" "wf_frame demo_header [0x48, 0x69]"
  "pending demo_conn = wire demo_header [0x48, 0x69] @ demo_rest"
  "asm demo_conn = []"
proof -
  show "conn_wf demo_conn" by (simp add: conn_wf_def demo_conn_def OBJ_MAX_def lcInv_iff)
  show "\<not> failed demo_conn" "asm demo_conn = []" by (simp_all add: demo_conn_def asm_def)
  show "wf_frame demo_header [0x48, 0x69]"
    by (simp add: wf_frame_def wf_header_def demo_header_def classify_cases op_defs)
  show "pending demo_conn = wire demo_header [0x48, 0x69] @ demo_rest"
    by (simp add: pending_def demo_conn_def wire_def wire_payload_def encode_header_def demo_header_def
        len7_def len_ext_def be_bytes_def mask_bytes_def demo_rest_def op_defs)
qed

text \<open>C3. One poll on a connection that holds a complete frame performs exactly the protocol step on
  that frame: the event the caller sees (with the payload it reads through the event's pointer)
  and the new protocol state are those of \<open>deliver\<close>, and the invariant is kept. For PING and
  PONG this needs the bytes received after the frame to be no longer than its header.\<close>

theorem poll_refines:
  assumes "conn_wf c" and "\<not> failed c" and "wf_frame h D" and "pending c = wire h D @ R"
    and "length R \<le> length (encode_header h) \<or> opcode h \<notin> {WS_OP_PING, WS_OP_PONG}"
  shows "\<exists>t c' ev'. ws_conn_poll c ev = Some (t, c', ev') \<and> ev_type ev' = t \<and> conn_wf c' \<and>
    deliver (dabs c) h D = (observe (t, c', ev'), dabs c')"
proof -
  obtain t c' ev' where p: "ws_conn_poll c ev = Some (t, c', ev')" "poll_ok c h D R (t, c', ev')"
    using poll_frame [OF assms(1-4)] by (metis prod_cases3)
  note ok = poll_okD [OF p(2)]
  have "deliver (dabs c) h D = (observe (t, c', ev'), dabs c')"
    using ok(3) ok(7) [OF assms(5)] by (intro prod_eqI) simp_all
  with p(1) ok(1,2) show ?thesis by blast
qed

theorem poll_refines_witness:
  "\<exists>t c' ev'. ws_conn_poll demo_conn
      \<lparr>ev_type = WS_EV_NONE, ev_op = 0, ev_data = None, ev_len = 0, ev_close_code = 0\<rparr> = Some (t, c', ev') \<and>
    ev_type ev' = t \<and> conn_wf c' \<and>
    deliver (dabs demo_conn) demo_header [0x48, 0x69] = (observe (t, c', ev'), dabs c')"
  by (rule poll_refines [OF demo_facts(1-4)]) (simp add: demo_header_def op_defs)

text \<open>C26. What is left in the receive buffer after a poll that processed a frame. After a fragment, a
  PING or a PONG exactly the bytes behind the frame remain. After a completed message the pending
  region starts at the message itself: the bytes are those of the message followed by the rest, cut
  to the length of the rest. A Close discards the message being assembled before its own bytes
  are consumed, so that the consumption counts from the start of the buffer: what is pending afterwards
  are as many bytes as followed the frame, those behind the first bytes, as many as the frame has, of the
  old message, the frame and the rest; they are exactly the bytes behind the frame when no message was
  being assembled. After an error the connection is failed; which bytes
  are pending then is not described.\<close>

theorem poll_leaves:
  assumes "conn_wf c" and "\<not> failed c" and "wf_frame h D" and "pending c = wire h D @ R"
  shows "\<exists>t c' ev'. ws_conn_poll c ev = Some (t, c', ev') \<and>
    (t \<in> {WS_EV_NONE, WS_EV_PING, WS_EV_PONG} \<longrightarrow> pending c' = R) \<and>
    (t = WS_EV_CLOSE \<longrightarrow>
      pending c' = take (length R) (drop (length (wire h D)) (asm c @ encode_header h @ D @ R))) \<and>
    (t = WS_EV_CLOSE \<longrightarrow> asm c = [] \<longrightarrow> pending c' = R) \<and>
    (t = WS_EV_MESSAGE \<longrightarrow> pending c' = take (length R) (asm c @ D @ R)) \<and>
    (t = WS_EV_ERROR \<longrightarrow> failed c')"
proof -
  obtain t c' ev' where p: "ws_conn_poll c ev = Some (t, c', ev')" "poll_ok c h D R (t, c', ev')"
    using poll_frame [OF assms(1-4)] by (metis prod_cases3)
  note ok = poll_okD [OF p(2)]
  have "t = WS_EV_ERROR \<longrightarrow> failed c'"
    using ok(3,8) deliver_latched [of "dabs c" h D] dabs_simps(8) [of c']
    by (cases "fst (deliver (dabs c) h D)") (simp_all add: latched_def)
  then show ?thesis using p(1) left_over_cases [OF p(2)] by (auto simp: length_wire)
qed

theorem poll_leaves_witness:
  "\<exists>t c' ev'. ws_conn_poll demo_conn
      \<lparr>ev_type = WS_EV_NONE, ev_op = 0, ev_data = None, ev_len = 0, ev_close_code = 0\<rparr> = Some (t, c', ev') \<and>
    (t \<in> {WS_EV_NONE, WS_EV_PING, WS_EV_PONG} \<longrightarrow> pending c' = demo_rest) \<and>
    (t = WS_EV_MESSAGE \<longrightarrow> pending c' = take (length demo_rest) (asm demo_conn @ [0x48, 0x69] @ demo_rest))"
  using poll_leaves [OF demo_facts(1-4),
      of "\<lparr>ev_type = WS_EV_NONE, ev_op = 0, ev_data = None, ev_len = 0, ev_close_code = 0\<rparr>"]
  by blast

end
