(* ===== verification/Session.thy ===== *)
theory Session
  imports Driver
begin

text \<open>
  Whole sessions of the driver: the calls of the public interface as one step relation, the
  invariant every call keeps, the lifecycle specification they implement, the frames the
  sending functions build, and the delivery of a sequence of frames.
\<close>

section \<open>Outbound frames\<close>

definition out_frame :: "byte list \<Rightarrow> ws_role \<Rightarrow> ws_opcode \<Rightarrow> size_t \<Rightarrow> ws_frame_header" where
  "out_frame key r op len = \<lparr>opcode = op, payload_len = word_of_nat len,
     mask_key = (if r = WS_ROLE_CLIENT then take 4 key else [0, 0, 0, 0]), fin = True,
     masked = (r = WS_ROLE_CLIENT), rsv = 0\<rparr>"

lemma unat_of_len: "len < OBJ_MAX \<Longrightarrow> unat (word_of_nat len :: uint64) = len"
  by (simp add: OBJ_MAX_def unsigned_of_nat take_bit_nat_eq_self)

lemma out_frame_key [simp]: "4 \<le> length key \<Longrightarrow> length (mask_key (out_frame key r op len)) = 4"
  by (simp add: out_frame_def)

lemma out_header_eq:
  assumes "4 \<le> length key"
  shows "out_header key c
      (zero_header\<lparr>opcode := op, payload_len := word_of_nat len, fin := True, masked := False\<rparr>) =
    Some (out_frame key (role c) op len)"
proof (cases "role c = WS_ROLE_CLIENT")
  case True
  have "ws_memcpy [0, 0, 0, 0] 0 key 0 4 = Some (take 4 key)"
    using assms by (subst ws_memcpy_eq) (simp_all add: patch_def)
  with True show ?thesis by (simp add: out_header_def zero_header_def out_frame_def)
next
  case False
  then show ?thesis by (simp add: out_header_def zero_header_def out_frame_def)
qed

text \<open>A frame is written whole or not at all: when it does not fit, the result is 0 and at most
  the header bytes of \<open>out\<close> have changed.\<close>

lemma build_frame_eq:
  assumes "4 \<le> length key" and "unat op < 16" and "len \<le> length payload" and "len < OBJ_MAX"
    and "cap \<le> length out" and "cap < OBJ_MAX"
    and h_def: "h = out_frame key (role c) op len"
  shows "build_frame key c op payload len out cap =
    (if length (encode_header h) + len \<le> cap
     then Some (length (encode_header h) + len, patch out 0 (wire h (take len payload)))
     else if length (encode_header h) \<le> cap then Some (0, patch out 0 (encode_header h))
     else Some (0, out))"
proof -
  let ?E = "encode_header h" and ?D = "take len payload"
  have k: "length (mask_key h) = 4" "unat (opcode h) < 16"
    using assms(1,2) by (simp_all add: h_def) (simp add: out_frame_def)
  have hdr: "build_frame key c op payload len out cap = do {
     (hn, out1) \<leftarrow> ws_build_header h out cap;
     if \<not> frame_fits hn len cap then Some (0, out1)
     else do {
       out2 \<leftarrow> ws_memcpy out1 (nat hn) payload 0 len;
       out3 \<leftarrow> (if masked h then ws_mask out2 (nat hn) len (mask_key h) else Some out2);
       Some (size_add (nat hn) len, out3)
     }}"
    unfolding build_frame_def out_header_eq [OF assms(1)] h_def by simp
  show ?thesis
  proof (cases "length ?E \<le> cap")
    case False
    then show ?thesis
      unfolding hdr using ws_build_header_small [of h cap out] k
      by (simp add: frame_fits_def status_defs)
  next
    case True
    have b: "ws_build_header h out cap = Some (int (length ?E), patch out 0 ?E)"
      using ws_build_header_eq [OF k(2,1) True assms(5)] by simp
    have fits: "frame_fits (int (length ?E)) len cap \<longleftrightarrow> length ?E + len \<le> cap"
      using True assms(6) by (auto simp: frame_fits_def size_sub_obj)
    show ?thesis
    proof (cases "length ?E + len \<le> cap")
      case False
      then show ?thesis unfolding hdr b using True fits by simp
    next
      case room: True
      have l: "length ?D = len" using assms(3) by simp
      have m: "ws_memcpy (patch out 0 ?E) (length ?E) payload 0 len = Some (patch out 0 (?E @ ?D))"
        using room assms(3,5) patch_append [of 0 ?E ?D out] by (subst ws_memcpy_eq) simp_all
      have "ws_mask (patch out 0 (?E @ ?D)) (length ?E) len (mask_key h) =
          Some (patch out 0 (?E @ mask_bytes (mask_key h) ?D))"
        using room assms(3,5) k(1) l by (subst ws_mask_eq) (simp_all add: patch_def)
      then show ?thesis
        unfolding hdr b using True room fits m assms(6)
        by (simp add: size_add_obj wire_def wire_payload_def)
    qed
  qed
qed

lemma out_frame_wf:
  assumes "4 \<le> length key" and "unat op < 16" and "length D < OBJ_MAX"
    and "ws_classify_opcode (ucast op) = WS_CLASS_CONTROL \<longrightarrow> length D \<le> 125"
  shows "wf_frame (out_frame key r op (length D)) D"
  using assms unat_of_len [OF assms(3)]
  by (auto simp: wf_frame_def wf_header_def out_frame_def OBJ_MAX_def)

section \<open>Reception\<close>

lemma wf_lengths: "conn_wf c \<Longrightarrow> rx_len c = length (pending c)"
  "conn_wf c \<Longrightarrow> msg_len c = length (asm c)"
  using conn_layout [of c] by (simp_all add: layout_def)

lemma recv_eq:
  assumes wf: "conn_wf c" and "len \<le> length bytes" and "length bytes < OBJ_MAX"
  shows "ws_conn_recv c bytes len =
    (if msg_len c + rx_len c + len > msg_cap c then Some (WS_ERR_TOO_SMALL, c)
     else Some (to_int len, c\<lparr>msg_buf := patch (msg_buf c) (msg_len c + rx_len c) (take len bytes),
       rx_len := rx_len c + len\<rparr>))"
proof -
  let ?n = "msg_len c + rx_len c"
  have b: "?n \<le> msg_cap c" "msg_cap c < OBJ_MAX" "length (msg_buf c) = msg_cap c"
    using wf by (simp_all add: conn_wf_def)
  have n: "size_add (msg_len c) (rx_len c) = ?n" using b by (simp add: size_add_obj)
  have l: "size_add ?n len = ?n + len"
    using b assms(2,3) OBJ_MAX_double by (intro size_add_exact) linarith
  show ?thesis
  proof (cases "?n + len > msg_cap c")
    case True
    then show ?thesis by (simp add: ws_conn_recv_def n l)
  next
    case False
    then have "ws_memcpy (msg_buf c) ?n bytes 0 len = Some (patch (msg_buf c) ?n (take len bytes))"
      and "size_add (rx_len c) len = rx_len c + len"
      using b assms(2) by (auto simp: ws_memcpy_eq size_add_obj)
    then show ?thesis using False by (simp add: ws_conn_recv_def n l)
  qed
qed

lemma recv_layout:
  assumes "layout c A P J" and "length B \<le> length J"
  shows "layout (c\<lparr>msg_buf := patch (msg_buf c) (length A + length P) B, rx_len := length P + length B\<rparr>)
    A (P @ B) (drop (length B) J)"
  using assms by (simp add: layout_def patch_def)

lemma recv_accepts:
  assumes wf: "conn_wf c" and "len \<le> length bytes" and "length bytes < OBJ_MAX"
    and room: "msg_len c + rx_len c + len \<le> msg_cap c"
  shows "\<exists>c'. ws_conn_recv c bytes len = Some (to_int len, c') \<and> conn_wf c' \<and> dabs c' = dabs c \<and>
    pending c' = pending c @ take len bytes \<and> msg_cap c' = msg_cap c"
proof -
  let ?c = "c\<lparr>msg_buf := patch (msg_buf c) (msg_len c + rx_len c) (take len bytes),
       rx_len := rx_len c + len\<rparr>"
  have run: "ws_conn_recv c bytes len = Some (to_int len, ?c)"
    using recv_eq [OF assms(1-3)] room by simp
  have b: "length (msg_buf c) = msg_cap c" using wf by (simp add: conn_wf_def)
  have l: "msg_len c = length (asm c)" "rx_len c = length (pending c)"
    using conn_layout [OF wf] by (simp_all add: layout_def)
  have "layout ?c (asm c) (pending c @ take len bytes)
      (drop (length (take len bytes)) (drop (msg_len c + rx_len c) (msg_buf c)))"
    using recv_layout [OF conn_layout [OF wf], of "take len bytes"] room b assms(2) l
    by (simp add: min_absorb2)
  then have a: "asm ?c = asm c" "pending ?c = pending c @ take len bytes"
    by (rule layout_asm, rule layout_pending)
  have "conn_wf ?c" using wf room assms(2) by (auto simp: conn_wf_def)
  moreover have "dabs ?c = dabs c" using a by (simp add: dabs_def)
  ultimately show ?thesis using run a(2) by simp
qed

lemma recv_wf:
  assumes "conn_wf c" and "len \<le> length bytes" and "length bytes < OBJ_MAX"
    and "ws_conn_recv c bytes len = Some (r, c')"
  shows "conn_wf c' \<and> dabs c' = dabs c \<and> msg_cap c' = msg_cap c"
  using recv_accepts [OF assms(1-3)] recv_eq [OF assms(1-3)] assms(1,4)
  by (cases "msg_len c + rx_len c + len \<le> msg_cap c") auto

section \<open>Every call keeps the invariant\<close>

lemma poll_wf:
  assumes wf: "conn_wf c"
  shows "\<exists>t c' ev'. ws_conn_poll c ev = Some (t, c', ev') \<and> ev_type ev' = t \<and> conn_wf c' \<and>
    msg_cap c' = msg_cap c \<and> (dabs c' = dabs c \<or> (\<exists>h D. dabs c' = snd (deliver (dabs c) h D)))"
  using wf
proof (cases rule: poll_cases)
  case failed
  then show ?thesis using wf by (simp add: poll_failed)
next
  case (frame h D R)
  then obtain t c' ev' where "ws_conn_poll c ev = Some (t, c', ev')" "poll_ok c h D R (t, c', ev')"
    using poll_frame [OF wf] by (metis prod_cases3)
  with poll_okD [OF this(2)] show ?thesis by blast
next
  case incomplete
  then show ?thesis using wf by (simp add: poll_incomplete clear_event_def)
qed

lemma init_wf: "length buf < OBJ_MAX \<Longrightarrow> conn_wf (ws_conn_init r buf (length buf))"
  by (simp add: conn_wf_def ws_conn_init_def lcInv_iff)

lemma open_wf: "conn_wf c \<Longrightarrow> conn_wf (ws_conn_open c)"
  by (cases "state c = WS_CONNECTING")
    (auto simp: conn_wf_def ws_conn_open_def ws_lc_handshake_def lcInv_iff)

lemma send_close_conn:
  assumes "ws_send_close key c code out cap = Some (n, c', out')"
  shows "c' = c \<or> state c = WS_OPEN \<and> 0 < n \<and> c' = c\<lparr>sent_close := True, state := WS_CLOSING\<rparr>"
  using assms
  by (auto simp: ws_send_close_def ws_lc_send_close_def split: if_splits bind_splits prod.splits)

lemma send_close_wf:
  "conn_wf c \<Longrightarrow> ws_send_close key c code out cap = Some (n, c', out') \<Longrightarrow> conn_wf c'"
  by (drule send_close_conn) (auto simp: conn_wf_def lcInv_iff)

section \<open>The public interface as a transition system\<close>

text \<open>The calls that change a connection. Buffers handed to \<open>ws_conn_recv\<close> are C objects: they
  hold the bytes they claim to and are smaller than half the address space.\<close>

definition conn_init :: "ws_conn \<Rightarrow> bool" where
  "conn_init c \<longleftrightarrow> (\<exists>r buf. length buf < OBJ_MAX \<and> c = ws_conn_init r buf (length buf))"

inductive conn_step :: "ws_conn \<Rightarrow> ws_conn \<Rightarrow> bool" where
  Open: "conn_step c (ws_conn_open c)"
| Recv: "len \<le> length bytes \<Longrightarrow> length bytes < OBJ_MAX \<Longrightarrow> ws_conn_recv c bytes len = Some (r, c') \<Longrightarrow>
    conn_step c c'"
| Poll: "ws_conn_poll c ev = Some (t, c', ev') \<Longrightarrow> conn_step c c'"
| Send_Close: "ws_send_close key c code out cap = Some (n, c', out') \<Longrightarrow> conn_step c c'"

lemma conn_step_wf:
  assumes "conn_step c c'" and "conn_wf c"
  shows "conn_wf c'"
  using assms
proof (cases rule: conn_step.cases)
  case (Poll ev t ev')
  with poll_wf [OF assms(2), of ev] show ?thesis by auto
qed (use assms(2) open_wf recv_wf send_close_wf in blast)+

text \<open>The lifecycle seen by the specification of the driver.\<close>

definition lc_of :: "driver \<Rightarrow> lc_vars" where
  "lc_of d = \<lparr>lcState = d_state d, lcFrag = d_frag d, sentClose = d_sent d, rcvdClose = d_rcvd d\<rparr>"

lemma lc_of_dabs: "lc_of (dabs c) = lc_abs c"
  by (simp add: lc_of_def lc_abs_def)

lemma lc_of_simps [simp]:
  "lcState (lc_of d) = d_state d" "lcFrag (lc_of d) = d_frag d" "sentClose (lc_of d) = d_sent d"
  "rcvdClose (lc_of d) = d_rcvd d"
  by (simp_all add: lc_of_def)

lemma lc_of_frag:
  assumes "lcActive (lc_of d)"
  shows "lcNext\<^sup>*\<^sup>* (lc_of d) (lc_of (d\<lparr>d_frag := f, d_msg := m\<rparr>)) \<or>
    d_frag d \<noteq> WS_FRAG_NONE \<and> f \<noteq> WS_FRAG_NONE"
proof -
  have e: "lc_of (d\<lparr>d_frag := f, d_msg := m\<rparr>) = (lc_of d)\<lparr>lcFrag := f\<rparr>" by (simp add: lc_of_def)
  show ?thesis
  proof (cases "d_frag d = f")
    case True
    then have "(lc_of d)\<lparr>lcFrag := f\<rparr> = lc_of d" by (simp add: lc_of_def)
    then show ?thesis by (simp add: e)
  next
    case False
    then show ?thesis
      unfolding e using assms lcNext.StartFrag [of "lc_of d" f] lcNext.FinishFrag [of "lc_of d"]
      by (cases "f = WS_FRAG_NONE") (auto intro: r_into_rtranclp)
  qed
qed

lemma violation_lc:
  assumes "lcInv (lc_of d)"
  shows "lcNext\<^sup>*\<^sup>* (lc_of d) (lc_of (snd (violation d)))"
proof (cases "d_frag d = WS_FRAG_NONE")
  case True
  then show ?thesis by (simp add: violation_def lc_of_def)
next
  case False
  then have "lcActive (lc_of d)" using assms by (simp add: lcInv_def)
  moreover have "lc_of (snd (violation d)) = (lc_of d)\<lparr>lcFrag := WS_FRAG_NONE\<rparr>"
    by (simp add: violation_def lc_of_def)
  ultimately show ?thesis using False lcNext.FinishFrag [of "lc_of d"] by auto
qed

lemma deliver_lc:
  assumes inv: "lcInv (lc_of d)"
  shows "lcNext\<^sup>*\<^sup>* (lc_of d) (lc_of (snd (deliver d h D)))"
proof -
  have data: "lcNext\<^sup>*\<^sup>* (lc_of d) (lc_of (snd (deliver_data d op fn D)))"
    if act: "lcActive (lc_of d)" for op fn
  proof (cases "(op = WS_OP_CONT) = (d_frag d = WS_FRAG_NONE)")
    case True
    then show ?thesis using violation_lc [OF inv] by (simp add: deliver_data_def)
  next
    case False
    then show ?thesis
      using violation_lc [OF inv] lc_of_frag [OF act, where f = WS_FRAG_NONE and m = "[]"]
        lc_of_frag [OF act, where f = WS_FRAG_BIN and m = "d_msg d @ D"]
        lc_of_frag [OF act, where f = WS_FRAG_TEXT and m = "d_msg d @ D"]
      by (cases "d_frag d = WS_FRAG_NONE") (auto simp: deliver_data_def Let_def lc_of_def)
  qed
  have close: "lcNext\<^sup>*\<^sup>* (lc_of d) (lc_of (snd (deliver_close d D)))" if act: "lcActive (lc_of d)"
  proof (cases "close_body D")
    case True
    have "\<not> d_rcvd d" using inv act by (auto simp: lcInv_iff lcActive_def)
    then have "lcNext (lc_of d) (lc_of (snd (deliver_close d D)))"
      using lcNext.RecvClose [OF act] True by (simp add: deliver_close_def Let_def lc_of_def)
    then show ?thesis by blast
  qed (use violation_lc [OF inv] in \<open>simp add: deliver_close_def\<close>)
  have act: "lcActive (lc_of d) \<longleftrightarrow> d_state d = WS_OPEN \<or> d_state d = WS_CLOSING"
    by (simp add: lcActive_def)
  show ?thesis
    unfolding deliver_def using violation_lc [OF inv] data close act by auto
qed

lemma lc_abs_step:
  assumes wf: "conn_wf c" and st: "conn_step c c'"
  shows "lcNext\<^sup>*\<^sup>* (lc_abs c) (lc_abs c')"
  using st
proof (cases rule: conn_step.cases)
  case Open
  then show ?thesis
    using lcNext.Handshake [of "lc_abs c"] by (auto simp: ws_conn_open_def ws_lc_handshake_def)
next
  case (Recv len bytes r)
  then show ?thesis using recv_wf [OF wf] lc_of_dabs by (metis rtranclp.rtrancl_refl)
next
  case (Poll ev t ev')
  then have "dabs c' = dabs c \<or> (\<exists>h D. dabs c' = snd (deliver (dabs c) h D))"
    using poll_wf [OF wf, of ev] by auto
  moreover have "lcInv (lc_of (dabs c))" using wf by (simp add: conn_wf_def lc_of_dabs)
  ultimately show ?thesis using deliver_lc lc_of_dabs by (metis rtranclp.rtrancl_refl)
next
  case (Send_Close key code out cap n out')
  then show ?thesis
    using send_close_conn [of key c code out cap n c' out'] lcNext.SendClose [of "lc_abs c"] by auto
qed

text \<open>The driver simulates the TLA+ lifecycle, never moves back in it, and never forgets a
  violation.\<close>

lemma deliver_failed: "d_failed d \<Longrightarrow> d_failed (snd (deliver d h D))"
  by (simp add: deliver_def)

lemma failed_step:
  assumes wf: "conn_wf c" and st: "conn_step c c'"
  shows "failed c \<le> failed c'"
  using st
proof (cases rule: conn_step.cases)
  case (Recv len bytes r)
  then have "dabs c' = dabs c" using recv_wf [OF wf] by blast
  then show ?thesis by (simp add: dabs_def)
next
  case (Poll ev t ev')
  then have "dabs c' = dabs c \<or> (\<exists>h D. dabs c' = snd (deliver (dabs c) h D))"
    using poll_wf [OF wf, of ev] by auto
  then have "failed c \<longrightarrow> d_failed (dabs c')" using deliver_failed by (metis dabs_simps(8))
  then show ?thesis by simp
next
  case (Send_Close key code out cap n out')
  then show ?thesis using send_close_conn [of key c code out cap n c' out'] by auto
qed (simp add: ws_conn_open_def ws_lc_handshake_def)

interpretation conn: simulation conn_init conn_step conn_wf lcInit lcNext lc_abs
proof unfold_locales
  show "conn_wf c" if "conn_init c" for c using that init_wf by (auto simp: conn_init_def)
  show "conn_wf c'" if "conn_wf c" "conn_step c c'" for c c' using conn_step_wf that by blast
  show "lcInit (lc_abs c)" if "conn_init c" for c
    using that by (auto simp: conn_init_def lcInit_def ws_conn_init_def lc_abs_def)
  show "lcNext\<^sup>*\<^sup>* (lc_abs c) (lc_abs c')" if "conn_wf c" "conn_step c c'" for c c'
    using lc_abs_step that by blast
qed

interpretation conn_state: monotone_system conn_init conn_step conn_wf state
proof unfold_locales
  fix c c'
  assume "conn_wf c" "conn_step c c'"
  moreover from this have "lcInv (lc_abs c)" by (simp add: conn_wf_def)
  ultimately show "state c \<le> state c'" using lc.rank_run [OF lc_abs_step] by fastforce
qed

interpretation conn_failed: monotone_system conn_init conn_step conn_wf failed
  by unfold_locales (rule failed_step)

section \<open>Delivering a sequence of frames\<close>

type_synonym frame = "ws_frame_header \<times> byte list"

text \<open>The caller's loop when each \<open>ws_conn_recv\<close> brings one frame, polled before the next.\<close>

fun feed_frames :: "ws_conn \<Rightarrow> ws_event \<Rightarrow> frame list \<Rightarrow> (devent list \<times> ws_conn) option" where
  "feed_frames c ev [] = Some ([], c)"
| "feed_frames c ev ((h, D) # fs) = do {
     (r, c1) \<leftarrow> ws_conn_recv c (wire h D) (length (wire h D));
     (t, c2, ev2) \<leftarrow> ws_conn_poll c1 ev;
     (es, c3) \<leftarrow> feed_frames c2 ev2 fs;
     Some (observe (t, c2, ev2) # es, c3)
   }"

fun deliver_all :: "driver \<Rightarrow> frame list \<Rightarrow> devent list \<times> driver" where
  "deliver_all d [] = ([], d)"
| "deliver_all d ((h, D) # fs) =
     (let (e, d1) = deliver d h D; (es, d2) = deliver_all d1 fs in (e # es, d2))"

definition wire_size :: "frame list \<Rightarrow> nat" where
  "wire_size fs = sum_list (map (\<lambda>(h, D). length (wire h D)) fs)"

lemma wire_size_simps [simp]:
  "wire_size [] = 0" "wire_size ((h, D) # fs) = length (wire h D) + wire_size fs"
  by (simp_all add: wire_size_def)

lemma left_over_Nil: "left_over e A F [] P \<Longrightarrow> e \<noteq> Violation \<Longrightarrow> P = []"
  by (cases e) (simp_all add: left_over_def)

text \<open>One frame received into a connection with nothing else buffered.\<close>

lemma recv_poll:
  assumes wf: "conn_wf c" and fr: "wf_frame h D" and idle: "pending c = [] \<or> failed c"
    and room: "msg_len c + rx_len c + length (wire h D) \<le> msg_cap c"
  shows "\<exists>r c1 t c2 ev2. ws_conn_recv c (wire h D) (length (wire h D)) = Some (r, c1) \<and>
    ws_conn_poll c1 ev = Some (t, c2, ev2) \<and> conn_wf c2 \<and> (pending c2 = [] \<or> failed c2) \<and>
    msg_cap c2 = msg_cap c \<and> msg_len c2 + rx_len c2 \<le> msg_len c + rx_len c + length (wire h D) \<and>
    deliver (dabs c) h D = (observe (t, c2, ev2), dabs c2)"
proof -
  have "length (wire h D) < OBJ_MAX" using room wf by (simp add: conn_wf_def)
  then obtain c1 where r: "ws_conn_recv c (wire h D) (length (wire h D)) = Some (to_int (length (wire h D)), c1)"
    "conn_wf c1" "dabs c1 = dabs c" "pending c1 = pending c @ wire h D" "msg_cap c1 = msg_cap c"
    using recv_accepts [OF wf, of "length (wire h D)" "wire h D"] room by auto
  have l: "msg_len c1 = msg_len c" "rx_len c1 = rx_len c + length (wire h D)" "failed c1 = failed c"
    "frag c1 = frag c"
    using recv_eq [OF wf, of "length (wire h D)" "wire h D"] \<open>length (wire h D) < OBJ_MAX\<close> room r(1)
    by auto
  show ?thesis
  proof (cases "failed c")
    case True
    then show ?thesis
      using r l wf by (auto simp: poll_failed deliver_def observe_def)
  next
    case False
    with idle have "pending c1 = wire h D @ []" using r(4) by simp
    then obtain t c2 ev2 where p: "ws_conn_poll c1 ev = Some (t, c2, ev2)" "poll_ok c1 h D [] (t, c2, ev2)"
      using poll_frame [OF r(2) _ fr] False l(3) by (metis prod_cases3)
    note ok = poll_okD [OF p(2)]
    have d: "deliver (dabs c) h D = (observe (t, c2, ev2), dabs c2)"
      using ok(3) ok(7) r(3) by (intro prod_eqI) simp_all
    have "pending c2 = [] \<or> failed c2"
      using left_over_Nil [OF ok(6)] deliver_latched [of "dabs c" h D] d r(3)
      by (cases "observe (t, c2, ev2) = Violation") (simp_all add: latched_def)
    moreover have "msg_cap c2 = msg_cap c"
      "msg_len c2 + rx_len c2 \<le> msg_len c + rx_len c + length (wire h D)"
      using ok(4,5) l r(5) by simp_all
    ultimately show ?thesis using r(1) p(1) ok(1) d by blast
  qed
qed

text \<open>The room a session needs: until the connection has failed, each frame must fit into the buffer
  behind the message assembled so far. Frames that arrive after a failure only have to be C objects.\<close>

fun fits :: "nat \<Rightarrow> driver \<Rightarrow> frame list \<Rightarrow> bool" where
  "fits cap d [] \<longleftrightarrow> True"
| "fits cap d ((h, D) # fs) \<longleftrightarrow>
     (if d_failed d then length (wire h D) < OBJ_MAX else length (d_msg d) + length (wire h D) \<le> cap) \<and>
     fits cap (snd (deliver d h D)) fs"

lemma recv_poll_failed:
  assumes "conn_wf c" and "failed c" and "length (wire h D) < OBJ_MAX"
  shows "\<exists>r c1 t c2 ev2. ws_conn_recv c (wire h D) (length (wire h D)) = Some (r, c1) \<and>
    ws_conn_poll c1 ev = Some (t, c2, ev2) \<and> conn_wf c2 \<and> failed c2 \<and> msg_cap c2 = msg_cap c \<and>
    deliver (dabs c) h D = (observe (t, c2, ev2), dabs c2)"
proof -
  obtain r c1 where r: "ws_conn_recv c (wire h D) (length (wire h D)) = Some (r, c1)"
    using recv_eq [OF assms(1) order_refl assms(3)] by (cases "msg_len c + rx_len c + length (wire h D) > msg_cap c") auto
  have c1: "conn_wf c1" "dabs c1 = dabs c" "msg_cap c1 = msg_cap c" using recv_wf [OF assms(1) _ assms(3) r] by auto
  then have "failed c1" using assms(2) dabs_simps(8) by metis
  then show ?thesis using r c1 assms(2) by (simp add: poll_failed deliver_def observe_def)
qed

lemma feed_frames_eq:
  assumes "conn_wf c" and "pending c = [] \<or> failed c" and "\<forall>(h, D) \<in> set fs. wf_frame h D"
    and "fits (msg_cap c) (dabs c) fs"
  shows "\<exists>c'. feed_frames c ev fs = Some (fst (deliver_all (dabs c) fs), c') \<and> conn_wf c' \<and>
    dabs c' = snd (deliver_all (dabs c) fs)"
  using assms
proof (induction c ev fs rule: feed_frames.induct)
  case (2 c ev h D fs)
  obtain r c1 t c2 ev2 where s: "ws_conn_recv c (wire h D) (length (wire h D)) = Some (r, c1)"
    "ws_conn_poll c1 ev = Some (t, c2, ev2)" "conn_wf c2" "pending c2 = [] \<or> failed c2"
    "msg_cap c2 = msg_cap c" "deliver (dabs c) h D = (observe (t, c2, ev2), dabs c2)"
  proof (cases "failed c")
    case True
    then show thesis using recv_poll_failed [OF 2(2) True, of h D ev] 2(5) that by auto
  next
    case False
    then have "msg_len c + rx_len c + length (wire h D) \<le> msg_cap c"
      using 2(3,5) wf_lengths [OF 2(2)] by simp
    then show thesis using recv_poll [OF 2(2) _ 2(3), of h D ev] 2(4) that by auto
  qed
  then obtain c3 where "feed_frames c2 ev2 fs = Some (fst (deliver_all (dabs c2) fs), c3)"
    "conn_wf c3" "dabs c3 = snd (deliver_all (dabs c2) fs)"
    using 2(1) [of "(r, c1)" r c1 "(t, c2, ev2)" t "(c2, ev2)" c2 ev2] 2(4,5) by fastforce
  then show ?case using s by (simp add: case_prod_unfold Let_def)
qed simp

text \<open>A session that fits into the buffer as a whole fits, and so does a repeated frame that leaves the
  protocol state as it is.\<close>

lemma deliver_msg_length: "length (d_msg (snd (deliver d h D))) \<le> length (d_msg d) + length D"
proof (cases rule: deliver_alternatives [where d = d and h = h and D = D])
  case 3
  then show ?thesis
    by (cases rule: deliver_close_alternatives [where d = d and D = D]) (simp_all add: violation_def)
next
  case 6
  then show ?thesis
    by (cases rule: deliver_data_alternatives [where d = d and op = "opcode h" and fn = "fin h" and D = D])
      (simp_all add: violation_def)
qed (simp_all add: violation_def)

lemma wire_size_fits:
  "length (d_msg d) + wire_size fs \<le> cap \<Longrightarrow> cap < OBJ_MAX \<Longrightarrow> fits cap d fs"
proof (induction cap d fs rule: fits.induct)
  case (2 cap d h D fs)
  have "length (d_msg (snd (deliver d h D))) + wire_size fs \<le> cap"
    using deliver_msg_length [of d h D] 2(2) by (simp add: length_wire)
  then show ?case using 2 by auto
qed simp

lemma repeated_frame:
  assumes "deliver d h D = (e, d)" and "\<not> d_failed d" and "length (d_msg d) + length (wire h D) \<le> cap"
  shows "fits cap d (replicate n (h, D))" "deliver_all d (replicate n (h, D)) = (replicate n e, d)"
  using assms by (induction n) simp_all

lemma recv_take:
  assumes "conn_wf c" and "len \<le> length bytes" and "length bytes < OBJ_MAX"
  shows "ws_conn_recv c bytes len = ws_conn_recv c (take len bytes) len"
  using recv_eq [OF assms] recv_eq [OF assms(1), of len "take len bytes"] assms(2,3) by simp

section \<open>Fragmented messages\<close>

definition frag_header :: "byte list \<Rightarrow> ws_opcode \<Rightarrow> bool \<Rightarrow> byte list \<Rightarrow> ws_frame_header" where
  "frag_header key op fn D = \<lparr>opcode = op, payload_len = word_of_nat (length D), mask_key = key,
     fin = fn, masked = True, rsv = 0\<rparr>"

text \<open>The frames of a message cut into the fragments \<open>Ds\<close> (RFC 6455 section 5.4).\<close>

fun frag_frames :: "byte list \<Rightarrow> ws_opcode \<Rightarrow> byte list list \<Rightarrow> frame list" where
  "frag_frames key op [] = []"
| "frag_frames key op [D] = [(frag_header key op True D, D)]"
| "frag_frames key op (D # Ds) = (frag_header key op False D, D) # frag_frames key WS_OP_CONT Ds"

lemma frag_frames_wf:
  assumes "length key = 4" and "op \<in> {WS_OP_CONT, WS_OP_TEXT, WS_OP_BIN}"
    and "\<forall>D \<in> set Ds. length D < OBJ_MAX"
  shows "\<forall>(h, D) \<in> set (frag_frames key op Ds). wf_frame h D"
proof -
  have f: "wf_frame (frag_header key op fn D) D"
    if "length key = 4" "op \<in> {WS_OP_CONT, WS_OP_TEXT, WS_OP_BIN}" "length D < OBJ_MAX" for key op fn D
    using that unat_of_len [of "length D"]
    by (auto simp: wf_frame_def wf_header_def frag_header_def classify_cases op_defs OBJ_MAX_def)
  show ?thesis
    using assms
    by (induction "key" op Ds rule: frag_frames.induct) (auto simp: f)
qed

lemma deliver_frags:
  assumes "d_state d = WS_OPEN \<or> d_state d = WS_CLOSING" and "\<not> d_failed d" and "Ds \<noteq> []"
    and "t = WS_FRAG_BIN \<or> is_utf8 (d_msg d @ concat Ds)" and "t \<noteq> WS_FRAG_NONE"
    and "op = WS_OP_CONT \<and> d_frag d = t \<or>
      d_frag d = WS_FRAG_NONE \<and> (op = WS_OP_BIN \<and> t = WS_FRAG_BIN \<or> op = WS_OP_TEXT \<and> t = WS_FRAG_TEXT)"
  shows "deliver_all d (frag_frames key op Ds) =
    (replicate (length Ds - 1) Nothing @
       [Message (if t = WS_FRAG_BIN then WS_OP_BIN else WS_OP_TEXT) (d_msg d @ concat Ds)],
     d\<lparr>d_frag := WS_FRAG_NONE, d_msg := []\<rparr>)"
  using assms
proof (induction key op Ds arbitrary: d rule: frag_frames.induct)
  case (2 key op D)
  then show ?case
    by (auto simp: deliver_def frag_header_def deliver_data_def op_defs)
next
  case (3 key op D D' Ds)
  let ?d = "d\<lparr>d_frag := t, d_msg := d_msg d @ D\<rparr>"
  have "deliver d (frag_header key op False D) D = (Nothing, ?d)"
    using 3(2,3,6,7) by (auto simp: deliver_def frag_header_def deliver_data_def op_defs)
  moreover have "deliver_all ?d (frag_frames key WS_OP_CONT (D' # Ds)) =
    (replicate (length (D' # Ds) - 1) Nothing @
       [Message (if t = WS_FRAG_BIN then WS_OP_BIN else WS_OP_TEXT) (d_msg ?d @ concat (D' # Ds))],
     ?d\<lparr>d_frag := WS_FRAG_NONE, d_msg := []\<rparr>)"
    by (rule 3(1)) (use 3(2-7) in auto)
  ultimately show ?case by simp
qed simp

section \<open>Facts about single polls\<close>

lemma left_over_length:
  "left_over e A F R P \<Longrightarrow> e \<noteq> Violation \<Longrightarrow> length P = length R"
  by (cases e) (simp_all add: left_over_def del: take_append drop_append)

lemma ev_kind_inv:
  "ev_kind e = WS_EV_ERROR \<longleftrightarrow> e = Violation" "ev_kind e = WS_EV_CLOSE \<longleftrightarrow> (\<exists>k. e = Closed k)"
  "ev_kind e = WS_EV_MESSAGE \<longleftrightarrow> (\<exists>op m. e = Message op m)"
  by (cases e; simp)+

lemma poll_shrinks:
  assumes "conn_wf c" and "ws_conn_poll c ev = Some (t, c', ev')"
  shows "msg_len c' + rx_len c' \<le> msg_len c + rx_len c \<and>
    (t \<in> {WS_EV_MESSAGE, WS_EV_PING, WS_EV_PONG, WS_EV_CLOSE} \<longrightarrow> rx_len c' + 2 \<le> rx_len c)"
  using assms(1)
proof (cases rule: poll_cases)
  case failed
  then show ?thesis using assms(2) by (auto simp: poll_failed)
next
  case (frame h D R)
  then have "poll_ok c h D R (t, c', ev')" using poll_frame [OF assms(1), of h D R ev] assms(2) by simp
  note ok = poll_okD [OF this]
  let ?e = "fst (deliver (dabs c) h D)"
  have rx: "rx_len c = length (encode_header h) + length D + length R" "rx_len c' = length (pending c')"
    using wf_lengths(1) [OF assms(1)] wf_lengths(1) [OF ok(1)] frame(3) by (simp_all add: length_wire)
  have "rx_len c' + 2 \<le> rx_len c" if "?e \<noteq> Violation"
    using left_over_length [OF ok(6) that] rx encode_header_min [of h] by linarith
  moreover have "?e = Violation \<Longrightarrow> t = WS_EV_ERROR" using ok(8) by simp
  ultimately show ?thesis using ok(5) by auto
next
  case incomplete
  then show ?thesis using poll_incomplete [OF assms(1)] assms(2) by auto
qed

lemma poll_event_in:
  assumes "conn_wf c" and "ws_conn_poll c ev = Some (t, c', ev')"
  shows "ev_in c' ev'"
  using assms(1)
proof (cases rule: poll_cases)
  case failed
  then show ?thesis using assms(2) ev_in_blank(1) [OF blank_clear] by (auto simp: poll_failed)
next
  case (frame h D R)
  then have "poll_ok c h D R (t, c', ev')" using poll_frame [OF assms(1), of h D R ev] assms(2) by simp
  then show ?thesis by (rule poll_okD)
next
  case incomplete
  then show ?thesis using poll_incomplete [OF assms(1)] assms(2) ev_in_blank(3) [OF blank_clear] by auto
qed

lemma poll_close_frame:
  assumes "conn_wf c" and "ws_conn_poll c ev = Some (WS_EV_CLOSE, c', ev')"
  shows "\<exists>h D. dabs c' = snd (deliver (dabs c) h D) \<and> fst (deliver (dabs c) h D) \<in> range Closed"
  using assms(1)
proof (cases rule: poll_cases)
  case failed
  then show ?thesis using assms(2) by (simp add: poll_failed)
next
  case (frame h D R)
  then have "poll_ok c h D R (WS_EV_CLOSE, c', ev')" using poll_frame [OF assms(1), of h D R ev] assms(2) by simp
  note ok = poll_okD [OF this]
  have "ev_kind (fst (deliver (dabs c) h D)) = WS_EV_CLOSE" using ok(8) by (rule sym)
  then show ?thesis using ok(3) by (auto simp: ev_kind_inv)
next
  case incomplete
  then show ?thesis using poll_incomplete [OF assms(1)] assms(2) by simp
qed

lemma no_frame_after_error:
  assumes "ws_parse_header P (length P) zero_header = Some (WS_ERR_PROTOCOL, h)" and "wf_frame h' D"
  shows "P @ X \<noteq> wire h' D @ R"
proof
  assume eq: "P @ X = wire h' D @ R"
  have wf: "wf_header h'" using assms(2) by (simp add: wf_frame_def)
  have e: "P @ X = encode_header h' @ wire_payload h' D @ R" using eq by (simp add: wire_def)
  have "ws_parse_header (P @ X) (length P) zero_header = Some (WS_ERR_PROTOCOL, h)"
    using parse_prefix_only [of "length P" P X] assms(1) by simp
  then have "fst (the (ws_parse_header (encode_header h' @ wire_payload h' D @ R) (length P) zero_header)) =
      WS_ERR_PROTOCOL" by (simp add: e)
  moreover have "length P \<le> length (encode_header h' @ wire_payload h' D @ R)" by (simp flip: e)
  ultimately show False
    using parse_complete [OF wf, of "length P" "wire_payload h' D @ R"]
    by (simp add: status_defs split: if_split_asm)
qed

section \<open>Properties\<close>

text \<open>Connections and arguments at which the hypotheses below are met.\<close>

definition demo_server :: ws_conn where
  "demo_server = ws_conn_open (ws_conn_init WS_ROLE_SERVER (replicate 64 0) 64)"

definition demo_client :: ws_conn where
  "demo_client = ws_conn_open (ws_conn_init WS_ROLE_CLIENT (replicate 64 0) 64)"

definition demo_event :: ws_event where
  "demo_event = \<lparr>ev_type = WS_EV_NONE, ev_op = 0, ev_data = None, ev_len = 0, ev_close_code = 0\<rparr>"

lemma demo_server_facts:
  "conn_init (ws_conn_init WS_ROLE_SERVER (replicate 64 0) 64)"
  "conn_wf demo_server" "\<not> failed demo_server" "pending demo_server = []" "asm demo_server = []"
  "state demo_server = WS_OPEN" "frag demo_server = WS_FRAG_NONE" "role demo_server = WS_ROLE_SERVER"
  "msg_len demo_server = 0" "rx_len demo_server = 0" "msg_cap demo_server = 64"
proof -
  let ?buf = "replicate 64 0 :: byte list"
  have b: "length ?buf < OBJ_MAX" "length ?buf = 64" by (simp_all add: OBJ_MAX_def)
  then show i: "conn_init (ws_conn_init WS_ROLE_SERVER ?buf 64)"
    unfolding conn_init_def by metis
  show "conn_wf demo_server"
    unfolding demo_server_def by (rule open_wf) (rule conn.inv_init [OF i])
qed (simp_all add: demo_server_def ws_conn_open_def ws_conn_init_def ws_lc_handshake_def
    pending_def asm_def)

lemma demo_client_facts: "state demo_client = WS_OPEN" "role demo_client = WS_ROLE_CLIENT"
  by (simp_all add: demo_client_def ws_conn_open_def ws_conn_init_def ws_lc_handshake_def)

lemma demo_reach: "conn_step\<^sup>*\<^sup>* (ws_conn_init WS_ROLE_SERVER (replicate 64 0) 64) demo_server"
  unfolding demo_server_def by (rule r_into_rtranclp) (rule conn_step.Open)

text \<open>C1. A session, of any length: when every reception brings one well-formed frame and is followed
  by a poll, and each frame fits into the buffer behind the message assembled so far, then the
  events and the protocol state are those the protocol assigns to the sequence of frames, including
  the latched error after the first violation; every call returns. The buffer bounds single
  messages, not the session.\<close>

theorem session_delivers:
  assumes "conn_wf c" and "pending c = []" and "\<forall>(h, D) \<in> set fs. wf_frame h D"
    and "fits (msg_cap c) (dabs c) fs"
  shows "\<exists>c'. feed_frames c ev fs = Some (fst (deliver_all (dabs c) fs), c') \<and> conn_wf c' \<and>
    dabs c' = snd (deliver_all (dabs c) fs)"
  using assms by (intro feed_frames_eq) simp_all

text \<open>Thirty messages of nine bytes through a buffer of 64.\<close>

definition demo_bin :: ws_frame_header where
  "demo_bin = \<lparr>opcode = WS_OP_BIN, payload_len = 3, mask_key = [1, 2, 3, 4], fin = True, masked = True, rsv = 0\<rparr>"

theorem session_delivers_witness:
  "\<exists>c'. feed_frames demo_server demo_event (replicate 30 (demo_bin, [7, 8, 9])) =
      Some (replicate 30 (Message WS_OP_BIN [7, 8, 9]), c') \<and>
    conn_wf c' \<and> dabs c' = dabs demo_server \<and> msg_cap demo_server = 64"
proof -
  have fr: "\<forall>(h, D) \<in> set (replicate 30 (demo_bin, [7, 8, 9])). wf_frame h D"
    by (simp add: wf_frame_def wf_header_def demo_bin_def classify_cases op_defs)
  have d: "deliver (dabs demo_server) demo_bin [7, 8, 9] = (Message WS_OP_BIN [7, 8, 9], dabs demo_server)"
    by (simp add: deliver_def deliver_data_def demo_bin_def demo_server_facts op_defs dabs_def Let_def)
  have l: "length (d_msg (dabs demo_server)) + length (wire demo_bin [7, 8, 9]) \<le> msg_cap demo_server"
    by (simp add: demo_server_facts length_wire encode_header_def demo_bin_def len_ext_def)
  have nf: "\<not> d_failed (dabs demo_server)" by (simp add: demo_server_facts)
  show ?thesis
    using session_delivers [OF demo_server_facts(2,4) fr repeated_frame(1) [OF d nf l], of demo_event]
      demo_server_facts(11)
    unfolding repeated_frame(2) [OF d nf l] by simp
qed

text \<open>C15. A message sent as any number of fragments is delivered once, whole and in order: every
  fragment but the last yields no event, the last one yields the concatenation.\<close>

theorem fragments_reassembled:
  assumes "conn_wf c" and "\<not> failed c" and "ws_lc_active c" and "pending c = []"
    and "frag c = WS_FRAG_NONE" and "length key = 4" and "Ds \<noteq> []"
    and "op = WS_OP_BIN \<or> op = WS_OP_TEXT \<and> is_utf8 (concat Ds)"
    and "wire_size (frag_frames key op Ds) \<le> msg_cap c" and "\<forall>D \<in> set Ds. length D < OBJ_MAX"
  shows "\<exists>c'. feed_frames c ev (frag_frames key op Ds) =
      Some (replicate (length Ds - 1) Nothing @ [Message op (concat Ds)], c') \<and>
    conn_wf c' \<and> dabs c' = dabs c"
proof -
  have m0: "msg_len c = 0" using assms(1,5) by (simp add: conn_wf_def)
  then have m: "msg_len c = 0" "asm c = []" "rx_len c = 0"
    using assms(4) wf_lengths(1) [OF assms(1)] by (simp_all add: asm_def)
  have op: "op \<in> {WS_OP_CONT, WS_OP_TEXT, WS_OP_BIN}" using assms(8) by auto
  have "deliver_all (dabs c) (frag_frames key op Ds) =
    (replicate (length Ds - 1) Nothing @ [Message op (concat Ds)], dabs c)"
    using deliver_frags [of "dabs c" Ds "if op = WS_OP_BIN then WS_FRAG_BIN else WS_FRAG_TEXT" op key]
      assms(2,3,5,7,8) m(2)
    by (auto simp: ws_lc_active_def op_defs dabs_def)
  then show ?thesis
    using feed_frames_eq [OF assms(1) _ frag_frames_wf [OF assms(6) op assms(10)], of ev] assms(4)
      wire_size_fits [of "dabs c" "frag_frames key op Ds" "msg_cap c"] assms(1,9) m(2)
    by (simp add: conn_wf_def)
qed

theorem fragments_reassembled_witness:
  "\<exists>c'. feed_frames demo_server demo_event (frag_frames [1, 2, 3, 4] WS_OP_BIN [[0x48], [], [0x69, 0x21]]) =
      Some (replicate (length [[0x48], [], [0x69, 0x21 :: byte]] - 1) Nothing @
        [Message WS_OP_BIN (concat [[0x48], [], [0x69, 0x21]])], c') \<and>
    conn_wf c' \<and> dabs c' = dabs demo_server"
  by (rule fragments_reassembled)
    (simp_all add: demo_server_facts ws_lc_active_def frag_header_def length_wire encode_header_def
      len_ext_def OBJ_MAX_def)

text \<open>C4. Memory safety of the driver: in every reachable connection the buffer accounting is sound
  (the message and the pending bytes fit in the buffer), and no further poll or reception reads or
  writes outside it.\<close>

theorem reachable_safe:
  assumes "conn_init c0" and "conn_step\<^sup>*\<^sup>* c0 c" and "len \<le> length bytes" and "length bytes < OBJ_MAX"
  shows "length (msg_buf c) = msg_cap c \<and> msg_len c + rx_len c \<le> msg_cap c \<and>
    ws_conn_poll c ev \<noteq> None \<and> ws_conn_recv c bytes len \<noteq> None"
proof -
  have wf: "conn_wf c" using conn.inv_reachable [OF assms(1,2)] .
  then show ?thesis
    using poll_wf [OF wf, of ev] recv_eq [OF wf assms(3,4)] by (auto simp: conn_wf_def)
qed

theorem reachable_safe_witness:
  "length (msg_buf demo_server) = msg_cap demo_server \<and>
   msg_len demo_server + rx_len demo_server \<le> msg_cap demo_server \<and>
   ws_conn_poll demo_server demo_event \<noteq> None \<and> ws_conn_recv demo_server [0x81] 1 \<noteq> None"
  by (rule reachable_safe [OF demo_server_facts(1) demo_reach]) (simp_all add: OBJ_MAX_def)

text \<open>C16. The driver implements the lifecycle specification: every run of the public interface is a
  run of the TLA+ lifecycle, so its invariants hold (closed exactly when both Close halves are
  done, closing exactly when only ours is, fragments only while active).\<close>

theorem driver_simulates_lifecycle:
  assumes "conn_init c0" and "conn_step\<^sup>*\<^sup>* c0 c"
  shows "lcInit (lc_abs c0) \<and> lcNext\<^sup>*\<^sup>* (lc_abs c0) (lc_abs c) \<and>
    (state c = WS_CLOSED \<longleftrightarrow> sent_close c \<and> rcvd_close c) \<and>
    (state c = WS_CLOSING \<longleftrightarrow> sent_close c \<and> \<not> rcvd_close c) \<and>
    (frag c \<noteq> WS_FRAG_NONE \<longrightarrow> ws_lc_active c)"
proof -
  have a: "lcInit (lc_abs c0)" "lcNext\<^sup>*\<^sup>* (lc_abs c0) (lc_abs c)"
    using conn.sim_init [OF assms(1)] conn.sim_run [OF assms(2)] conn.inv_init [OF assms(1)] by auto
  have "lcInv (lc_abs c)" by (rule lc.inv_reachable [OF a])
  with a show ?thesis by (simp add: lcInv_def)
qed

theorem driver_simulates_lifecycle_witness:
  "lcInit (lc_abs (ws_conn_init WS_ROLE_SERVER (replicate 64 0) 64)) \<and>
   lcNext\<^sup>*\<^sup>* (lc_abs (ws_conn_init WS_ROLE_SERVER (replicate 64 0) 64)) (lc_abs demo_server) \<and>
   (state demo_server = WS_CLOSED \<longleftrightarrow> sent_close demo_server \<and> rcvd_close demo_server) \<and>
   (state demo_server = WS_CLOSING \<longleftrightarrow> sent_close demo_server \<and> \<not> rcvd_close demo_server)"
  using driver_simulates_lifecycle [OF demo_server_facts(1) demo_reach] by blast

text \<open>C24. Nothing is undone: along every run from a reachable connection the state only moves
  forward, a closed connection stays closed, and a failed one stays failed and answers every poll
  with the error.\<close>

theorem driver_monotone:
  assumes "conn_init c0" and "conn_step\<^sup>*\<^sup>* c0 c" and "conn_step\<^sup>*\<^sup>* c c'"
  shows "state c \<le> state c' \<and> (state c = WS_CLOSED \<longrightarrow> state c' = WS_CLOSED) \<and>
    (failed c \<longrightarrow> failed c' \<and> (\<exists>ev'. ws_conn_poll c' ev = Some (WS_EV_ERROR, c', ev')))"
proof -
  have wf: "conn_wf c" using conn.inv_reachable [OF assms(1,2)] .
  have "state c \<le> state c'" "failed c \<le> failed c'"
    using conn_state.rank_run [OF assms(3) wf] conn_failed.rank_run [OF assms(3) wf] by auto
  then show ?thesis using closed_is_top poll_failed by auto
qed

text \<open>A server that was sent an unmasked frame.\<close>

definition demo_unmasked :: ws_frame_header where
  "demo_unmasked = \<lparr>opcode = WS_OP_BIN, payload_len = 0, mask_key = [0, 0, 0, 0], fin = True, masked = False, rsv = 0\<rparr>"

theorem driver_monotone_witness:
  "\<exists>r c1 t c2 ev2 ev'. ws_conn_recv demo_server (wire demo_unmasked []) 2 = Some (r, c1) \<and>
    ws_conn_poll c1 demo_event = Some (t, c2, ev2) \<and> failed c2 \<and> state c2 \<le> state (ws_conn_open c2) \<and>
    failed (ws_conn_open c2) \<and> ws_conn_poll (ws_conn_open c2) demo_event = Some (WS_EV_ERROR, ws_conn_open c2, ev')"
proof -
  let ?W = "wire demo_unmasked []"
  have fr: "wf_frame demo_unmasked []"
    by (simp add: wf_frame_def wf_header_def demo_unmasked_def classify_cases op_defs)
  have l: "length ?W = 2" by (simp add: length_wire encode_header_def demo_unmasked_def len_ext_def)
  then have room: "msg_len demo_server + rx_len demo_server + length ?W \<le> msg_cap demo_server"
    by (simp add: demo_server_facts)
  obtain r c1 t c2 ev2 where p: "ws_conn_recv demo_server ?W (length ?W) = Some (r, c1)"
      "ws_conn_poll c1 demo_event = Some (t, c2, ev2)"
      "deliver (dabs demo_server) demo_unmasked [] = (observe (t, c2, ev2), dabs c2)"
    using recv_poll [OF demo_server_facts(2) fr disjI1 [OF demo_server_facts(4)] room, of demo_event] by blast
  have "deliver (dabs demo_server) demo_unmasked [] = violation (dabs demo_server)"
    by (simp add: deliver_def demo_unmasked_def demo_server_facts)
  then have f: "failed c2" using p(3) dabs_simps(8) [of c2] by (auto simp: violation_def)
  have "conn_step demo_server c1" by (rule conn_step.Recv [OF order_refl _ p(1)]) (simp add: l OBJ_MAX_def)
  moreover have "conn_step c1 c2" by (rule conn_step.Poll [OF p(2)])
  ultimately have c2: "conn_step\<^sup>*\<^sup>* (ws_conn_init WS_ROLE_SERVER (replicate 64 0) 64) c2"
    using demo_reach by (meson rtranclp.rtrancl_into_rtrancl)
  have "conn_step c2 (ws_conn_open c2)" by (rule conn_step.Open)
  then have "conn_step\<^sup>*\<^sup>* c2 (ws_conn_open c2)" by (rule r_into_rtranclp)
  from driver_monotone [OF demo_server_facts(1) c2 this, of demo_event] f p(1,2) l show ?thesis by auto
qed

text \<open>C14. End to end: a message sent by one endpoint and received by the other is delivered with
  the same opcode and the same bytes, in both directions (a server only takes it from a client,
  whose frames are masked with whatever key it has drawn).\<close>

theorem send_recv_roundtrip:
  assumes "ws_lc_active a" and "4 \<le> length key" and "op = WS_OP_BIN \<or> op = WS_OP_TEXT \<and> is_utf8 payload"
    and "14 + length payload \<le> cap" and "cap \<le> length out" and "length out < OBJ_MAX"
    and "conn_wf b" and "\<not> failed b" and "ws_lc_active b" and "pending b = []" and "frag b = WS_FRAG_NONE"
    and "role b = WS_ROLE_SERVER \<longrightarrow> role a = WS_ROLE_CLIENT" and "14 + length payload \<le> msg_cap b"
  shows "\<exists>n out' r b1 t b2 ev'. ws_send_message key a op payload (length payload) out cap = Some (n, out') \<and>
    n \<le> cap \<and> ws_conn_recv b out' n = Some (r, b1) \<and> ws_conn_poll b1 ev = Some (t, b2, ev') \<and>
    t = WS_EV_MESSAGE \<and> ev_op ev' = op \<and> ev_bytes b2 ev' = payload \<and> dabs b2 = dabs b"
proof -
  define h where "h = out_frame key (role a) op (length payload)"
  have op: "unat op < 16" "ws_classify_opcode (ucast op) = WS_CLASS_DATA"
    using assms(3) by (auto simp: op_defs classify_cases)
  have len: "length payload < OBJ_MAX" using assms(4-6) by linarith
  have fr: "wf_frame h payload"
    unfolding h_def by (rule out_frame_wf) (use assms(2) op len in auto)
  have hl: "length (encode_header h) \<le> 14"
    using fr by (intro length_encode_le) (simp add: wf_frame_def wf_header_def)
  let ?w = "wire h payload"
  have w: "length ?w = length (encode_header h) + length payload" by (rule length_wire)
  have send: "ws_send_message key a op payload (length payload) out cap = Some (length ?w, patch out 0 ?w)"
    using build_frame_eq [OF assms(2) op(1) order_refl len assms(5) _ h_def] assms(1,4-6) hl w
    by (simp add: ws_send_message_def)
  have pw: "take (length ?w) (patch out 0 ?w) = ?w" "length (patch out 0 ?w) = length out"
    using w hl assms(4,5) by (simp_all add: patch_def)
  have z: "msg_len b = 0" "rx_len b = 0"
    using assms(7,10,11) wf_lengths(1) [of b] by (simp_all add: conn_wf_def)
  obtain r b1 t b2 ev' where rp: "ws_conn_recv b ?w (length ?w) = Some (r, b1)"
      "ws_conn_poll b1 ev = Some (t, b2, ev')"
      "deliver (dabs b) h payload = (observe (t, b2, ev'), dabs b2)"
    using recv_poll [OF assms(7) fr, of ev] assms(10,13) z w hl by auto
  have "ws_conn_recv b (patch out 0 ?w) (length ?w) = Some (r, b1)"
    using recv_take [OF assms(7), of "length ?w" "patch out 0 ?w"] rp(1) pw w hl assms(4-6) by simp
  moreover have "deliver (dabs b) h payload = (Message op payload, dabs b)"
  proof -
    have m: "opcode h = op" "fin h" "role b = WS_ROLE_SERVER \<longrightarrow> masked h"
      using assms(12) by (simp_all add: h_def out_frame_def)
    have "asm b = []" using z by (simp add: asm_def)
    then show ?thesis
      using m assms(3,8,9,11)
      by (auto simp: deliver_def ws_lc_active_def op_defs deliver_data_def dabs_def)
  qed
  then have e: "observe (t, b2, ev') = Message op payload" "dabs b2 = dabs b" using rp(3) by simp_all
  then have "t = WS_EV_MESSAGE \<and> ev_op ev' = op \<and> ev_bytes b2 ev' = payload"
    by (cases t) (simp_all add: observe_def)
  ultimately show ?thesis
    using send rp(2) e(2) w hl assms(4) by (intro exI conjI) (assumption | linarith | auto)+
qed

theorem send_recv_roundtrip_witness:
  "\<exists>n out' r b1 t b2 ev'. ws_send_message [7, 8, 9, 10] demo_client WS_OP_BIN [1, 2, 3] (length [1, 2, 3 :: byte])
      (replicate 32 0) 32 = Some (n, out') \<and>
    n \<le> 32 \<and> ws_conn_recv demo_server out' n = Some (r, b1) \<and> ws_conn_poll b1 demo_event = Some (t, b2, ev') \<and>
    t = WS_EV_MESSAGE \<and> ev_op ev' = WS_OP_BIN \<and> ev_bytes b2 ev' = [1, 2, 3] \<and> dabs b2 = dabs demo_server"
  by (rule send_recv_roundtrip)
    (simp_all add: demo_server_facts demo_client_facts ws_lc_active_def OBJ_MAX_def)

text \<open>C25. What a poll may report (SINV1, SINV3, SINV4, SINV5, SINV7 and SINV8 of the stream
  requirements): the error exactly when the connection is then failed, a message only back at a
  message boundary, nothing but the error once failed, an empty assembly after a failure,
  assembly only while active, and a buffer that is never overfull.\<close>

theorem poll_invariants:
  assumes "conn_wf c" and "ws_conn_poll c ev = Some (t, c', ev')"
  shows "(t = WS_EV_ERROR \<longleftrightarrow> failed c') \<and> (failed c \<longrightarrow> t = WS_EV_ERROR) \<and>
    (t = WS_EV_MESSAGE \<longrightarrow> frag c' = WS_FRAG_NONE \<and> msg_len c' = 0) \<and>
    (failed c' \<longrightarrow> frag c' = WS_FRAG_NONE \<and> msg_len c' = 0) \<and>
    (frag c' \<noteq> WS_FRAG_NONE \<longrightarrow> ws_lc_active c') \<and> msg_len c' + rx_len c' \<le> msg_cap c'"
proof -
  have "conn_wf c'" using poll_wf [OF assms(1), of ev] assms(2) by auto
  then have i: "(failed c' \<longrightarrow> frag c' = WS_FRAG_NONE \<and> msg_len c' = 0) \<and>
    (frag c' \<noteq> WS_FRAG_NONE \<longrightarrow> ws_lc_active c') \<and> msg_len c' + rx_len c' \<le> msg_cap c'"
    "frag c' = WS_FRAG_NONE \<longrightarrow> msg_len c' = 0"
    using lcInv_active by (auto simp: conn_wf_def)
  have "(t = WS_EV_ERROR \<longleftrightarrow> failed c') \<and> (failed c \<longrightarrow> t = WS_EV_ERROR) \<and>
    (t = WS_EV_MESSAGE \<longrightarrow> frag c' = WS_FRAG_NONE)"
    using assms(1)
  proof (cases rule: poll_cases)
    case failed
    then show ?thesis using assms(2) by (auto simp: poll_failed)
  next
    case (frame h D R)
    then have "poll_ok c h D R (t, c', ev')" using poll_frame [OF assms(1), of h D R ev] assms(2) by simp
    note ok = poll_okD [OF this]
    have f: "failed c' = d_failed (snd (deliver (dabs c) h D))" "frag c' = d_frag (snd (deliver (dabs c) h D))"
      using arg_cong [OF ok(3), of d_failed] arg_cong [OF ok(3), of d_frag] by simp_all
    show ?thesis
      using frame(1) deliver_latched [of "dabs c" h D] deliver_message [of "dabs c" h D]
      unfolding f ok(8) by (auto simp: latched_def ev_kind_inv)
  next
    case incomplete
    then show ?thesis using poll_incomplete [OF assms(1)] assms(2) by auto
  qed
  with i show ?thesis by auto
qed

theorem poll_invariants_witness:
  "\<exists>t c' ev'. ws_conn_poll demo_server demo_event = Some (t, c', ev') \<and>
    (t = WS_EV_ERROR \<longleftrightarrow> failed c') \<and> (failed demo_server \<longrightarrow> t = WS_EV_ERROR) \<and>
    (t = WS_EV_MESSAGE \<longrightarrow> frag c' = WS_FRAG_NONE \<and> msg_len c' = 0) \<and>
    (failed c' \<longrightarrow> frag c' = WS_FRAG_NONE \<and> msg_len c' = 0) \<and>
    (frag c' \<noteq> WS_FRAG_NONE \<longrightarrow> ws_lc_active c') \<and> msg_len c' + rx_len c' \<le> msg_cap c'"
proof -
  obtain t c' ev' where "ws_conn_poll demo_server demo_event = Some (t, c', ev')"
    using poll_wf [OF demo_server_facts(2), of demo_event] by auto
  with poll_invariants [OF demo_server_facts(2) this] show ?thesis by blast
qed

text \<open>What \<open>ws_send_close\<close> does: from the open state the frame carries the code big-endian, masked for
  a client, and the connection moves to closing; when the frame does not fit, or in any other
  state, nothing is sent and the connection is unchanged.\<close>

lemma send_close_eq:
  assumes "4 \<le> length key" and "cap \<le> length out" and "cap < OBJ_MAX"
  shows "ws_send_close key c code out cap =
    (if state c \<noteq> WS_OPEN then Some (0, c, out)
     else let h = out_frame key (role c) WS_OP_CLOSE 2; n = length (encode_header h) in
       if n + 2 \<le> cap
       then Some (n + 2, c\<lparr>sent_close := True, state := WS_CLOSING\<rparr>,
         patch out 0 (wire h [ucast (drop_bit 8 code), ucast code]))
       else Some (0, c, if n \<le> cap then patch out 0 (encode_header h) else out))"
proof -
  have op: "unat WS_OP_CLOSE < 16" "2 < OBJ_MAX" by (simp_all add: op_defs OBJ_MAX_def)
  show ?thesis
    using build_frame_eq [OF assms(1) op(1) _ op(2) assms(2,3) refl,
        of "[ucast (drop_bit 8 code), ucast code]" c]
    by (simp add: ws_send_close_def ws_lc_send_close_def Let_def)
qed

lemma send_close_sent:
  "ws_send_close key c code out cap = Some (n, c', out') \<Longrightarrow> 0 < n \<Longrightarrow> state c' = WS_CLOSING"
  by (auto simp: ws_send_close_def ws_lc_send_close_def split: if_splits bind_splits prod.splits)

text \<open>C29. A connection sends at most one Close: in a run of the public calls from an initial
  connection, once \<open>ws_send_close\<close> has built a frame, no later call of it, after any further calls,
  builds another one; it returns 0 and leaves the connection and the buffer as they are.\<close>

theorem send_close_once:
  assumes "conn_init c0" and "conn_step\<^sup>*\<^sup>* c0 c" and "ws_send_close key c code out cap = Some (n, c1, out1)"
    and "0 < n" and "conn_step\<^sup>*\<^sup>* c1 c2"
  shows "ws_send_close key' c2 code' out' cap' = Some (0, c2, out')"
proof -
  have wf: "conn_wf c1" using conn.inv_reachable [OF assms(1,2)] send_close_wf assms(3) by blast
  have "WS_CLOSING \<le> state c2"
    using conn_state.rank_run [OF assms(5) wf] send_close_sent [OF assms(3,4)] by simp
  then have "state c2 \<noteq> WS_OPEN" by (auto simp: less_eq_ws_state_def)
  then show ?thesis by (simp add: ws_send_close_def)
qed

theorem send_close_once_witness:
  "\<exists>n c1 out1. ws_send_close [1, 2, 3, 4] demo_server 1000 (replicate 16 0) 16 = Some (n, c1, out1) \<and> 0 < n \<and>
    conn_step c1 (ws_conn_open c1) \<and>
    ws_send_close [1, 2, 3, 4] (ws_conn_open c1) 1001 (replicate 16 0) 16 = Some (0, ws_conn_open c1, replicate 16 0)"
proof -
  have h: "length (encode_header (out_frame [1, 2, 3, 4] WS_ROLE_SERVER WS_OP_CLOSE 2)) = 2"
    by (simp add: encode_header_def out_frame_def len_ext_def)
  obtain n c1 out1 where s: "ws_send_close [1, 2, 3, 4] demo_server 1000 (replicate 16 0) 16 = Some (n, c1, out1)" "0 < n"
    using send_close_eq [of "[1, 2, 3, 4]" 16 "replicate 16 0" demo_server 1000] h demo_server_facts(6,8)
    by (simp add: OBJ_MAX_def Let_def)
  have st: "conn_step c1 (ws_conn_open c1)" by (rule conn_step.Open)
  then have "conn_step\<^sup>*\<^sup>* c1 (ws_conn_open c1)" by (rule r_into_rtranclp)
  from send_close_once [OF demo_server_facts(1) demo_reach s this] s st show ?thesis by blast
qed

text \<open>C30. After the driver has reported the peer's Close the connection is closed and counts our own
  Close as sent, but \<open>ws_send_close\<close> and the other sending functions refuse to build any frame, so
  the Close reply the interface asks the caller for can never be produced.\<close>

theorem no_close_reply:
  assumes "conn_wf c" and "ws_conn_poll c ev = Some (WS_EV_CLOSE, c', ev')"
  shows "state c' = WS_CLOSED \<and> sent_close c' \<and> ws_send_close key c' code out cap = Some (0, c', out) \<and>
    ws_send_message key c' op payload len out cap = Some (0, out) \<and>
    ws_send_pong key c' payload len out cap = Some (0, out)"
proof -
  obtain h D where "dabs c' = snd (deliver (dabs c) h D)" "fst (deliver (dabs c) h D) \<in> range Closed"
    using poll_close_frame [OF assms] by blast
  then have "state c' = WS_CLOSED" "sent_close c'"
    using deliver_closed [of "dabs c" h D] dabs_simps(1,4) [of c'] by auto
  then show ?thesis
    by (simp add: ws_send_close_def ws_send_message_def ws_send_pong_def ws_lc_active_def)
qed

text \<open>A server that holds a masked Close frame with an empty body.\<close>

definition demo_closing :: ws_conn where
  "demo_closing = demo_conn\<lparr>msg_buf := [0x88, 0x80, 1, 2, 3, 4, 0, 0, 0, 0, 0, 0], rx_len := 6\<rparr>"

lemma demo_closing_poll: "\<exists>c' ev'. ws_conn_poll demo_closing demo_event = Some (WS_EV_CLOSE, c', ev')"
proof -
  let ?h = "\<lparr>opcode = WS_OP_CLOSE, payload_len = 0, mask_key = [1, 2, 3, 4], fin = True, masked = True, rsv = 0\<rparr>"
  have wf: "conn_wf demo_closing" "\<not> failed demo_closing"
    by (simp_all add: conn_wf_def demo_closing_def demo_conn_def OBJ_MAX_def lcInv_iff)
  have fr: "wf_frame ?h []" by (simp add: wf_frame_def wf_header_def op_defs)
  have p: "pending demo_closing = wire ?h [] @ []"
    by (simp add: pending_def demo_closing_def demo_conn_def wire_def wire_payload_def encode_header_def
        len7_def len_ext_def be_bytes_def mask_bytes_def op_defs)
  obtain t c' ev' where q: "ws_conn_poll demo_closing demo_event = Some (t, c', ev')"
      "poll_ok demo_closing ?h [] [] (t, c', ev')"
    using poll_frame [OF wf fr p] by (metis prod_cases3)
  have "fst (deliver (dabs demo_closing) ?h []) = Closed 0"
    by (simp add: deliver_def deliver_close_def close_body_def demo_closing_def demo_conn_def Let_def)
  then have "t = WS_EV_CLOSE" using poll_okD(8) [OF q(2)] by simp
  with q(1) show ?thesis by blast
qed

theorem no_close_reply_witness:
  "\<exists>c' ev'. ws_conn_poll demo_closing demo_event = Some (WS_EV_CLOSE, c', ev') \<and>
    state c' = WS_CLOSED \<and> sent_close c' \<and>
    ws_send_close [1, 2, 3, 4] c' 1000 (replicate 16 0) 16 = Some (0, c', replicate 16 0)"
proof -
  have wf: "conn_wf demo_closing"
    by (simp add: conn_wf_def demo_closing_def demo_conn_def OBJ_MAX_def lcInv_iff)
  obtain c' ev' where p: "ws_conn_poll demo_closing demo_event = Some (WS_EV_CLOSE, c', ev')"
    using demo_closing_poll by blast
  with no_close_reply [OF wf p] show ?thesis by blast
qed

text \<open>A connection that has received a header the parser refuses, and the steps that keep it so.\<close>

definition malformed :: "ws_conn \<Rightarrow> bool" where
  "malformed c \<longleftrightarrow> conn_wf c \<and> \<not> failed c \<and>
     (\<exists>P X h. pending c = P @ X \<and> ws_parse_header P (length P) zero_header = Some (WS_ERR_PROTOCOL, h))"

lemma malformed_poll:
  assumes "malformed c"
  shows "ws_conn_poll c ev = Some (WS_EV_NONE, c, clear_event ev)"
proof -
  have c: "conn_wf c" "\<not> failed c" using assms by (simp_all add: malformed_def)
  have "\<not> (\<exists>h D R. wf_frame h D \<and> pending c = wire h D @ R)"
    using assms no_frame_after_error unfolding malformed_def by metis
  then show ?thesis by (rule poll_incomplete [OF c])
qed

lemma malformed_more:
  assumes "malformed c" and "conn_wf c'" and "failed c' = failed c" and "pending c' = pending c @ Y"
  shows "malformed c'"
  using assms unfolding malformed_def by (metis append_assoc)

lemma malformed_recv:
  assumes "malformed c" and "len \<le> length bytes" and "length bytes < OBJ_MAX" and "ws_conn_recv c bytes len = Some (r, c')"
  shows "malformed c'"
proof -
  have wf: "conn_wf c" using assms(1) by (simp add: malformed_def)
  have c': "conn_wf c'" "dabs c' = dabs c" using recv_wf [OF wf assms(2-4)] by blast+
  have "failed c' = failed c" using c'(2) dabs_simps(8) by metis
  moreover have "\<exists>Y. pending c' = pending c @ Y"
    using recv_accepts [OF wf assms(2,3)] recv_eq [OF wf assms(2,3)] assms(4)
    by (cases "msg_len c + rx_len c + len \<le> msg_cap c") auto
  ultimately show ?thesis using malformed_more [OF assms(1) c'(1)] by blast
qed

lemma malformed_step: "conn_step c c' \<Longrightarrow> malformed c \<Longrightarrow> malformed c'"
proof (induction rule: conn_step.induct)
  case (Open c)
  have "conn_wf (ws_conn_open c)" using Open open_wf by (simp add: malformed_def)
  then show ?case
    using malformed_more [OF Open, of "ws_conn_open c" "[]"]
    by (simp add: ws_conn_open_def ws_lc_handshake_def pending_def)
next
  case (Recv len bytes c r c')
  then show ?case using malformed_recv by blast
next
  case (Poll c ev t c' ev')
  then show ?case using malformed_poll [of c ev] by simp
next
  case (Send_Close key c code out cap n c' out')
  have "conn_wf c" using Send_Close(2) by (simp add: malformed_def)
  then have "conn_wf c'" using Send_Close(1) by (rule send_close_wf)
  moreover have "failed c' = failed c" "pending c' = pending c @ []"
    using send_close_conn [OF Send_Close(1)] by (auto simp: pending_def)
  ultimately show ?case by (rule malformed_more [OF Send_Close(2)])
qed

text \<open>C31. A malformed header is never reported: once the parser answers the pending bytes with a
  protocol error, then after any further calls, receptions included, every poll returns no event
  and leaves the connection as it is.\<close>

theorem malformed_header_stalls:
  assumes "conn_wf c" and "\<not> failed c"
    and "ws_parse_header (pending c) (rx_len c) zero_header = Some (WS_ERR_PROTOCOL, h)"
    and "conn_step\<^sup>*\<^sup>* c c'"
  shows "ws_conn_poll c' ev = Some (WS_EV_NONE, c', clear_event ev)"
proof -
  have "malformed c" unfolding malformed_def
    using assms(1-3) wf_lengths(1) [OF assms(1)] by (metis append_Nil2)
  with assms(4) have "malformed c'" by (induction rule: rtranclp_induct) (auto intro: malformed_step)
  then show ?thesis by (rule malformed_poll)
qed

text \<open>A server that holds a header with a reserved bit set.\<close>

definition demo_malformed :: ws_conn where
  "demo_malformed = demo_conn\<lparr>msg_buf := [0xC1, 0x80, 0, 0, 0, 0, 0, 0, 0, 0, 0, 0], rx_len := 2\<rparr>"

lemma demo_malformed_parse:
  "\<exists>h. ws_parse_header [0xC1, 0x80] 2 zero_header = Some (WS_ERR_PROTOCOL, h)"
  by (simp add: ws_parse_header_def decode_len_def finish_parse_def fill_fields_def ext_bytes_def
      raw_len_def len_ok_def header_well_formed_def zero_header_def)

theorem malformed_header_stalls_witness:
  "\<exists>r c'. ws_conn_recv demo_malformed [1, 2, 3, 4] 4 = Some (r, c') \<and> pending c' = [0xC1, 0x80, 1, 2, 3, 4] \<and>
    ws_conn_poll c' demo_event = Some (WS_EV_NONE, c', clear_event demo_event)"
proof -
  have wf: "conn_wf demo_malformed"
    by (simp add: conn_wf_def demo_malformed_def demo_conn_def OBJ_MAX_def lcInv_iff)
  have nf: "\<not> failed demo_malformed" and room: "msg_len demo_malformed + rx_len demo_malformed + 4 \<le> msg_cap demo_malformed"
    and p: "pending demo_malformed = [0xC1, 0x80]"
    by (simp_all add: demo_malformed_def demo_conn_def pending_def)
  obtain h where h: "ws_parse_header (pending demo_malformed) (rx_len demo_malformed) zero_header =
      Some (WS_ERR_PROTOCOL, h)"
    using demo_malformed_parse by (auto simp: demo_malformed_def demo_conn_def pending_def)
  have b: "4 \<le> length [1, 2, 3, 4 :: byte]" "length [1, 2, 3, 4 :: byte] < OBJ_MAX" by (simp_all add: OBJ_MAX_def)
  obtain r c' where r: "ws_conn_recv demo_malformed [1, 2, 3, 4] 4 = Some (r, c')" "pending c' = [0xC1, 0x80, 1, 2, 3, 4]"
    using recv_accepts [OF wf b room] p by auto
  have "conn_step\<^sup>*\<^sup>* demo_malformed c'" by (rule r_into_rtranclp, rule conn_step.Recv [OF b r(1)])
  from malformed_header_stalls [OF wf nf h this] r show ?thesis by blast
qed

end
