(* ===== verification/Server.thy ===== *)
theory Server
  imports Kernel Session
begin

text \<open>
  The epoll server of \<^verbatim>\<open>src/io/io_posix.c\<close>: the fixed pool of connections, the accept path, the
  upgrade, the frame pump and the event loop. A pointer to a slot, or to the connection in it, is
  the slot's index in the pool; the event handler, which the user of the library supplies, is the
  parameter \<open>H\<close> (the field \<^verbatim>\<open>on_event\<close> of \<^verbatim>\<open>struct ws_io\<close>) and may change the server and the
  world. The \<open>msg_buf\<close> array of a slot is handed to the driver when the connection opens; from then
  on its contents are the \<open>msg_buf\<close> of the connection.
\<close>

section \<open>The pool\<close>

definition WS_IO_MAX_CONNS :: nat where "WS_IO_MAX_CONNS = 64"

record ws_slot =
  fd :: int
  used :: bool
  opened :: bool
  conn :: ws_conn
  slot_buf :: "byte list"
  hsbuf :: "byte list"
  hslen :: size_t

record ws_io =
  listen_fd :: int
  epoll_fd :: int
  io_role :: ws_role
  conns :: "ws_slot list"

text \<open>The all-zero connection and the slot literal \<^verbatim>\<open>(ws_slot){.fd = cfd, .used = true}\<close>.\<close>

definition zero_conn :: ws_conn where
  "zero_conn = \<lparr>state = WS_CONNECTING, frag = WS_FRAG_NONE, role = WS_ROLE_SERVER, sent_close = False,
     rcvd_close = False, msg_buf = [], msg_cap = 0, msg_len = 0, rx_len = 0, close_code = 0, failed = False\<rparr>"

definition fresh_slot :: "int \<Rightarrow> ws_slot" where
  "fresh_slot cfd = \<lparr>fd = cfd, used = True, opened = False, conn = zero_conn,
     slot_buf = replicate WS_MAX_MESSAGE 0, hsbuf = replicate 2048 0, hslen = 0\<rparr>"

text \<open>The three lookups are the same loop with another test: the first slot from \<open>i\<close> on that passes;
  the inner option is the pointer, with \<open>None\<close> for \<^verbatim>\<open>NULL\<close>.\<close>

function scan :: "(nat \<Rightarrow> ws_slot \<Rightarrow> bool) \<Rightarrow> ws_slot list \<Rightarrow> nat \<Rightarrow> nat option option" where
  "scan P cs i =
     (if i < WS_IO_MAX_CONNS then do {
        s \<leftarrow> load cs i;
        if P i s then Some (Some i) else scan P cs (Suc i)
      } else Some None)"
  by pat_completeness auto
termination
  by (relation "measure (\<lambda>(P, cs, i). WS_IO_MAX_CONNS - i)") auto

declare scan.simps [simp del]

definition alloc_slot :: "ws_io \<Rightarrow> nat option option" where
  "alloc_slot io = scan (\<lambda>_ s. \<not> used s) (conns io) 0"

definition slot_has_fd :: "ws_slot \<Rightarrow> int \<Rightarrow> bool" where
  "slot_has_fd s d = (if \<not> used s then False else fd s = d)"

definition slot_has_conn :: "nat \<Rightarrow> ws_slot \<Rightarrow> nat \<Rightarrow> bool" where
  "slot_has_conn i s c = (if \<not> used s then False else i = c)"

definition slot_by_fd :: "ws_io \<Rightarrow> int \<Rightarrow> nat option option" where
  "slot_by_fd io d = scan (\<lambda>_ s. slot_has_fd s d) (conns io) 0"

definition slot_by_conn :: "ws_io \<Rightarrow> nat \<Rightarrow> nat option option" where
  "slot_by_conn io c = scan (\<lambda>i s. slot_has_conn i s c) (conns io) 0"

definition set_slot :: "ws_io \<Rightarrow> nat \<Rightarrow> ws_slot \<Rightarrow> ws_io" where
  "set_slot io i s = io\<lparr>conns := (conns io)[i := s]\<rparr>"

definition slot_close :: "'w kernel \<Rightarrow> ws_io \<Rightarrow> nat \<Rightarrow> 'w \<Rightarrow> (ws_io \<times> 'w) option" where
  "slot_close K io i w = do {
     s \<leftarrow> load (conns io) i;
     let (_, w1) = k_epoll_ctl K (epoll_fd io) EPOLL_CTL_DEL (fd s) None w;
     let w2 = sys_close K (fd s) w1;
     Some (set_slot io i (s\<lparr>used := False\<rparr>), w2)
   }"

section \<open>Sending\<close>

definition send_built :: "'w kernel \<Rightarrow> ws_io \<Rightarrow> nat \<Rightarrow> size_t \<Rightarrow> byte list \<Rightarrow> 'w \<Rightarrow> (int \<times> 'w) option" where
  "send_built K io c n out w = do {
     p \<leftarrow> slot_by_conn io c;
     (case p of None \<Rightarrow> Some (-1, w)
      | Some i \<Rightarrow> if n = 0 then Some (-1, w)
                  else do { s \<leftarrow> load (conns io) i; write_all K (fd s) out n w })
   }"

text \<open>The stack buffers \<^verbatim>\<open>out\<close> start with unspecified contents; only the bytes written into them
  are sent, so they start as zeros here. \<open>key\<close> is the client's mask key.\<close>

definition ws_io_send_message ::
    "'w kernel \<Rightarrow> byte list \<Rightarrow> ws_io \<Rightarrow> nat \<Rightarrow> ws_opcode \<Rightarrow> byte list \<Rightarrow> size_t \<Rightarrow> 'w \<Rightarrow> (int \<times> 'w) option" where
  "ws_io_send_message K key io c op payload len w = do {
     s \<leftarrow> load (conns io) c;
     (n, out) \<leftarrow> ws_send_message key (conn s) op payload len (replicate (WS_MAX_MESSAGE + 16) 0) (WS_MAX_MESSAGE + 16);
     send_built K io c n out w
   }"

definition ws_io_send_pong ::
    "'w kernel \<Rightarrow> byte list \<Rightarrow> ws_io \<Rightarrow> nat \<Rightarrow> byte list \<Rightarrow> size_t \<Rightarrow> 'w \<Rightarrow> (int \<times> 'w) option" where
  "ws_io_send_pong K key io c payload len w = do {
     s \<leftarrow> load (conns io) c;
     (n, out) \<leftarrow> ws_send_pong key (conn s) payload len (replicate (WS_MAX_MESSAGE + 16) 0) (WS_MAX_MESSAGE + 16);
     send_built K io c n out w
   }"

definition ws_io_send_close ::
    "'w kernel \<Rightarrow> byte list \<Rightarrow> ws_io \<Rightarrow> nat \<Rightarrow> uint16 \<Rightarrow> 'w \<Rightarrow> (int \<times> ws_io \<times> 'w) option" where
  "ws_io_send_close K key io c code w = do {
     s \<leftarrow> load (conns io) c;
     (n, c', out) \<leftarrow> ws_send_close key (conn s) code (replicate 32 0) 32;
     let io' = set_slot io c (s\<lparr>conn := c'\<rparr>);
     (r, w') \<leftarrow> send_built K io' c n out w;
     Some (r, io', w')
   }"

section \<open>Accepting\<close>

definition on_accept :: "'w kernel \<Rightarrow> ws_io \<Rightarrow> 'w \<Rightarrow> (ws_io \<times> 'w) option" where
  "on_accept K io w = (
     let (cfd, w1) = k_accept K (listen_fd io) w in
     if cfd < 0 then Some (io, w1)
     else do {
       p \<leftarrow> alloc_slot io;
       (case p of None \<Rightarrow> Some (io, sys_close K (long_to_int cfd) w1)
        | Some i \<Rightarrow>
            let io' = set_slot io i (fresh_slot (long_to_int cfd));
                (_, w2) = epoll_add K (epoll_fd io) (long_to_int cfd) w1
            in Some (io', w2))
     })"

section \<open>The frame pump\<close>

type_synonym 'w handler = "ws_io \<Rightarrow> nat \<Rightarrow> ws_event \<Rightarrow> 'w \<Rightarrow> (ws_io \<times> 'w) option"

definition is_terminal :: "ws_event_type \<Rightarrow> bool" where
  "is_terminal t \<longleftrightarrow> t = WS_EV_CLOSE \<or> t = WS_EV_ERROR"

text \<open>\<open>None\<close> also stands for a loop that does not end. The event variable is overwritten by every
  poll; \<open>ev\<close> is what it held before.\<close>

partial_function (option) drain_events ::
    "'w handler \<Rightarrow> ws_io \<Rightarrow> nat \<Rightarrow> ws_event \<Rightarrow> 'w \<Rightarrow> (int \<times> ws_io \<times> 'w) option" where
  "drain_events H io i ev w = do {
     s \<leftarrow> load (conns io) i;
     (t, c', ev') \<leftarrow> ws_conn_poll (conn s) ev;
     let io1 = set_slot io i (s\<lparr>conn := c'\<rparr>);
     if t = WS_EV_NONE then Some (0, io1, w)
     else do {
       (io2, w2) \<leftarrow> H io1 i ev' w;
       if is_terminal (ev_type ev') then Some (1, io2, w2)
       else drain_events H io2 i ev' w2
     }
   }"

definition feed ::
    "'w handler \<Rightarrow> ws_io \<Rightarrow> nat \<Rightarrow> byte list \<Rightarrow> size_t \<Rightarrow> ws_event \<Rightarrow> 'w \<Rightarrow> (int \<times> ws_io \<times> 'w) option" where
  "feed H io i bytes len ev w = do {
     s \<leftarrow> load (conns io) i;
     (r, c') \<leftarrow> (if len > 0 then ws_conn_recv (conn s) bytes len else Some (0, conn s));
     let io1 = set_slot io i (s\<lparr>conn := c'\<rparr>);
     if len > 0 \<and> r < 0 then Some (1, io1, w)
     else drain_events H io1 i ev w
   }"

section \<open>The upgrade\<close>

text \<open>\<open>S\<close> gives the contents of the uninitialised stack: the key array, the concatenation buffer,
  the accept array, the chunk array and the event variable.\<close>

record stack =
  st_key :: "byte list"
  st_cat :: "byte list"
  st_accept :: "byte list"
  st_chunk :: "byte list"
  st_event :: ws_event

definition finish_handshake ::
    "'w kernel \<Rightarrow> 'w handler \<Rightarrow> stack \<Rightarrow> ws_io \<Rightarrow> nat \<Rightarrow> int \<Rightarrow> 'w \<Rightarrow> (int \<times> ws_io \<times> 'w) option" where
  "finish_handshake K H S io i body_at w = do {
     s \<leftarrow> load (conns io) i;
     (rc, accept) \<leftarrow> compute_accept (st_key S) (st_cat S) (hsbuf s) (nat body_at)
       (take 28 (st_accept S @ replicate 28 0));
     if rc \<noteq> 0 then Some (1, io, w)
     else do {
       (r, w1) \<leftarrow> send_accept K (fd s) accept w;
       if r \<noteq> 0 then Some (1, io, w1)
       else do {
         let c = ws_conn_open (ws_conn_init (io_role io) (slot_buf s) (length (slot_buf s)));
         let io1 = set_slot io i (s\<lparr>conn := c, opened := True\<rparr>);
         let off = size_add (nat body_at) 4;
         feed H io1 i (drop off (hsbuf s)) (size_sub (hslen s) off) (st_event S) w1
       }
     }
   }"

definition handshake_step ::
    "'w kernel \<Rightarrow> 'w handler \<Rightarrow> stack \<Rightarrow> ws_io \<Rightarrow> nat \<Rightarrow> 'w \<Rightarrow> (int \<times> ws_io \<times> 'w) option" where
  "handshake_step K H S io i w = do {
     s \<leftarrow> load (conns io) i;
     at \<leftarrow> find_sub (hsbuf s) (hslen s) (crlf @ crlf @ [0]);
     if at < 0 then Some (if hslen s \<ge> length (hsbuf s) then 1 else 0, io, w)
     else finish_handshake K H S io i at w
   }"

definition on_handshake_data ::
    "'w kernel \<Rightarrow> 'w handler \<Rightarrow> stack \<Rightarrow> ws_io \<Rightarrow> nat \<Rightarrow> 'w \<Rightarrow> (int \<times> ws_io \<times> 'w) option" where
  "on_handshake_data K H S io i w = do {
     s \<leftarrow> load (conns io) i;
     (r, hs, w1) \<leftarrow> sys_read K (fd s) (hsbuf s) (hslen s) (size_sub (length (hsbuf s)) (hslen s)) w;
     let s1 = s\<lparr>hsbuf := hs\<rparr>;
     if r \<le> 0 then Some (1, set_slot io i s1, w1)
     else handshake_step K H S (set_slot io i (s1\<lparr>hslen := size_add (hslen s1) (nat r)\<rparr>)) i w1
   }"

definition on_client_data ::
    "'w kernel \<Rightarrow> 'w handler \<Rightarrow> stack \<Rightarrow> ws_io \<Rightarrow> nat \<Rightarrow> 'w \<Rightarrow> (int \<times> ws_io \<times> 'w) option" where
  "on_client_data K H S io i w = do {
     s \<leftarrow> load (conns io) i;
     if \<not> opened s then on_handshake_data K H S io i w
     else do {
       (r, chunk, w1) \<leftarrow> sys_read K (fd s) (take 4096 (st_chunk S @ replicate 4096 0)) 0 4096 w;
       if r \<le> 0 then Some (1, io, w1)
       else feed H io i chunk (nat r) (st_event S) w1
     }
   }"

section \<open>The event loop\<close>

definition service_client :: "'w kernel \<Rightarrow> 'w handler \<Rightarrow> stack \<Rightarrow> ws_io \<Rightarrow> nat \<Rightarrow> 'w \<Rightarrow> (ws_io \<times> 'w) option" where
  "service_client K H S io i w = do {
     (r, io1, w1) \<leftarrow> on_client_data K H S io i w;
     if r \<noteq> 0 then slot_close K io1 i w1 else Some (io1, w1)
   }"

definition on_readable :: "'w kernel \<Rightarrow> 'w handler \<Rightarrow> stack \<Rightarrow> ws_io \<Rightarrow> int \<Rightarrow> 'w \<Rightarrow> (ws_io \<times> 'w) option" where
  "on_readable K H S io d w =
     (if d = listen_fd io then on_accept K io w
      else do {
        p \<leftarrow> slot_by_fd io d;
        (case p of Some i \<Rightarrow> service_client K H S io i w | None \<Rightarrow> Some (io, w))
      })"

text \<open>One round of \<^verbatim>\<open>run_loop\<close>: the events reported by one \<^verbatim>\<open>epoll_wait\<close>, in order; the loop itself
  never ends, \<open>run_rounds n\<close> is its first \<open>n\<close> rounds. A report that does not fit into the array of
  65 events, or a count beyond what was reported, is \<open>None\<close>.\<close>

fun serve_events :: "'w kernel \<Rightarrow> 'w handler \<Rightarrow> stack \<Rightarrow> epoll_event list \<Rightarrow> ws_io \<Rightarrow> 'w \<Rightarrow> (ws_io \<times> 'w) option" where
  "serve_events K H S [] io w = Some (io, w)"
| "serve_events K H S (e # es) io w = do {
     (io1, w1) \<leftarrow> on_readable K H S io (sint (ucast (ep_data e) :: 32 word)) w;
     serve_events K H S es io1 w1
   }"

definition loop_round :: "'w kernel \<Rightarrow> 'w handler \<Rightarrow> stack \<Rightarrow> ws_io \<Rightarrow> 'w \<Rightarrow> (ws_io \<times> 'w) option" where
  "loop_round K H S io w = (
     let (n, evs, w1) = k_epoll_wait K (epoll_fd io) (WS_IO_MAX_CONNS + 1) w in
     if length evs \<le> WS_IO_MAX_CONNS + 1 \<and> n \<le> int (length evs)
     then serve_events K H S (take (nat n) evs) io w1 else None)"

fun run_rounds :: "nat \<Rightarrow> 'w kernel \<Rightarrow> 'w handler \<Rightarrow> stack \<Rightarrow> ws_io \<Rightarrow> 'w \<Rightarrow> (ws_io \<times> 'w) option" where
  "run_rounds 0 K H S io w = Some (io, w)"
| "run_rounds (Suc n) K H S io w = do { (io1, w1) \<leftarrow> loop_round K H S io w; run_rounds n K H S io1 w1 }"

section \<open>Set-up\<close>

definition open_listener :: "'w kernel \<Rightarrow> ws_io \<Rightarrow> uint16 \<Rightarrow> 'w \<Rightarrow> int \<times> ws_io \<times> 'w" where
  "open_listener K io port w = (
     let (r, w1) = k_socket K AF_INET SOCK_STREAM 0 w;
         io1 = io\<lparr>listen_fd := long_to_int r\<rparr>
     in if listen_fd io1 < 0 then (WS_IO_ERR_SOCKET, io1, w1)
        else let (rc, w2) = bind_then_listen K (listen_fd io1) port w1 in (rc, io1, w2))"

definition open_epoll :: "'w kernel \<Rightarrow> ws_io \<Rightarrow> 'w \<Rightarrow> int \<times> ws_io \<times> 'w" where
  "open_epoll K io w = (
     let (r, w1) = k_epoll_create1 K 0 w;
         io1 = io\<lparr>epoll_fd := long_to_int r\<rparr>
     in if epoll_fd io1 < 0 then (WS_IO_ERR_EPOLL, io1, w1)
        else let (r2, w2) = epoll_add K (epoll_fd io1) (listen_fd io1) w1
          in (if r2 < 0 then WS_IO_ERR_EPOLL else 0, io1, w2))"

definition io_setup :: "'w kernel \<Rightarrow> ws_io \<Rightarrow> uint16 \<Rightarrow> 'w \<Rightarrow> int \<times> ws_io \<times> 'w" where
  "io_setup K io port w = (
     let (rc, io1, w1) = open_listener K io port w in
     if rc \<noteq> 0 then (rc, io1, w1) else open_epoll K io1 w1)"

text \<open>The static \<^verbatim>\<open>ws_io\<close> starts as zeros.\<close>

definition zero_slot :: ws_slot where
  "zero_slot = (fresh_slot 0)\<lparr>used := False\<rparr>"

definition zero_io :: "ws_role \<Rightarrow> ws_io" where
  "zero_io r = \<lparr>listen_fd = 0, epoll_fd = 0, io_role = r, conns = replicate WS_IO_MAX_CONNS zero_slot\<rparr>"

text \<open>\<open>Inl rc\<close> is the return of a failed set-up, \<open>Inr\<close> the server after \<open>n\<close> rounds of its loop.\<close>

definition ws_serve ::
    "'w kernel \<Rightarrow> 'w handler \<Rightarrow> stack \<Rightarrow> nat \<Rightarrow> uint16 \<Rightarrow> ws_role \<Rightarrow> 'w \<Rightarrow> (int \<times> 'w + ws_io \<times> 'w) option" where
  "ws_serve K H S n port r w = (
     let (rc, io, w1) = io_setup K (zero_io r) port w in
     if rc \<noteq> 0 then Some (Inl (rc, w1))
     else do { p \<leftarrow> run_rounds n K H S io w1; Some (Inr p) })"

definition strerror_msg :: "string list" where
  "strerror_msg = [''ok'', ''socket() failed'', ''bind() failed (port already in use?)'', ''listen() failed'',
     ''epoll setup failed'']"

definition ws_io_strerror :: "int \<Rightarrow> string option" where
  "ws_io_strerror rc = (
     let idx = (if rc \<le> 0 \<and> rc \<ge> WS_IO_ERR_EPOLL then nat (- rc) else 0) in load strerror_msg idx)"

section \<open>The pool invariant\<close>

definition slot_wf :: "ws_slot \<Rightarrow> bool" where
  "slot_wf s \<longleftrightarrow> length (hsbuf s) = 2048 \<and> hslen s \<le> 2048 \<and> length (slot_buf s) = WS_MAX_MESSAGE \<and>
     (opened s \<longrightarrow> conn_wf (conn s) \<and> msg_cap (conn s) = WS_MAX_MESSAGE)"

definition pool_wf :: "ws_io \<Rightarrow> bool" where
  "pool_wf io \<longleftrightarrow> length (conns io) = WS_IO_MAX_CONNS \<and> (\<forall>s \<in> set (conns io). slot_wf s)"

lemma pool_slot: "pool_wf io \<Longrightarrow> i < WS_IO_MAX_CONNS \<Longrightarrow> load (conns io) i = Some (conns io ! i)"
  "pool_wf io \<Longrightarrow> i < WS_IO_MAX_CONNS \<Longrightarrow> slot_wf (conns io ! i)"
  by (simp_all add: pool_wf_def)

lemma set_slot_wf: "pool_wf io \<Longrightarrow> slot_wf s \<Longrightarrow> pool_wf (set_slot io i s)"
  using set_update_subset_insert [of "conns io" i s] by (auto simp: pool_wf_def set_slot_def)

lemma set_slot_simps [simp]:
  "listen_fd (set_slot io i s) = listen_fd io" "epoll_fd (set_slot io i s) = epoll_fd io"
  "io_role (set_slot io i s) = io_role io" "conns (set_slot io i s) = (conns io)[i := s]"
  by (simp_all add: set_slot_def)

lemma set_slot_nth:
  "pool_wf io \<Longrightarrow> i < WS_IO_MAX_CONNS \<Longrightarrow> conns (set_slot io i s) ! j = (if j = i then s else conns io ! j)"
  by (simp add: pool_wf_def nth_list_update)

lemma fresh_slot_wf [simp]: "slot_wf (fresh_slot d)"
  by (simp add: slot_wf_def fresh_slot_def)

lemma slot_wf_unused: "slot_wf s \<Longrightarrow> slot_wf (s\<lparr>used := b\<rparr>)"
  by (simp add: slot_wf_def)

lemma zero_io_wf: "pool_wf (zero_io r)"
  by (simp add: pool_wf_def zero_io_def zero_slot_def slot_wf_unused)

text \<open>The lookups find the first slot that passes the test, or nothing when there is none.\<close>

lemma scan_eq:
  assumes "length cs = WS_IO_MAX_CONNS"
  shows "scan P cs i = Some (if \<exists>j \<ge> i. j < WS_IO_MAX_CONNS \<and> P j (cs ! j)
    then Some (LEAST j. i \<le> j \<and> j < WS_IO_MAX_CONNS \<and> P j (cs ! j)) else None)"
  using assms
proof (induction P cs i rule: scan.induct)
  case (1 P cs i)
  let ?Q = "\<lambda>i j. i \<le> j \<and> j < WS_IO_MAX_CONNS \<and> P j (cs ! j)"
  show ?case
  proof (cases "i < WS_IO_MAX_CONNS")
    case True
    then have l: "load cs i = Some (cs ! i)" using 1(2) by simp
    show ?thesis
    proof (cases "P i (cs ! i)")
      case p: True
      have "(LEAST j. ?Q i j) = i" using True p by (intro Least_equality) auto
      then show ?thesis using True p l by (subst scan.simps) auto
    next
      case False
      then have e: "?Q i = ?Q (Suc i)" by (auto simp: Suc_le_eq le_less)
      have "scan P cs i = scan P cs (Suc i)"
        using True l False by (subst scan.simps) simp
      also have "\<dots> = Some (if Ex (?Q (Suc i)) then Some (Least (?Q (Suc i))) else None)"
        by (rule 1(1) [OF True l False 1(2)])
      also have "\<dots> = Some (if Ex (?Q i) then Some (Least (?Q i)) else None)"
        by (simp only: e)
      finally show ?thesis .
    qed
  next
    case False
    then show ?thesis by (subst scan.simps) auto
  qed
qed

end
