(* ===== verification/Pump.thy ===== *)
theory Pump
  imports Server
begin

text \<open>
  What the server's functions keep: the pool stays well-formed, no access leaves an object, every
  loop ends, descriptors and ownership of the slots are untouched while data is served. The event
  handler belongs to the user of the library; its contract is the locale \<open>event_handler\<close>, and the
  facts about the pump, the upgrade and the event loop are proved once under it.
\<close>

section \<open>What data traffic leaves unchanged\<close>

text \<open>The states of the world a sequence of reads and writes can lead to.\<close>

inductive traffic :: "'w kernel \<Rightarrow> 'w \<Rightarrow> 'w \<Rightarrow> bool" for K where
  Idle: "traffic K w w"
| Read: "traffic K w w' \<Longrightarrow> k_read K d n w' = (r, bs, w'') \<Longrightarrow> traffic K w w''"
| Write: "traffic K w w' \<Longrightarrow> k_write K d bs w' = (r, w'') \<Longrightarrow> traffic K w w''"

lemma traffic_trans:
  assumes "traffic K w w'" and "traffic K w' w''"
  shows "traffic K w w''"
  using assms(2,1) by (induction w' w'' rule: traffic.induct) (blast intro: traffic.intros)+

lemma returns_traffic:
  "traffic K w w' \<Longrightarrow> returns m (\<lambda>(r, w''). traffic K w' w'') \<Longrightarrow> returns m (\<lambda>(r, w''). traffic K w w'')"
  by (auto simp: returns_def intro: traffic_trans)

lemma traffic_write: "k_write K d bs w = (r, w') \<Longrightarrow> traffic K w w'"
  by (rule traffic.Write [OF traffic.Idle])

lemma traffic_read: "k_read K d n w = (r, bs, w') \<Longrightarrow> traffic K w w'"
  by (rule traffic.Read [OF traffic.Idle])

text \<open>Slots keep their owner; a calm step also keeps the phase of every slot and the number of
  bytes its driver has buffered.\<close>

definition owner :: "ws_slot \<Rightarrow> bool \<times> int" where
  "owner s = (used s, fd s)"

definition phase :: "ws_slot \<Rightarrow> bool \<times> byte list \<times> size_t \<times> byte list \<times> size_t" where
  "phase s = (opened s, hsbuf s, hslen s, slot_buf s, rx_len (conn s))"

definition same_pool :: "ws_io \<Rightarrow> ws_io \<Rightarrow> bool" where
  "same_pool io io' \<longleftrightarrow> listen_fd io' = listen_fd io \<and> epoll_fd io' = epoll_fd io \<and> io_role io' = io_role io \<and>
     map owner (conns io') = map owner (conns io)"

definition calm :: "ws_io \<Rightarrow> ws_io \<Rightarrow> bool" where
  "calm io io' \<longleftrightarrow> same_pool io io' \<and> map phase (conns io') = map phase (conns io)"

lemma same_pool_refl [simp]: "same_pool io io" and calm_refl [simp]: "calm io io"
  by (simp_all add: same_pool_def calm_def)

lemma same_pool_trans: "same_pool io io' \<Longrightarrow> same_pool io' io'' \<Longrightarrow> same_pool io io''"
  by (simp add: same_pool_def)

lemma calm_trans: "calm io io' \<Longrightarrow> calm io' io'' \<Longrightarrow> calm io io''"
  by (auto simp: calm_def intro: same_pool_trans)

lemma map_update_same: "i < length xs \<Longrightarrow> f x = f (xs ! i) \<Longrightarrow> map f (xs[i := x]) = map f xs"
  by (metis list_update_id map_update)

lemma set_slot_same_pool:
  "pool_wf io \<Longrightarrow> i < WS_IO_MAX_CONNS \<Longrightarrow> owner s = owner (conns io ! i) \<Longrightarrow> same_pool io (set_slot io i s)"
  by (simp add: same_pool_def pool_wf_def map_update_same)

lemma set_slot_calm:
  "pool_wf io \<Longrightarrow> i < WS_IO_MAX_CONNS \<Longrightarrow> owner s = owner (conns io ! i) \<Longrightarrow> phase s = phase (conns io ! i) \<Longrightarrow>
   calm io (set_slot io i s)"
  by (simp add: calm_def set_slot_same_pool) (simp add: pool_wf_def map_update_same)

lemma calm_slot:
  assumes "calm io io'" and "pool_wf io" and "i < WS_IO_MAX_CONNS"
  shows "phase (conns io' ! i) = phase (conns io ! i)" "owner (conns io' ! i) = owner (conns io ! i)"
proof -
  have e: "map phase (conns io') = map phase (conns io)" "map owner (conns io') = map owner (conns io)"
    using assms(1) by (simp_all add: calm_def same_pool_def)
  then have "length (conns io') = length (conns io)" by (metis length_map)
  then show "phase (conns io' ! i) = phase (conns io ! i)" "owner (conns io' ! i) = owner (conns io ! i)"
    using e assms(2,3) by (metis nth_map pool_wf_def)+
qed

section \<open>Writing and sending\<close>

lemma write_all_traffic:
  assumes "n \<le> length buf"
  shows "returns (write_all K d buf n w) (\<lambda>(r, w'). traffic K w w')"
proof -
  have "returns (write_loop K d buf n off w) (\<lambda>(r, w'). traffic K w w')" for off
    using assms
  proof (induction K d buf n off w rule: write_loop.induct)
    case (1 K d buf n off w)
    show ?case
    proof (cases "off < n")
      case True
      obtain r w1 where k: "k_write K d (take (n - off) (drop off buf)) w = (r, w1)" by fastforce
      have s: "sys_write K d buf off (n - off) w = Some (r, w1)"
        using True 1(2) k by (simp add: sys_write_def)
      have "\<not> r \<le> 0 \<Longrightarrow> returns (write_loop K d buf n (off + nat r) w1) (\<lambda>(r, w'). traffic K w1 w')"
        using 1(1) [OF True s refl] 1(2) by blast
      then show ?thesis
        using True s traffic_write [OF k]
        by (subst write_loop.simps) (simp add: returns_traffic)
    qed (subst write_loop.simps, simp add: traffic.Idle)
  qed
  then show ?thesis by (simp add: write_all_def)
qed

lemma send_accept_traffic:
  assumes "length accept = 28"
  shows "returns (send_accept K d accept w) (\<lambda>(r, w'). traffic K w w')"
proof -
  have w1: "returns (write_all K d accept_pre (length accept_pre - 1) w) (\<lambda>(r, w'). traffic K w w')" for w
    by (rule write_all_traffic) simp
  have w2: "returns (write_all K d accept 28 w) (\<lambda>(r, w'). traffic K w w')" for w
    by (rule write_all_traffic) (simp add: assms)
  have w3: "returns (write_all K d (crlf @ crlf @ [0]) 4 w) (\<lambda>(r, w'). traffic K w w')" for w
    by (rule write_all_traffic) (simp add: crlf_def)
  show ?thesis
    unfolding send_accept_def accept_pre_len bind.bind_lunit
    apply (rule returns_bind [OF w1], clarsimp, rule returns_bind [OF w2], clarsimp)
    subgoal for w1 r2 w2
      using traffic_trans [of K w w1 w2] returns_traffic [OF _ w3, of w w2] by simp
    done
qed

lemma slot_by_conn_eq:
  assumes "pool_wf io" and "i < WS_IO_MAX_CONNS"
  shows "slot_by_conn io i = Some (if used (conns io ! i) then Some i else None)"
proof -
  have "(LEAST j. 0 \<le> j \<and> j < WS_IO_MAX_CONNS \<and> slot_has_conn j (conns io ! j) i) = i"
    if "used (conns io ! i)"
    using that assms(2) by (intro Least_equality) (auto simp: slot_has_conn_def split: if_split_asm)
  then show ?thesis
    using assms by (auto simp: slot_by_conn_def scan_eq pool_wf_def slot_has_conn_def)
qed

lemma send_built_traffic:
  assumes "pool_wf io" and "i < WS_IO_MAX_CONNS" and "n \<le> length out"
  shows "returns (send_built K io i n out w) (\<lambda>(r, w'). traffic K w w')"
  using assms write_all_traffic [OF assms(3), of K "fd (conns io ! i)" w]
  by (simp add: send_built_def slot_by_conn_eq pool_slot(1) traffic.Idle)

text \<open>The sending functions of the interface write at most one frame to the socket of the slot, and
  of the server only the lifecycle of that connection can change.\<close>

lemma build_frame_returns:
  assumes "4 \<le> length key" and "unat op < 16" and "len \<le> length payload" and "len < OBJ_MAX"
    and "cap \<le> length out" and "cap < OBJ_MAX"
  shows "returns (build_frame key c op payload len out cap) (\<lambda>(n, out'). n \<le> cap \<and> length out' = length out)"
  unfolding build_frame_eq [OF assms refl]
  using assms(3,5) by (simp add: length_wire)

lemma out_cap: "WS_MAX_MESSAGE + 16 \<le> length (replicate (WS_MAX_MESSAGE + 16) (0 :: byte))"
  "WS_MAX_MESSAGE + 16 < OBJ_MAX"
  by (simp_all add: WS_MAX_MESSAGE_def OBJ_MAX_def)

lemma io_send_message_returns:
  assumes "pool_wf io" and "i < WS_IO_MAX_CONNS" and "4 \<le> length key" and "unat op < 16"
    and "len \<le> length payload" and "len < OBJ_MAX"
  shows "returns (ws_io_send_message K key io i op payload len w) (\<lambda>(r, w'). traffic K w w')"
  unfolding ws_io_send_message_def pool_slot(1) [OF assms(1,2)] bind.bind_lunit ws_send_message_def
  by (rule returns_bind [where P = "\<lambda>(n, out'). n \<le> length out'"])
    (auto intro!: returns_if returns_weaken [OF build_frame_returns [OF assms(3-6) out_cap]]
      send_built_traffic [OF assms(1,2)])

lemma io_send_pong_returns:
  assumes "pool_wf io" and "i < WS_IO_MAX_CONNS" and "4 \<le> length key"
    and "len \<le> length payload" and "len < OBJ_MAX"
  shows "returns (ws_io_send_pong K key io i payload len w) (\<lambda>(r, w'). traffic K w w')"
proof -
  have op: "unat WS_OP_PONG < 16" by (simp add: op_defs)
  show ?thesis
    unfolding ws_io_send_pong_def pool_slot(1) [OF assms(1,2)] bind.bind_lunit ws_send_pong_def
    by (rule returns_bind [where P = "\<lambda>(n, out'). n \<le> length out'"])
      (auto intro!: returns_if returns_weaken [OF build_frame_returns [OF assms(3) op assms(4,5) out_cap]]
        send_built_traffic [OF assms(1,2)])
qed

lemma send_close_returns:
  assumes "4 \<le> length key"
  shows "returns (ws_send_close key c code (replicate 32 0) 32) (\<lambda>(n, c', out). n \<le> length out \<and>
    (c' = c \<or> state c = WS_OPEN \<and> c' = c\<lparr>sent_close := True, state := WS_CLOSING\<rparr>))"
proof -
  let ?body = "[ucast (drop_bit 8 code), ucast code :: byte]"
  have p: "unat WS_OP_CLOSE < 16" "2 \<le> length ?body" "2 < OBJ_MAX" "32 \<le> length (replicate 32 (0 :: byte))"
      "32 < OBJ_MAX"
    by (simp_all add: op_defs OBJ_MAX_def)
  obtain n out where b: "build_frame key c WS_OP_CLOSE ?body 2 (replicate 32 0) 32 = Some (n, out)"
      "n \<le> 32" "length out = 32"
    using build_frame_returns [OF assms p, of c] by (auto simp: returns_def)
  then show ?thesis by (auto simp: ws_send_close_def ws_lc_send_close_def)
qed

lemma io_send_close_returns:
  assumes "pool_wf io" and "i < WS_IO_MAX_CONNS" and "opened (conns io ! i)" and "4 \<le> length key"
  shows "returns (ws_io_send_close K key io i code w) (\<lambda>(r, io', w'). pool_wf io' \<and> calm io io' \<and> traffic K w w')"
proof -
  let ?s = "conns io ! i"
  obtain n c' out where c: "ws_send_close key (conn ?s) code (replicate 32 0) 32 = Some (n, c', out)" "n \<le> length out"
      "c' = conn ?s \<or> state (conn ?s) = WS_OPEN \<and> c' = (conn ?s)\<lparr>sent_close := True, state := WS_CLOSING\<rparr>"
    using send_close_returns [OF assms(4), of "conn ?s" code] unfolding returns_def by blast
  let ?io = "set_slot io i (?s\<lparr>conn := c'\<rparr>)"
  have wf: "slot_wf ?s" by (rule pool_slot(2) [OF assms(1,2)])
  then have "slot_wf (?s\<lparr>conn := c'\<rparr>)"
    using assms(3) c(3) send_close_wf [OF _ c(1)] by (auto simp: slot_wf_def)
  then have p: "pool_wf ?io" using assms(1) by (rule set_slot_wf [rotated])
  have q: "calm io ?io" using c(3) by (intro set_slot_calm assms) (auto simp: owner_def phase_def)
  show ?thesis
    unfolding ws_io_send_close_def pool_slot(1) [OF assms(1,2)] bind.bind_lunit c(1) prod.case Let_def
    by (rule returns_bind [OF send_built_traffic [OF p assms(2) c(2)]]) (use p q in auto)
qed

section \<open>The contract of the handler\<close>

text \<open>What the driver promises of the event, and what the server relies on: the handler returns,
  only reads and writes sockets, keeps the pool well-formed and does not take bytes out of the
  drivers. It may rely on being called for an open connection.\<close>

definition event_ok :: "ws_conn \<Rightarrow> ws_event \<Rightarrow> bool" where
  "event_ok c ev \<longleftrightarrow> ev_in c ev \<and> ev_type ev \<noteq> WS_EV_NONE \<and>
     (ev_type ev = WS_EV_MESSAGE \<longrightarrow> ev_op ev \<in> {WS_OP_TEXT, WS_OP_BIN})"

lemma deliver_message_op:
  assumes "fst (deliver d h D) = Message op m"
  shows "op \<in> {WS_OP_TEXT, WS_OP_BIN} \<and> opcode h \<notin> {WS_OP_PING, WS_OP_PONG}"
  using assms unfolding deliver_def deliver_data_def deliver_close_def violation_def Let_def
  by (auto split: if_split_asm simp: op_defs)

lemma poll_event_ok:
  assumes "conn_wf c" and "ws_conn_poll c ev = Some (t, c', ev')" and "t \<noteq> WS_EV_NONE"
  shows "event_ok c' ev'"
proof -
  have t: "ev_type ev' = t" using poll_wf [OF assms(1), of ev] assms(2) by auto
  have "ev_op ev' \<in> {WS_OP_TEXT, WS_OP_BIN}" if m: "t = WS_EV_MESSAGE"
    using assms(1)
  proof (cases rule: poll_cases)
    case (frame h D R)
    then have "poll_ok c h D R (t, c', ev')" using poll_frame [OF assms(1), of h D R ev] assms(2) by simp
    note ok = poll_okD [OF this]
    obtain op b where d: "fst (deliver (dabs c) h D) = Message op b" using ok(8) m by (metis ev_kind_inv(3))
    then show ?thesis using ok(7) deliver_message_op [OF d] m by (auto simp: observe_def)
  qed (use assms(2) m poll_failed poll_incomplete [OF assms(1)] in auto)
  then show ?thesis
    using poll_event_in [OF assms(1,2)] t assms(3) by (simp add: event_ok_def)
qed

locale event_handler =
  fixes K :: "'w kernel" and H :: "'w handler"
  assumes handled: "pool_wf io \<Longrightarrow> i < WS_IO_MAX_CONNS \<Longrightarrow> opened (conns io ! i) \<Longrightarrow>
    event_ok (conn (conns io ! i)) ev \<Longrightarrow>
    returns (H io i ev w) (\<lambda>(io', w'). pool_wf io' \<and> calm io io' \<and> traffic K w w')"
begin

text \<open>The result of serving one slot: a flag, the pool with the same owners, and data traffic.\<close>

definition served :: "ws_io \<Rightarrow> nat \<Rightarrow> 'w \<Rightarrow> int \<times> ws_io \<times> 'w \<Rightarrow> bool" where
  "served io i w = (\<lambda>(r, io', w'). (r = 0 \<or> r = 1) \<and> pool_wf io' \<and> same_pool io io' \<and> traffic K w w')"

lemma served_trans:
  assumes "same_pool io io'" and "traffic K w w'" and "returns m (served io' i w')"
  shows "returns m (served io i w)"
  using assms by (auto simp: returns_def served_def intro: same_pool_trans traffic_trans)

lemma drain_events_ok:
  assumes "pool_wf io" and "i < WS_IO_MAX_CONNS" and "opened (conns io ! i)"
  shows "returns (drain_events H io i ev w) (served io i w)"
  using assms(1,3)
proof (induction "rx_len (conn (conns io ! i))" arbitrary: io ev w rule: less_induct)
  case less
  let ?s = "conns io ! i"
  have wf: "slot_wf ?s" by (rule pool_slot(2) [OF less(2) assms(2)])
  then have c: "conn_wf (conn ?s)" "msg_cap (conn ?s) = WS_MAX_MESSAGE" using less(3) by (simp_all add: slot_wf_def)
  obtain t c' ev' where p: "ws_conn_poll (conn ?s) ev = Some (t, c', ev')" "ev_type ev' = t" "conn_wf c'"
      "msg_cap c' = msg_cap (conn ?s)"
    using poll_wf [OF c(1), of ev] by blast
  let ?io = "set_slot io i (?s\<lparr>conn := c'\<rparr>)"
  have s: "slot_wf (?s\<lparr>conn := c'\<rparr>)" using wf p(3,4) c(2) by (simp add: slot_wf_def)
  have io: "pool_wf ?io" by (rule set_slot_wf [OF less(2) s])
  have sp: "same_pool io ?io" by (rule set_slot_same_pool [OF less(2) assms(2)]) (simp add: owner_def)
  have at: "conns ?io ! i = ?s\<lparr>conn := c'\<rparr>" by (subst set_slot_nth [OF less(2) assms(2)]) simp
  note unf = drain_events.simps [of H io i ev w] pool_slot(1) [OF less(2) assms(2)] p(1)
  show ?case
  proof (cases "t = WS_EV_NONE")
    case True
    then show ?thesis using unf io sp by (simp add: served_def traffic.Idle)
  next
    case False
    have ok: "event_ok (conn (conns ?io ! i)) ev'" using poll_event_ok [OF c(1) p(1) False] at by simp
    obtain io2 w2 where h: "H ?io i ev' w = Some (io2, w2)" "pool_wf io2" "calm ?io io2" "traffic K w w2"
      using handled [OF io assms(2) _ ok, of w] at less(3) unfolding returns_def by auto
    have sp2: "same_pool io io2" using h(3) sp by (auto simp: calm_def intro: same_pool_trans)
    have ph: "phase (conns io2 ! i) = phase (?s\<lparr>conn := c'\<rparr>)"
      using calm_slot(1) [OF h(3) io assms(2)] at by simp
    show ?thesis
    proof (cases "is_terminal t")
      case True
      then show ?thesis using unf h sp2 False p(2) by (simp add: served_def)
    next
      case nt: False
      then have "rx_len (conn (conns io2 ! i)) < rx_len (conn ?s)"
        using poll_shrinks [OF c(1) p(1)] False ph by (cases t) (simp_all add: is_terminal_def phase_def)
      then have "returns (drain_events H io2 i ev' w2) (served io2 i w2)"
        using h(2) ph less(3) by (intro less(1)) (simp_all add: phase_def)
      then show ?thesis
        using unf h served_trans [OF sp2 h(4)] nt False p(2) by simp
    qed
  qed
qed

end

section \<open>The server under the contract\<close>

lemma crlf_no_nul: "0 \<notin> set (crlf @ crlf)" "length (crlf @ crlf) = 4" "length (crlf @ crlf) < OBJ_MAX"
  by (simp_all add: crlf_def OBJ_MAX_def)

lemma hsbuf_size: "2048 < OBJ_MAX"
  by (simp add: OBJ_MAX_def)

lemma opened_conn_wf:
  assumes "length buf = WS_MAX_MESSAGE"
  shows "conn_wf (ws_conn_open (ws_conn_init r buf (length buf)))"
    "msg_cap (ws_conn_open (ws_conn_init r buf (length buf))) = WS_MAX_MESSAGE"
proof -
  have "length buf < OBJ_MAX" using assms by (simp add: WS_MAX_MESSAGE_def OBJ_MAX_def)
  then show "conn_wf (ws_conn_open (ws_conn_init r buf (length buf)))" by (intro open_wf init_wf)
  show "msg_cap (ws_conn_open (ws_conn_init r buf (length buf))) = WS_MAX_MESSAGE"
    using assms by (simp add: ws_conn_open_def ws_lc_handshake_def ws_conn_init_def)
qed

lemma compute_accept_returns:
  assumes "got \<le> length req" and "got < OBJ_MAX" and "length accept = 28"
  shows "returns (compute_accept key0 junk req got accept) (\<lambda>(r, a). length a = 28)"
  using compute_accept_eq [OF assms, of key0 junk] assms(3)
  by (auto simp: Let_def length_accept_value)

lemma sys_read_returns:
  assumes "kernel_ok K sent" and "off + n \<le> length buf"
  shows "returns (sys_read K d buf off n w)
    (\<lambda>(r, buf', w'). length buf' = length buf \<and> r \<le> int n \<and> traffic K w w')"
proof -
  obtain r bs w' where k: "k_read K d n w = (r, bs, w')" by (metis prod_cases3)
  then show ?thesis
    using kernel_readD [OF assms(1) k] assms(2) traffic_read [OF k] by (auto simp: sys_read_def)
qed

context event_handler
begin

lemma feed_ok:
  assumes "pool_wf io" and "i < WS_IO_MAX_CONNS" and "opened (conns io ! i)"
    and "len \<le> length bytes" and "length bytes < OBJ_MAX"
  shows "returns (feed H io i bytes len ev w) (served io i w)"
proof -
  let ?s = "conns io ! i"
  let ?m = "if len > 0 then ws_conn_recv (conn ?s) bytes len else Some (0, conn ?s)"
  have wf: "slot_wf ?s" by (rule pool_slot(2) [OF assms(1,2)])
  then have c: "conn_wf (conn ?s)" "msg_cap (conn ?s) = WS_MAX_MESSAGE" using assms(3) by (simp_all add: slot_wf_def)
  obtain r c' where m: "?m = Some (r, c')" "conn_wf c'" "msg_cap c' = WS_MAX_MESSAGE"
    using recv_eq [OF c(1) assms(4,5)] recv_wf [OF c(1) assms(4,5)] c by (cases "len > 0") (auto split: if_splits)
  let ?io = "set_slot io i (?s\<lparr>conn := c'\<rparr>)"
  have s: "slot_wf (?s\<lparr>conn := c'\<rparr>)" using wf m(2,3) by (simp add: slot_wf_def)
  have io: "pool_wf ?io" by (rule set_slot_wf [OF assms(1) s])
  have sp: "same_pool io ?io" by (rule set_slot_same_pool [OF assms(1,2)]) (simp add: owner_def)
  have op: "opened (conns ?io ! i)" by (subst set_slot_nth [OF assms(1,2)]) (simp add: assms(3))
  have d: "returns (drain_events H ?io i ev w) (served io i w)"
    by (rule served_trans [OF sp traffic.Idle drain_events_ok [OF io assms(2) op]])
  show ?thesis
    unfolding feed_def pool_slot(1) [OF assms(1,2)] bind.bind_lunit m(1) prod.case Let_def
    by (rule returns_if [OF _ d]) (use io sp in \<open>simp add: served_def traffic.Idle\<close>)
qed

lemma finish_handshake_ok:
  assumes "pool_wf io" and "i < WS_IO_MAX_CONNS" and "nat at + 4 \<le> hslen (conns io ! i)"
  shows "returns (finish_handshake K H S io i at w) (served io i w)"
proof -
  let ?s = "conns io ! i"
  have wf: "slot_wf ?s" by (rule pool_slot(2) [OF assms(1,2)])
  then have hs: "length (hsbuf ?s) = 2048" "hslen ?s \<le> 2048" "length (slot_buf ?s) = WS_MAX_MESSAGE"
    by (simp_all add: slot_wf_def)
  let ?c = "ws_conn_open (ws_conn_init (io_role io) (slot_buf ?s) (length (slot_buf ?s)))"
  let ?io = "set_slot io i (?s\<lparr>conn := ?c, opened := True\<rparr>)"
  have s: "slot_wf (?s\<lparr>conn := ?c, opened := True\<rparr>)"
    using wf opened_conn_wf [OF hs(3), of "io_role io"] by (simp add: slot_wf_def)
  have io: "pool_wf ?io" by (rule set_slot_wf [OF assms(1) s])
  have sp: "same_pool io ?io" by (rule set_slot_same_pool [OF assms(1,2)]) (simp add: owner_def)
  have op: "opened (conns ?io ! i)" by (subst set_slot_nth [OF assms(1,2)]) simp
  have off: "size_add (nat at) 4 = nat at + 4" "size_sub (hslen ?s) (nat at + 4) = hslen ?s - (nat at + 4)"
    using assms(3) hs(2) hsbuf_size by (simp_all add: size_add_obj size_sub_obj)
  have f: "returns (feed H ?io i (drop (nat at + 4) (hsbuf ?s)) (hslen ?s - (nat at + 4)) ev w') (served ?io i w')" for ev w'
    using hs hsbuf_size by (intro feed_ok [OF io assms(2) op]) auto
  have acc: "returns (compute_accept (st_key S) (st_cat S) (hsbuf ?s) (nat at) (take 28 (st_accept S @ replicate 28 0)))
      (\<lambda>(r, a). length a = 28)"
    using assms(3) hs hsbuf_size by (intro compute_accept_returns) auto
  show ?thesis
    unfolding finish_handshake_def pool_slot(1) [OF assms(1,2)] bind.bind_lunit Let_def off
    apply (rule returns_bind [OF acc], clarsimp, intro conjI impI)
     apply (simp add: served_def assms(1) traffic.Idle)
    apply (rule returns_bind [OF send_accept_traffic], assumption, clarsimp, intro conjI impI)
     apply (simp add: served_def assms(1))
    apply (erule served_trans [OF sp _ f])
    done
qed

lemma handshake_step_ok:
  assumes "pool_wf io" and "i < WS_IO_MAX_CONNS"
  shows "returns (handshake_step K H S io i w) (served io i w)"
proof -
  let ?s = "conns io ! i"
  have hs: "length (hsbuf ?s) = 2048" "hslen ?s \<le> 2048"
    using pool_slot(2) [OF assms] by (simp_all add: slot_wf_def)
  then obtain r where r: "find_sub (hsbuf ?s) (hslen ?s) ((crlf @ crlf) @ [0]) = Some r"
      "first_at (crlf @ crlf) (take (hslen ?s) (hsbuf ?s)) r"
    using find_sub_first [of "hslen ?s" "hsbuf ?s" "crlf @ crlf"] hsbuf_size crlf_no_nul by auto
  have "nat r + 4 \<le> hslen ?s" if "\<not> r < 0"
    using r(2) that hs crlf_no_nul(2) by (auto simp: first_at_def occurs_at_def split: if_split_asm)
  then show ?thesis
    using finish_handshake_ok [OF assms] r(1) assms
    by (auto simp: handshake_step_def pool_slot(1) served_def traffic.Idle)
qed

lemma on_handshake_data_ok:
  assumes "kernel_ok K sent" and "pool_wf io" and "i < WS_IO_MAX_CONNS" and "\<not> opened (conns io ! i)"
  shows "returns (on_handshake_data K H S io i w) (served io i w)"
proof -
  let ?s = "conns io ! i"
  have wf: "slot_wf ?s" by (rule pool_slot(2) [OF assms(2,3)])
  then have hs: "length (hsbuf ?s) = 2048" "hslen ?s \<le> 2048" by (simp_all add: slot_wf_def)
  have sub: "size_sub (length (hsbuf ?s)) (hslen ?s) = 2048 - hslen ?s"
    using hs hsbuf_size by (simp add: size_sub_obj)
  have add: "size_add (hslen ?s) (nat r) = hslen ?s + nat r" if "r \<le> int (2048 - hslen ?s)" for r
    using that hs hsbuf_size by (intro size_add_obj) linarith
  have rd: "returns (sys_read K (fd ?s) (hsbuf ?s) (hslen ?s) (2048 - hslen ?s) w)
      (\<lambda>(r, buf', w'). length buf' = length (hsbuf ?s) \<and> r \<le> int (2048 - hslen ?s) \<and> traffic K w w')"
    using hs by (intro sys_read_returns [OF assms(1)]) simp
  have slot: "length b = 2048 \<Longrightarrow> n \<le> 2048 \<Longrightarrow> slot_wf (?s\<lparr>hsbuf := b, hslen := n\<rparr>)"
    "length b = 2048 \<Longrightarrow> slot_wf (?s\<lparr>hsbuf := b\<rparr>)" for b n
    using wf assms(4) by (simp_all add: slot_wf_def)
  have own: "same_pool io (set_slot io i (?s\<lparr>hsbuf := b, hslen := n\<rparr>))" "same_pool io (set_slot io i (?s\<lparr>hsbuf := b\<rparr>))" for b n
    by (auto intro!: set_slot_same_pool assms simp: owner_def)
  show ?thesis
    unfolding on_handshake_data_def pool_slot(1) [OF assms(2,3)] bind.bind_lunit Let_def sub
    apply (rule returns_bind [OF rd], clarsimp simp: hs(1), intro conjI impI)
     apply (simp add: served_def own set_slot_wf [OF assms(2)] slot)
    apply (rule served_trans [OF own(1)], assumption)
    apply (rule handshake_step_ok [OF set_slot_wf [OF assms(2) slot(1)] assms(3)], assumption)
    apply (subst add, assumption)
    using hs(2) apply linarith
    done
qed

lemma on_client_data_ok:
  assumes "kernel_ok K sent" and "pool_wf io" and "i < WS_IO_MAX_CONNS"
  shows "returns (on_client_data K H S io i w) (served io i w)"
proof (cases "opened (conns io ! i)")
  case False
  then show ?thesis
    using on_handshake_data_ok [OF assms] by (simp add: on_client_data_def pool_slot(1) [OF assms(2,3)])
next
  case True
  have rd: "returns (sys_read K d (take 4096 (st_chunk S @ replicate 4096 0)) 0 4096 w)
      (\<lambda>(r, buf', w'). length buf' = 4096 \<and> r \<le> int 4096 \<and> traffic K w w')" for d
    by (rule returns_weaken [OF sys_read_returns [OF assms(1)]]) auto
  show ?thesis
    unfolding on_client_data_def pool_slot(1) [OF assms(2,3)] bind.bind_lunit
    apply (simp only: True not_True_eq_False if_False)
    apply (rule returns_bind [OF rd], clarsimp, intro conjI impI)
     apply (simp add: served_def assms)
    apply (erule served_trans [OF same_pool_refl], rule feed_ok [OF assms(2,3) True])
     apply (simp_all add: OBJ_MAX_def)
    done
qed

end

section \<open>Descriptors\<close>

text \<open>The documented behaviour of the other system calls on the set of open descriptors: \<^verbatim>\<open>accept\<close>
  returns a fresh one, \<^verbatim>\<open>close\<close> of an open descriptor releases it, nothing else opens or closes any.
  Nothing is said of closing a descriptor that is not open (it may by then belong to someone else), so
  what is proved from these laws needs every \<^verbatim>\<open>close\<close> of the server to be of an open one.\<close>

definition kernel_fds :: "'w kernel \<Rightarrow> ('w \<Rightarrow> int set) \<Rightarrow> bool" where
  "kernel_fds K opens \<longleftrightarrow>
     (\<forall>d n w. opens (snd (snd (k_read K d n w))) = opens w) \<and>
     (\<forall>d bs w. opens (snd (k_write K d bs w)) = opens w) \<and>
     (\<forall>e op d ev w. opens (snd (k_epoll_ctl K e op d ev w)) = opens w) \<and>
     (\<forall>e n w. opens (snd (snd (k_epoll_wait K e n w))) = opens w) \<and>
     (\<forall>d w. d \<in> opens w \<longrightarrow> opens (k_close K d w) = opens w - {d}) \<and>
     (\<forall>d w. case k_accept K d w of (r, w') \<Rightarrow>
        if r < 0 then opens w' = opens w else r < 2 ^ 31 \<and> r \<notin> opens w \<and> opens w' = insert r (opens w))"

lemma kernel_fdsD:
  assumes "kernel_fds K opens"
  shows "k_read K d n w = (r, bs, w') \<Longrightarrow> opens w' = opens w"
    "k_write K d bs w = (r, w') \<Longrightarrow> opens w' = opens w"
    "k_epoll_ctl K e op d ev w = (r, w') \<Longrightarrow> opens w' = opens w"
    "k_epoll_wait K e n w = (r, evs, w') \<Longrightarrow> opens w' = opens w"
    "d \<in> opens w \<Longrightarrow> opens (k_close K d w) = opens w - {d}"
    "k_accept K d w = (r, w') \<Longrightarrow> r < 0 \<Longrightarrow> opens w' = opens w"
    "k_accept K d w = (r, w') \<Longrightarrow> \<not> r < 0 \<Longrightarrow> r < 2 ^ 31 \<and> r \<notin> opens w \<and> opens w' = insert r (opens w)"
proof -
  note l = assms [unfolded kernel_fds_def]
  show "d \<in> opens w \<Longrightarrow> opens (k_close K d w) = opens w - {d}" using l by blast
  have "\<forall>d w. case k_accept K d w of (r, w') \<Rightarrow>
      if r < 0 then opens w' = opens w else r < 2 ^ 31 \<and> r \<notin> opens w \<and> opens w' = insert r (opens w)"
    using l by (elim conjE)
  then show "k_accept K d w = (r, w') \<Longrightarrow> r < 0 \<Longrightarrow> opens w' = opens w"
    "k_accept K d w = (r, w') \<Longrightarrow> \<not> r < 0 \<Longrightarrow> r < 2 ^ 31 \<and> r \<notin> opens w \<and> opens w' = insert r (opens w)"
    by (metis (mono_tags, lifting) case_prod_conv)+
qed (use assms in \<open>simp_all add: kernel_fds_def, (metis snd_conv)+\<close>)

lemma traffic_opens: "traffic K w w' \<Longrightarrow> kernel_fds K opens \<Longrightarrow> opens w' = opens w"
  by (induction rule: traffic.induct) (auto dest: kernel_fdsD(1,2))

text \<open>The descriptors of the used slots are distinct, open, and together with the server's own ones
  (\<open>base\<close>: listener, epoll and whatever the process had) all that is open.\<close>

definition held :: "(bool \<times> int) list \<Rightarrow> int set" where
  "held os = {d. (True, d) \<in> set os}"

definition single :: "(bool \<times> int) list \<Rightarrow> bool" where
  "single os \<longleftrightarrow> (\<forall>i < length os. \<forall>j < length os. fst (os ! i) \<longrightarrow> os ! i = os ! j \<longrightarrow> i = j)"

definition owned :: "('w \<Rightarrow> int set) \<Rightarrow> int set \<Rightarrow> ws_io \<Rightarrow> 'w \<Rightarrow> bool" where
  "owned opens base io w \<longleftrightarrow> opens w = base \<union> held (map owner (conns io)) \<and>
     base \<inter> held (map owner (conns io)) = {} \<and> single (map owner (conns io))"

lemma held_nth: "d \<in> held os \<longleftrightarrow> (\<exists>i < length os. os ! i = (True, d))"
  by (auto simp: held_def in_set_conv_nth)

lemma held_update:
  assumes "i < length os"
  shows "e \<in> held (os[i := (b, d)]) \<longleftrightarrow> (b \<and> e = d) \<or> (\<exists>j < length os. j \<noteq> i \<and> os ! j = (True, e))"
proof -
  have "e \<in> held (os[i := (b, d)]) \<longleftrightarrow>
      (\<exists>j < length os. if j = i then b \<and> e = d else os ! j = (True, e))"
    unfolding held_nth length_list_update
    by (intro ex_cong1 conj_cong refl) (auto simp: nth_list_update)
  then show ?thesis using assms by (auto split: if_splits)
qed

lemma single_release:
  assumes "single os" and "i < length os" and "os ! i = (True, d)"
  shows "single (os[i := (False, d)])" "held (os[i := (False, d)]) = held os - {d}"
proof -
  show "single (os[i := (False, d)])"
    using assms by (auto simp: single_def nth_list_update)
  have one: "e = d \<longleftrightarrow> j = i" if "os ! j = (True, e)" "j < length os" for j e
    using assms that unfolding single_def by (metis fst_conv prod.inject)
  have "e \<in> held (os[i := (False, d)]) \<longleftrightarrow> e \<in> held os - {d}" for e
    unfolding held_update [OF assms(2)] Diff_iff held_nth [of e os] using one [of _ e] by blast
  then show "held (os[i := (False, d)]) = held os - {d}" by (rule set_eqI)
qed

lemma single_acquire:
  assumes "single os" and "i < length os" and "\<not> fst (os ! i)" and "d \<notin> held os"
  shows "single (os[i := (True, d)])" "held (os[i := (True, d)]) = insert d (held os)"
proof -
  show "single (os[i := (True, d)])"
    using assms by (auto simp: single_def nth_list_update held_nth)
  have "os ! j = (True, e) \<Longrightarrow> j \<noteq> i" for j e using assms(3) by auto
  then show "held (os[i := (True, d)]) = insert d (held os)"
    using held_update [OF assms(2), of _ True d] held_nth [of _ os] by (intro set_eqI) (simp, meson)
qed

lemma owned_same_pool:
  "owned opens base io w \<Longrightarrow> same_pool io io' \<Longrightarrow> opens w' = opens w \<Longrightarrow> owned opens base io' w'"
  by (simp add: owned_def same_pool_def)

text \<open>What one step of the loop keeps.\<close>

definition kept :: "'w kernel \<Rightarrow> ws_io \<Rightarrow> 'w \<Rightarrow> ws_io \<times> 'w \<Rightarrow> bool" where
  "kept K io w = (\<lambda>(io', w'). pool_wf io' \<and> listen_fd io' = listen_fd io \<and> epoll_fd io' = epoll_fd io \<and>
     io_role io' = io_role io \<and>
     (\<forall>opens base. kernel_fds K opens \<longrightarrow> owned opens base io w \<longrightarrow> owned opens base io' w'))"

lemma kept_trans: "kept K io w (io', w') \<Longrightarrow> kept K io' w' p \<Longrightarrow> kept K io w p"
  by (auto simp: kept_def)

lemma kept_returns: "kept K io w (io', w') \<Longrightarrow> returns m (kept K io' w') \<Longrightarrow> returns m (kept K io w)"
  by (auto simp: returns_def intro: kept_trans)

lemma map_owner_update: "map owner (conns (set_slot io i s)) = (map owner (conns io))[i := owner s]"
  by (simp add: map_update)

lemma slot_close_kept:
  assumes "pool_wf io" and "i < WS_IO_MAX_CONNS" and "used (conns io ! i)"
  shows "returns (slot_close K io i w) (kept K io w)"
proof -
  let ?s = "conns io ! i" and ?os = "map owner (conns io)"
  obtain r w1 where e: "k_epoll_ctl K (epoll_fd io) EPOLL_CTL_DEL (fd ?s) None w = (r, w1)" by fastforce
  have l: "i < length ?os" "?os ! i = (True, fd ?s)"
    using assms by (simp_all add: pool_wf_def owner_def)
  have "owned opens base (set_slot io i (?s\<lparr>used := False\<rparr>)) (k_close K (fd ?s) w1)"
    if k: "kernel_fds K opens" and o: "owned opens base io w" for opens base
  proof -
    have os: "single ?os" "opens w = base \<union> held ?os" "base \<inter> held ?os = {}" using o by (simp_all add: owned_def)
    have d: "fd ?s \<in> held ?os" using l unfolding held_nth by blast
    have "opens (k_close K (fd ?s) w1) = opens w - {fd ?s}"
      using kernel_fdsD(3) [OF k e] kernel_fdsD(5) [OF k, of "fd ?s" w1] os(2) d by simp
    then show ?thesis
      using os d single_release [OF os(1) l] unfolding owned_def map_owner_update
      by (auto simp: owner_def)
  qed
  then show ?thesis
    using e assms pool_slot(2) [OF assms(1,2)]
    by (simp add: slot_close_def pool_slot(1) kept_def sys_close_def set_slot_wf slot_wf_unused)
qed

lemma alloc_slot_eq:
  assumes "pool_wf io"
  shows "alloc_slot io = Some (if \<exists>i < WS_IO_MAX_CONNS. \<not> used (conns io ! i)
    then Some (LEAST i. i < WS_IO_MAX_CONNS \<and> \<not> used (conns io ! i)) else None)"
  using assms by (simp add: alloc_slot_def scan_eq pool_wf_def)

lemma slot_by_fd_eq:
  assumes "pool_wf io"
  shows "slot_by_fd io d = Some (if \<exists>i < WS_IO_MAX_CONNS. used (conns io ! i) \<and> fd (conns io ! i) = d
    then Some (LEAST i. i < WS_IO_MAX_CONNS \<and> used (conns io ! i) \<and> fd (conns io ! i) = d) else None)"
proof -
  have "(\<lambda>s. slot_has_fd s d) = (\<lambda>s. used s \<and> fd s = d)" by (auto simp: slot_has_fd_def)
  then have "slot_by_fd io d = scan (\<lambda>_ s. used s \<and> fd s = d) (conns io) 0"
    unfolding slot_by_fd_def by simp
  then show ?thesis
    using assms scan_eq [of "conns io" "\<lambda>_ s. used s \<and> fd s = d" 0]
    unfolding pool_wf_def by (simp only: le0 simp_thms)
qed

lemma alloc_slot_cases:
  assumes "pool_wf io"
  obtains "alloc_slot io = Some None" "\<forall>i < WS_IO_MAX_CONNS. used (conns io ! i)"
    | i where "alloc_slot io = Some (Some i)" "i < WS_IO_MAX_CONNS" "\<not> used (conns io ! i)"
proof (cases "\<exists>i < WS_IO_MAX_CONNS. \<not> used (conns io ! i)")
  case True
  then show thesis using LeastI_ex [OF True] that(2) alloc_slot_eq [OF assms] by simp
next
  case False
  then show thesis using that(1) alloc_slot_eq [OF assms] by simp
qed

lemma slot_by_fd_cases:
  assumes "pool_wf io"
  obtains "slot_by_fd io d = Some None"
    | i where "slot_by_fd io d = Some (Some i)" "i < WS_IO_MAX_CONNS" "used (conns io ! i)" "fd (conns io ! i) = d"
proof (cases "\<exists>i < WS_IO_MAX_CONNS. used (conns io ! i) \<and> fd (conns io ! i) = d")
  case True
  then show thesis using LeastI_ex [OF True] that(2) slot_by_fd_eq [OF assms, of d] by simp
next
  case False
  then show thesis using that(1) slot_by_fd_eq [OF assms, of d] by simp
qed

lemma long_to_int_small: "0 \<le> x \<Longrightarrow> x < 2 ^ 31 \<Longrightarrow> long_to_int x = x"
  unfolding long_to_int_def by (simp add: sint_uint signed_take_bit_int_eq_self unsigned_of_int take_bit_int_eq_self)

lemma on_accept_kept:
  assumes "pool_wf io"
  shows "returns (on_accept K io w) (kept K io w)"
proof -
  obtain cfd w1 where a: "k_accept K (listen_fd io) w = (cfd, w1)" by fastforce
  let ?d = "long_to_int cfd" and ?os = "map owner (conns io)"
  have small: "?d = cfd" if "kernel_fds K opens" "\<not> cfd < 0" for opens
    using kernel_fdsD(7) [OF that(1) a that(2)] that(2) by (simp add: long_to_int_small)
  show ?thesis
  proof (cases "cfd < 0")
    case True
    then show ?thesis using a assms by (auto simp: on_accept_def kept_def owned_def dest: kernel_fdsD(6))
  next
    case False
    from assms show ?thesis
    proof (cases rule: alloc_slot_cases)
      case 1
      have "owned opens base io (k_close K ?d w1)"
        if k: "kernel_fds K opens" and o: "owned opens base io w" for opens base
        using kernel_fdsD(5) [OF k, of cfd w1] kernel_fdsD(7) [OF k a False] small [OF k False] o
        by (auto simp: owned_def)
      then show ?thesis using 1 False a assms by (simp add: on_accept_def kept_def sys_close_def)
    next
      case (2 i)
      obtain r w2 where e: "epoll_add K (epoll_fd io) ?d w1 = (r, w2)" by fastforce
      have i: "i < length ?os" "\<not> fst (?os ! i)" using 2 assms by (simp_all add: pool_wf_def owner_def)
      have "owned opens base (set_slot io i (fresh_slot ?d)) w2"
        if k: "kernel_fds K opens" and o: "owned opens base io w" for opens base
      proof -
        have os: "single ?os" "opens w = base \<union> held ?os" "base \<inter> held ?os = {}" using o by (simp_all add: owned_def)
        have f: "cfd \<notin> opens w" "opens w1 = insert cfd (opens w)"
          using kernel_fdsD(7) [OF k a False] by simp_all
        have "opens w2 = opens w1" using kernel_fdsD(3) [OF k] e by (simp add: epoll_add_def)
        moreover have "cfd \<notin> held ?os" using f(1) os(2) by simp
        ultimately show ?thesis
          using os f single_acquire [OF os(1) i, of cfd] small [OF k False] unfolding owned_def map_owner_update
          by (auto simp: owner_def fresh_slot_def)
      qed
      then show ?thesis
        using 2 False a e assms by (simp add: on_accept_def kept_def set_slot_wf)
    qed
  qed
qed

context event_handler
begin

lemma service_client_ok:
  assumes "kernel_ok K sent" and "pool_wf io" and "i < WS_IO_MAX_CONNS" and "used (conns io ! i)"
  shows "returns (service_client K H S io i w) (kept K io w)"
proof -
  obtain r io1 w1 where c: "on_client_data K H S io i w = Some (r, io1, w1)" "pool_wf io1" "same_pool io io1"
      "traffic K w w1"
    using on_client_data_ok [OF assms(1-3)] unfolding returns_def served_def by fastforce
  have k: "kept K io w (io1, w1)"
    using c(2-4) by (auto simp: kept_def same_pool_def owned_def dest: traffic_opens)
  have "length (conns io1) = length (conns io)" "map owner (conns io1) ! i = map owner (conns io) ! i"
    using c(3) by (auto simp: same_pool_def dest: map_eq_imp_length_eq)
  then have "used (conns io1 ! i)" using assms(2-4) by (simp add: owner_def pool_wf_def)
  then have "returns (slot_close K io1 i w1) (kept K io w)"
    by (intro kept_returns [OF k] slot_close_kept c(2) assms(3))
  then show ?thesis using c(1) k by (simp add: service_client_def)
qed

lemma on_readable_ok:
  assumes "kernel_ok K sent" and "pool_wf io"
  shows "returns (on_readable K H S io d w) (kept K io w)"
proof (cases "d = listen_fd io")
  case True
  then show ?thesis using on_accept_kept [OF assms(2)] by (simp add: on_readable_def)
next
  case False
  from assms(2) show ?thesis
  proof (cases rule: slot_by_fd_cases [of _ d])
    case 1
    then show ?thesis using False assms(2) by (simp add: on_readable_def kept_def)
  next
    case (2 i)
    then show ?thesis using False service_client_ok [OF assms, of i] by (simp add: on_readable_def)
  qed
qed

lemma serve_events_ok:
  assumes "kernel_ok K sent" and "pool_wf io"
  shows "returns (serve_events K H S es io w) (kept K io w)"
  using assms(2)
proof (induction es arbitrary: io w)
  case Nil
  then show ?case by (simp add: kept_def)
next
  case (Cons e es)
  obtain io1 w1 where r: "on_readable K H S io (sint (ucast (ep_data e) :: 32 word)) w = Some (io1, w1)"
      "kept K io w (io1, w1)"
    using on_readable_ok [OF assms(1) Cons(2)] unfolding returns_def by fast
  then have "returns (serve_events K H S es io1 w1) (kept K io w)"
    by (intro kept_returns [OF r(2)] Cons(1)) (simp add: kept_def)
  then show ?case using r(1) by simp
qed

lemma loop_round_ok:
  assumes "kernel_ok K sent" and "pool_wf io"
  shows "returns (loop_round K H S io w) (kept K io w)"
proof -
  obtain n evs w1 where e: "k_epoll_wait K (epoll_fd io) (WS_IO_MAX_CONNS + 1) w = (n, evs, w1)"
    by (metis prod_cases3)
  then have "kept K io w (io, w1)" using assms(2) by (auto simp: kept_def owned_def dest: kernel_fdsD(4))
  then have "returns (serve_events K H S (take (nat n) evs) io w1) (kept K io w)"
    by (rule kept_returns) (rule serve_events_ok [OF assms])
  moreover have "length evs \<le> WS_IO_MAX_CONNS + 1 \<and> n \<le> int (length evs)"
    using kernel_waitD [OF assms(1) e] by linarith
  ultimately show ?thesis unfolding loop_round_def e Let_def prod.case by simp
qed

lemma run_rounds_ok:
  assumes "kernel_ok K sent" and "pool_wf io"
  shows "returns (run_rounds n K H S io w) (kept K io w)"
  using assms(2)
proof (induction n arbitrary: io w)
  case 0
  then show ?case by (simp add: kept_def)
next
  case (Suc n)
  obtain io1 w1 where r: "loop_round K H S io w = Some (io1, w1)" "kept K io w (io1, w1)"
    using loop_round_ok [OF assms(1) Suc(2)] unfolding returns_def by fast
  then have "returns (run_rounds n K H S io1 w1) (kept K io w)"
    by (intro kept_returns [OF r(2)] Suc(1)) (simp add: kept_def)
  then show ?case using r(1) by simp
qed

end

section \<open>Set-up\<close>

lemma io_setup_frame:
  assumes "io_setup K io port w = (rc, io', w')"
  shows "conns io' = conns io \<and> io_role io' = io_role io"
  using assms
  by (auto simp: io_setup_def open_listener_def open_epoll_def Let_def split: prod.splits if_splits)

lemma io_setup_wf: "io_setup K (zero_io r) port w = (rc, io', w') \<Longrightarrow> pool_wf io'"
  using io_setup_frame [of K "zero_io r" port w rc io' w'] zero_io_wf [of r] by (simp add: pool_wf_def)

end
