(* ===== verification/Decimal.thy ===== *)
theory Decimal
  imports Api
begin

text \<open>
  Decimal numbers as text: the value of a string of digits and the digits of a number, the common
  reference for the code that reads the port and the code that prints numbers.
\<close>

definition is_digit :: "byte \<Rightarrow> bool" where
  "is_digit b \<longleftrightarrow> 48 \<le> unat b \<and> unat b \<le> 57"

definition dec_step :: "nat \<Rightarrow> byte \<Rightarrow> nat" where
  "dec_step v b = v * 10 + (unat b - 48)"

definition dec_value :: "byte list \<Rightarrow> nat" where
  "dec_value bs = foldl dec_step 0 bs"

lemma dec_mono: "v \<le> foldl dec_step v bs"
proof (induction bs arbitrary: v)
  case (Cons b bs)
  have "v \<le> dec_step v b" by (simp add: dec_step_def)
  also have "\<dots> \<le> foldl dec_step (dec_step v b) bs" by (rule Cons)
  finally show ?case by simp
qed simp

fun decimal :: "nat \<Rightarrow> byte list" where
  "decimal n = (if n < 10 then [word_of_nat (48 + n)] else decimal (n div 10) @ [word_of_nat (48 + n mod 10)])"

declare decimal.simps [simp del]

lemma unat_digit: "d < 10 \<Longrightarrow> unat (word_of_nat (48 + d) :: byte) = 48 + d"
  by (rule unat_of_nat_byte) simp

lemma dec_value_decimal: "dec_value (decimal n) = n"
proof (induction n rule: decimal.induct)
  case (1 n)
  show ?case
  proof (cases "n < 10")
    case True
    then show ?thesis by (subst decimal.simps) (simp add: dec_value_def dec_step_def unat_digit del: of_nat_add)
  next
    case False
    have "dec_value (decimal n) = dec_step (dec_value (decimal (n div 10))) (word_of_nat (48 + n mod 10))"
      using False by (subst decimal.simps) (simp add: dec_value_def)
    also have "\<dots> = n div 10 * 10 + n mod 10"
      using 1 [OF False] unat_digit [of "n mod 10"] by (simp add: dec_step_def del: of_nat_add)
    finally show ?thesis by simp
  qed
qed

lemma decimal_digits: "list_all is_digit (decimal n)"
proof (induction n rule: decimal.induct)
  case (1 n)
  have "is_digit (word_of_nat (48 + d))" if "d < 10" for d
    using that unat_digit [OF that] by (simp add: is_digit_def del: of_nat_add)
  then show ?case using 1 by (subst decimal.simps) (simp del: of_nat_add)
qed

lemma decimal_nonempty: "decimal n \<noteq> []"
  by (subst decimal.simps) simp

lemma decimal_length: "0 < k \<Longrightarrow> n < 10 ^ k \<Longrightarrow> length (decimal n) \<le> k"
proof (induction k arbitrary: n)
  case (Suc k)
  show ?case
  proof (cases "n < 10")
    case True
    then show ?thesis by (subst decimal.simps) simp
  next
    case False
    then have "0 < k" using Suc.prems(2) by (cases k) simp_all
    moreover have "n div 10 < 10 ^ k" using Suc.prems(2) by (simp add: less_mult_imp_div_less)
    ultimately have "length (decimal (n div 10)) \<le> k" by (rule Suc.IH)
    then show ?thesis using False by (subst decimal.simps) simp
  qed
qed simp

lemma digit_nonzero: "is_digit b \<Longrightarrow> b \<noteq> 0"
  by (auto simp: is_digit_def)

lemma decimal_no_nul: "0 \<notin> set (decimal n)"
  using decimal_digits [of n] digit_nonzero by (auto simp: list_all_iff)

end
