(* ===== verification/Echo.thy ===== *)
theory Echo
  imports Pump Decimal
begin

text \<open>
  The example server \<^verbatim>\<open>example/echo_server.c\<close>: the event handler, the port argument and the entry
  point. The handler meets the contract \<open>event_handler\<close> of the server, so everything proved under
  it holds of the echo server.
\<close>

section \<open>The handler\<close>

text \<open>The pointer \<^verbatim>\<open>ev->data\<close> as the bytes from it to the end of the connection's buffer.\<close>

definition ev_ptr :: "ws_conn \<Rightarrow> ws_event \<Rightarrow> byte list" where
  "ev_ptr c ev = (case ev_data ev of None \<Rightarrow> [] | Some a \<Rightarrow> drop a (msg_buf c))"

definition echo_reply :: "'w kernel \<Rightarrow> byte list \<Rightarrow> ws_io \<Rightarrow> nat \<Rightarrow> ws_event \<Rightarrow> 'w \<Rightarrow> (ws_io \<times> 'w) option" where
  "echo_reply K key io c ev w = do {
     s \<leftarrow> load (conns io) c;
     if ev_type ev = WS_EV_MESSAGE then do {
       (_, w') \<leftarrow> ws_io_send_message K key io c (ev_op ev) (ev_ptr (conn s) ev) (ev_len ev) w;
       Some (io, w')
     }
     else if ev_type ev = WS_EV_PING then do {
       (_, w') \<leftarrow> ws_io_send_pong K key io c (ev_ptr (conn s) ev) (ev_len ev) w;
       Some (io, w')
     }
     else Some (io, w)
   }"

definition on_event :: "'w kernel \<Rightarrow> byte list \<Rightarrow> 'w handler" where
  "on_event K key io c ev w =
     (if ev_type ev = WS_EV_CLOSE then do {
        (_, io', w') \<leftarrow> ws_io_send_close K key io c (ev_close_code ev) w;
        Some (io', w')
      }
      else echo_reply K key io c ev w)"

section \<open>The entry point\<close>

definition warn :: "'w kernel \<Rightarrow> byte list \<Rightarrow> 'w \<Rightarrow> 'w option" where
  "warn K s w = do { n \<leftarrow> str_len s; Some (snd (k_write K 2 (take n s) w)) }"

definition DEFAULT_PORT :: uint16 where "DEFAULT_PORT = 8080"

text \<open>\<^verbatim>\<open>char\<close> is signed on the target; \<^verbatim>\<open>unsigned long\<close> arithmetic wraps.\<close>

definition port_digit :: "size_t \<Rightarrow> byte \<Rightarrow> size_t" where
  "port_digit acc ch =
     (if sint ch < 48 \<or> sint ch > 57 then 0x10000
      else size_add (acc * 10 mod SIZE_MOD) (nat (sint ch - 48)))"

function port_loop :: "byte list \<Rightarrow> nat \<Rightarrow> size_t \<Rightarrow> uint16 option" where
  "port_loop s i v = do {
     ch \<leftarrow> load s i;
     if ch \<noteq> 0 then
       (let v' = port_digit v ch in if v' > 65535 then Some 0 else port_loop s (Suc i) v')
     else Some (word_of_nat v)
   }"
  by pat_completeness auto
termination
  by (relation "measure (\<lambda>(s, i, v). length s - i)") (auto simp: load_Some_iff)

declare port_loop.simps [simp del]

definition parse_port :: "byte list \<Rightarrow> uint16 option" where
  "parse_port s = port_loop s 0 0"

text \<open>The initial stack: \<^verbatim>\<open>sp[0]\<close> and the strings behind \<^verbatim>\<open>sp[1]\<close>, \<^verbatim>\<open>sp[2]\<close>, \dots\<close>

definition port_from_stack :: "int \<Rightarrow> byte list list \<Rightarrow> uint16 option" where
  "port_from_stack argc argv =
     (if argc < 2 then Some DEFAULT_PORT
      else do {
        s \<leftarrow> load argv 1;
        p \<leftarrow> parse_port s;
        Some (if p \<noteq> 0 then p else DEFAULT_PORT)
      })"

text \<open>\<open>Inl\<close> is the exit status and the final state of the world, \<open>Inr\<close> the server after \<open>n\<close> rounds.\<close>

definition ws_main ::
    "'w kernel \<Rightarrow> byte list \<Rightarrow> stack \<Rightarrow> nat \<Rightarrow> int \<Rightarrow> byte list list \<Rightarrow> 'w \<Rightarrow> (int \<times> 'w + ws_io \<times> 'w) option" where
  "ws_main K key S n argc argv w = do {
     port \<leftarrow> port_from_stack argc argv;
     r \<leftarrow> ws_serve K (on_event K key) S n port WS_ROLE_SERVER w;
     (case r of
        Inr p \<Rightarrow> Some (Inr p)
      | Inl (rc, w1) \<Rightarrow> do {
          w2 \<leftarrow> (if rc \<noteq> 0 then do {
             w' \<leftarrow> warn K (cstr ''echo-server: '') w1;
             m \<leftarrow> ws_io_strerror rc;
             w'' \<leftarrow> warn K (cstr m) w';
             warn K [0x0A, 0] w''
           } else Some w1);
          Some (Inl (if rc = 0 then 0 else 1, w2))
        })
   }"

section \<open>Reporting a failed set-up\<close>

lemma warn_eq: "0 \<notin> set (bytes_of m) \<Longrightarrow> warn K (cstr m) w = Some (snd (k_write K 2 (bytes_of m) w))"
  by (simp add: warn_def cstr_def str_len_eq)

lemma strerror_eq:
  assumes "rc \<in> {WS_IO_ERR_SOCKET, WS_IO_ERR_BIND, WS_IO_ERR_LISTEN, WS_IO_ERR_EPOLL}"
  shows "\<exists>m. ws_io_strerror rc = Some m \<and> 0 \<notin> set (bytes_of m)"
  using assms by (auto simp: ws_io_strerror_def strerror_msg_def io_err_defs bytes_of_def)

text \<open>What the program has done when the set-up failed with the text \<open>m\<close>: three writes to stderr.\<close>

definition complain :: "'w kernel \<Rightarrow> string \<Rightarrow> 'w \<Rightarrow> 'w" where
  "complain K m w = snd (k_write K 2 [0x0A] (snd (k_write K 2 (bytes_of m)
     (snd (k_write K 2 (bytes_of ''echo-server: '') w)))))"

lemma main_failed:
  assumes "port_from_stack argc argv = Some port"
    and "ws_serve K (on_event K key) S n port WS_ROLE_SERVER w = Some (Inl (rc, w1))"
    and "rc \<in> {WS_IO_ERR_SOCKET, WS_IO_ERR_BIND, WS_IO_ERR_LISTEN, WS_IO_ERR_EPOLL}"
    and "ws_io_strerror rc = Some m"
  shows "ws_main K key S n argc argv w = Some (Inl (1, complain K m w1))"
proof -
  have rc: "rc \<noteq> 0" using assms(3) by (auto simp: io_err_defs)
  have m: "0 \<notin> set (bytes_of m)" using strerror_eq [OF assms(3)] assms(4) by simp
  have n: "warn K [0x0A, 0] v = Some (snd (k_write K 2 [0x0A] v))" for v
    using str_len_eq [of "[0x0A]"] by (simp add: warn_def)
  have e: "0 \<notin> set (bytes_of ''echo-server: '')" by (simp add: bytes_of_def)
  show ?thesis
    using assms(1,2,4) rc by (simp add: ws_main_def warn_eq [OF m] warn_eq [OF e] n complain_def)
qed

section \<open>The handler meets the contract\<close>

lemma ev_ptr_len: "ev_in c ev \<Longrightarrow> ev_len ev \<le> length (ev_ptr c ev)"
  by (auto simp: ev_in_def ev_ptr_def split: option.splits)

lemma ev_ptr_bytes: "ev_in c ev \<Longrightarrow> take (ev_len ev) (ev_ptr c ev) = ev_bytes c ev"
  by (auto simp: ev_in_def ev_ptr_def ev_bytes_def split: option.splits)

lemma data_op_small: "op \<in> {WS_OP_TEXT, WS_OP_BIN} \<Longrightarrow> unat op < 16"
  by (auto simp: op_defs)

lemma pool_event_len:
  assumes "pool_wf io" and "i < WS_IO_MAX_CONNS" and "opened (conns io ! i)" and "ev_in (conn (conns io ! i)) ev"
  shows "ev_len ev \<le> WS_MAX_MESSAGE" "ev_len ev < OBJ_MAX"
proof -
  show "ev_len ev \<le> WS_MAX_MESSAGE"
    using pool_slot(2) [OF assms(1,2)] assms(3,4)
    by (auto simp: slot_wf_def conn_wf_def ev_in_def split: option.splits)
  also have "WS_MAX_MESSAGE < OBJ_MAX" by (simp add: WS_MAX_MESSAGE_def OBJ_MAX_def)
  finally show "ev_len ev < OBJ_MAX" .
qed

interpretation echo: event_handler K "on_event K [k0, k1, k2, k3]"
  for K :: "'w kernel" and k0 k1 k2 k3 :: byte
proof
  fix io :: ws_io and i ev and w :: 'w
  let ?key = "[k0, k1, k2, k3]" and ?c = "conn (conns io ! i)"
  assume pool: "pool_wf io" "i < WS_IO_MAX_CONNS" and op: "opened (conns io ! i)" and ev: "event_ok ?c ev"
  have key: "4 \<le> length ?key" by simp
  have inn: "ev_in ?c ev" using ev by (simp add: event_ok_def)
  note len = ev_ptr_len [OF inn] pool_event_len(2) [OF pool op inn]
  have cl: "returns (ws_io_send_close K ?key io i (ev_close_code ev) w)
      (\<lambda>(r, io', w'). pool_wf io' \<and> calm io io' \<and> traffic K w w')"
    by (rule io_send_close_returns [OF pool op key])
  have msg: "ev_type ev = WS_EV_MESSAGE \<Longrightarrow>
      returns (ws_io_send_message K ?key io i (ev_op ev) (ev_ptr ?c ev) (ev_len ev) w) (\<lambda>(r, w'). traffic K w w')"
    using ev by (intro io_send_message_returns [OF pool key _ len] data_op_small) (simp add: event_ok_def)
  have pong: "returns (ws_io_send_pong K ?key io i (ev_ptr ?c ev) (ev_len ev) w) (\<lambda>(r, w'). traffic K w w')"
    by (rule io_send_pong_returns [OF pool key len])
  show "returns (on_event K ?key io i ev w) (\<lambda>(io', w'). pool_wf io' \<and> calm io io' \<and> traffic K w w')"
    using cl msg pong pool
    by (auto simp: on_event_def echo_reply_def pool_slot(1) traffic.Idle elim!: returnsE)
qed

section \<open>The port argument\<close>

lemma sint_byte: "sint (b :: byte) = (if unat b < 128 then int (unat b) else int (unat b) - 256)"
proof -
  obtain n where n: "unat b = n" "n < 256" "uint b = int n"
    by (rule that [OF refl]) simp_all
  have "sint b = (int n + 128) mod 256 - 128"
    by (simp add: sint_uint signed_take_bit_eq_take_bit_shift take_bit_eq_mod add.commute flip: n(3))
  moreover have "(int n + 128) mod 256 = (if n < 128 then int n + 128 else int n - 128)"
  proof (cases "n < 128")
    case False
    have "(int n + 128) mod 256 = (int n - 128 + 256) mod 256"
      by (rule arg_cong [where f = "\<lambda>x. x mod 256"]) simp
    also have "\<dots> = int n - 128" using False n(2) by (subst mod_add_self2) simp
    finally show ?thesis using False by simp
  qed simp
  ultimately show ?thesis using n(1) by simp
qed

lemma port_digit_eq:
  assumes "acc \<le> 65535"
  shows "port_digit acc ch = (if is_digit ch then dec_step acc ch else 0x10000)"
proof -
  obtain n where n: "unat ch = n" "n < 256" using unat_byte_less by blast
  have sn: "sint ch = (if n < 128 then int n else int n - 256)" unfolding sint_byte n(1) ..
  have dn: "is_digit ch \<longleftrightarrow> 48 \<le> n \<and> n \<le> 57" by (simp add: is_digit_def n(1))
  have d: "(sint ch < 48 \<or> sint ch > 57) \<longleftrightarrow> \<not> is_digit ch"
    unfolding sn dn using n(2) by auto
  have "size_add (acc * 10 mod SIZE_MOD) (nat (sint ch - 48)) = dec_step acc ch" if "is_digit ch"
  proof -
    have s: "nat (sint ch - 48) = unat ch - 48" "unat ch - 48 \<le> 9"
      using that unfolding sn dn n(1) by auto
    have "acc * 10 mod SIZE_MOD = acc * 10" using assms by (simp add: SIZE_MOD_def)
    then show ?thesis
      unfolding s(1) dec_step_def using assms s(2) by (simp add: SIZE_MOD_def)
  qed
  then show ?thesis unfolding port_digit_def d by auto
qed

lemma port_loop_eq:
  assumes "0 \<notin> set cs" and "i \<le> length cs" and "v \<le> 65535"
  shows "port_loop (cs @ [0]) i v = Some
    (if list_all is_digit (drop i cs) \<and> foldl dec_step v (drop i cs) \<le> 65535
     then word_of_nat (foldl dec_step v (drop i cs)) else 0)"
  using assms(2,3)
proof (induction "length cs - i" arbitrary: i v)
  case 0
  then show ?case by (subst port_loop.simps) (simp add: nth_append)
next
  case (Suc k)
  then have i: "i < length cs" by simp
  let ?b = "cs ! i" and ?r = "drop (Suc i) cs"
  have d: "drop i cs = ?b # ?r" using i by (simp add: Cons_nth_drop_Suc)
  have b: "?b \<noteq> 0" using i assms(1) nth_mem by metis
  have l: "load (cs @ [0]) i = Some ?b" using i by (simp add: nth_append)
  note step = port_loop.simps [of "cs @ [0]" i v, unfolded l, simplified bind.bind_lunit] 
  show ?case
  proof (cases "is_digit ?b \<and> dec_step v ?b \<le> 65535")
    case True
    then have "port_loop (cs @ [0]) i v = port_loop (cs @ [0]) (Suc i) (dec_step v ?b)"
      using step b port_digit_eq [OF Suc(4)] by (simp add: Let_def)
    then show ?thesis using Suc(1) [of "Suc i" "dec_step v ?b"] Suc(2) i True unfolding d by simp
  next
    case False
    then have "port_loop (cs @ [0]) i v = Some 0"
      using step b port_digit_eq [OF Suc(4)] by (auto simp: Let_def)
    moreover have "\<not> (is_digit ?b \<and> foldl dec_step (dec_step v ?b) ?r \<le> 65535)"
      using False dec_mono [of "dec_step v ?b" ?r] by linarith
    ultimately show ?thesis unfolding d by auto
  qed
qed

lemma parse_port_eq:
  assumes "0 \<notin> set cs"
  shows "parse_port (cs @ [0]) = Some
    (if list_all is_digit cs \<and> dec_value cs \<le> 65535 then word_of_nat (dec_value cs) else 0)"
  using port_loop_eq [OF assms, of 0 0] by (simp add: parse_port_def dec_value_def)

section \<open>Properties\<close>

text \<open>C37. The port of the command line: without an argument it is 8080; a decimal argument from 1 to
  65535, leading zeros allowed, is the port; everything else (an empty string, any other character
  including bytes above 127, a larger number of whatever length) falls back to 8080. The string is
  never read beyond its end and the accumulator never overflows.\<close>

theorem port_from_stack_correct:
  assumes "argc \<ge> 2 \<longrightarrow> 0 \<notin> set arg \<and> (\<exists>prog rest. argv = prog # (arg @ [0]) # rest)"
  shows "port_from_stack argc argv = Some
    (if argc \<ge> 2 \<and> list_all is_digit arg \<and> 1 \<le> dec_value arg \<and> dec_value arg \<le> 65535
     then word_of_nat (dec_value arg) else 8080)"
proof (cases "argc \<ge> 2")
  case True
  then obtain prog rest where a: "argv = prog # (arg @ [0]) # rest" "0 \<notin> set arg" using assms by auto
  have z: "(word_of_nat n :: uint16) = 0 \<longleftrightarrow> n = 0" if "n \<le> 65535" for n
  proof -
    have "unat (word_of_nat n :: uint16) = n" using that by (simp add: unsigned_of_nat take_bit_nat_eq_self)
    then show ?thesis using unsigned_eq_0_iff [of "word_of_nat n :: uint16", where 'a = nat] by simp
  qed
  have l: "load argv 1 = Some (arg @ [0])" using a(1) by simp
  have p: "port_from_stack argc argv = Some (let p = (if list_all is_digit arg \<and> dec_value arg \<le> 65535
      then word_of_nat (dec_value arg) else 0) in if p \<noteq> 0 then p else 8080)"
    unfolding port_from_stack_def l bind.bind_lunit parse_port_eq [OF a(2)] DEFAULT_PORT_def Let_def
    by (rule if_not_P) (use True in simp)
  show ?thesis
  proof (cases "list_all is_digit arg \<and> dec_value arg \<le> 65535")
    case ok: True
    then have "dec_value arg = 0 \<longleftrightarrow> \<not> 1 \<le> dec_value arg" by linarith
    with True ok z [of "dec_value arg"] show ?thesis unfolding p Let_def by (simp only: if_True simp_thms)
  next
    case False
    then show ?thesis unfolding p Let_def by (simp only: if_False simp_thms) auto
  qed
qed (simp add: port_from_stack_def DEFAULT_PORT_def)

theorem port_from_stack_correct_witness:
  "port_from_stack 2 [bytes_of ''echo'' @ [0], bytes_of ''9001'' @ [0]] = Some 9001"
proof -
  have e: "2 \<le> (2 :: int) \<longrightarrow> 0 \<notin> set (bytes_of ''9001'') \<and> (\<exists>prog rest.
      [bytes_of ''echo'' @ [0], bytes_of ''9001'' @ [0]] = prog # (bytes_of ''9001'' @ [0]) # rest)"
    by (simp add: bytes_of_def)
  have d: "list_all is_digit (bytes_of ''9001'')" "dec_value (bytes_of ''9001'') = 9001"
    by (simp_all add: bytes_of_def is_digit_def dec_value_def dec_step_def)
  show ?thesis using port_from_stack_correct [OF e] d by simp
qed

end
