(* ===== verification/Serving.thy ===== *)
theory Serving
  imports Echo
begin

text \<open>
  What the server does, end to end: on an open connection with nothing pending (\<open>idle\<close>), one frame
  read is answered by exactly one frame written, a message by its echo and a Ping by a Pong; and the
  upgrade of a connection. The frame may also arrive in several reads; what comes before the last of
them is only buffered.
\<close>

section \<open>Echoing\<close>

lemma header_max: "length (encode_header h) \<le> 10 + length (mask_key h)"
  by (simp add: encode_header_def len_ext_def)

lemma send_built_sends:
  assumes "kernel_ok K sent" and "writable K" and "pool_wf io" and "i < WS_IO_MAX_CONNS"
    and "used (conns io ! i)" and "0 < n" and "n \<le> length out"
  shows "\<exists>w'. send_built K io i n out w = Some (0, w') \<and>
    sent (fd (conns io ! i)) w' = sent (fd (conns io ! i)) w @ take n out"
  using write_all_writable [OF assms(1,2,7), of "fd (conns io ! i)" w] assms(3-6)
  by (simp add: send_built_def slot_by_conn_eq pool_slot(1))

text \<open>Every message or pong of at most \<open>WS_MAX_MESSAGE\<close> bytes fits the stack buffer and is sent
  as one frame.\<close>

lemma build_whole:
  assumes "4 \<le> length key" and "unat op < 16" and "len \<le> length payload" and "len \<le> WS_MAX_MESSAGE"
  shows "\<exists>out'. build_frame key c op payload len (replicate (WS_MAX_MESSAGE + 16) 0) (WS_MAX_MESSAGE + 16) =
      Some (length (wire (out_frame key (role c) op len) (take len payload)), out') \<and>
    take (length (wire (out_frame key (role c) op len) (take len payload))) out' =
      wire (out_frame key (role c) op len) (take len payload) \<and>
    length out' = WS_MAX_MESSAGE + 16 \<and> 0 < length (wire (out_frame key (role c) op len) (take len payload))"
proof -
  let ?h = "out_frame key (role c) op len" and ?out = "replicate (WS_MAX_MESSAGE + 16) (0 :: byte)"
  have ob: "len < OBJ_MAX" using assms(4) by (simp add: WS_MAX_MESSAGE_def OBJ_MAX_def)
  have hm: "length (encode_header ?h) \<le> 14" using header_max [of ?h] assms(1) by simp
  have lw: "length (wire ?h (take len payload)) = length (encode_header ?h) + len"
    using assms(3) by (simp add: length_wire)
  have fits: "length (encode_header ?h) + len \<le> WS_MAX_MESSAGE + 16" using hm assms(4) by linarith
  have "build_frame key c op payload len ?out (WS_MAX_MESSAGE + 16) =
      Some (length (encode_header ?h) + len, patch ?out 0 (wire ?h (take len payload)))"
    using build_frame_eq [OF assms(1-3) ob out_cap refl, of c] fits by simp
  moreover have "length (wire ?h (take len payload)) \<le> length ?out" using lw fits by simp
  ultimately show ?thesis
    using lw encode_header_min [of ?h] by (simp add: patch_def)
qed

definition reply_op :: "ws_event \<Rightarrow> ws_opcode" where
  "reply_op ev = (if ev_type ev = WS_EV_PING then WS_OP_PONG else ev_op ev)"

lemma echo_sends:
  assumes k: "kernel_ok K sent" "writable K" and p: "pool_wf io" "i < WS_IO_MAX_CONNS"
    and u: "used (conns io ! i)" and o: "opened (conns io ! i)" and e: "event_ok (conn (conns io ! i)) ev"
    and a: "ws_lc_active (conn (conns io ! i))" and t: "ev_type ev \<in> {WS_EV_MESSAGE, WS_EV_PING}"
    and key: "4 \<le> length key"
  shows "\<exists>w'. on_event K key io i ev w = Some (io, w') \<and> sent (fd (conns io ! i)) w' = sent (fd (conns io ! i)) w @
    wire (out_frame key (role (conn (conns io ! i))) (reply_op ev) (ev_len ev)) (ev_bytes (conn (conns io ! i)) ev)"
proof -
  let ?s = "conns io ! i" and ?c = "conn (conns io ! i)"
  have inn: "ev_in ?c ev" using e by (simp add: event_ok_def)
  have op: "unat (reply_op ev) < 16"
    using t e data_op_small [of "ev_op ev"] by (auto simp: reply_op_def event_ok_def op_defs)
  note len = ev_ptr_len [OF inn] pool_event_len(1) [OF p o inn]
  let ?W = "wire (out_frame key (role ?c) (reply_op ev) (ev_len ev)) (ev_bytes ?c ev)"
  obtain out' where b: "build_frame key ?c (reply_op ev) (ev_ptr ?c ev) (ev_len ev)
        (replicate (WS_MAX_MESSAGE + 16) 0) (WS_MAX_MESSAGE + 16) = Some (length ?W, out')"
      "take (length ?W) out' = ?W" "length out' = WS_MAX_MESSAGE + 16" "0 < length ?W"
    using build_whole [OF key op len, of ?c] unfolding ev_ptr_bytes [OF inn] by blast
  have "length ?W \<le> length out'" using b(2) by (metis length_take min.cobounded1)
  then obtain w' where w': "send_built K io i (length ?W) out' w = Some (0, w')"
      "sent (fd ?s) w' = sent (fd ?s) w @ ?W"
    using send_built_sends [OF k p u b(4)] b(2) by metis
  have "on_event K key io i ev w = Some (io, w')"
  proof (cases "ev_type ev = WS_EV_PING")
    case True
    then show ?thesis using b(1) w'(1) a
      by (simp add: on_event_def echo_reply_def ws_io_send_pong_def ws_send_pong_def pool_slot(1) [OF p] reply_op_def)
  next
    case False
    then show ?thesis using b(1) w'(1) a t
      by (simp add: on_event_def echo_reply_def ws_io_send_message_def ws_send_message_def pool_slot(1) [OF p] reply_op_def)
  qed
  then show ?thesis using w'(2) by blast
qed

lemma poll_idle:
  assumes "conn_wf c" and "\<not> failed c" and "pending c = []"
  shows "ws_conn_poll c ev = Some (WS_EV_NONE, c, clear_event ev)"
proof (rule poll_incomplete [OF assms(1,2)])
  show "\<not> (\<exists>h D R. wf_frame h D \<and> pending c = wire h D @ R)"
    using assms(3) encode_header_min by (fastforce simp: wire_def)
qed

lemma drain_idle:
  assumes "pool_wf io" and "i < WS_IO_MAX_CONNS" and "conn_wf (conn (conns io ! i))"
    and "\<not> failed (conn (conns io ! i))" and "pending (conn (conns io ! i)) = []"
  shows "drain_events H io i ev w = Some (0, io, w)"
  using assms(1,2) poll_idle [OF assms(3-5), of ev]
  by (subst drain_events.simps) (simp add: set_slot_def pool_wf_def)

lemma slot_by_fd_single:
  assumes "pool_wf io" and "single (map owner (conns io))" and "i < WS_IO_MAX_CONNS" and "used (conns io ! i)"
  shows "slot_by_fd io (fd (conns io ! i)) = Some (Some i)"
  using assms(1)
proof (cases rule: slot_by_fd_cases [of _ "fd (conns io ! i)"])
  case 1
  then show ?thesis using assms(3,4) by (auto simp: slot_by_fd_eq [OF assms(1)] split: if_split_asm)
next
  case (2 j)
  then have "owner (conns io ! i) = owner (conns io ! j)" using assms(4) by (simp add: owner_def)
  then have "j = i" using assms 2 by (simp add: single_def pool_wf_def owner_def)
  with 2 show ?thesis by simp
qed

text \<open>A whole data frame read by the server is one event of the driver.\<close>

lemma deliver_whole:
  assumes "\<not> failed c" and "ws_lc_active c" and "frag c = WS_FRAG_NONE" and "asm c = []"
    and "masked h \<or> role c = WS_ROLE_CLIENT" and "fin h"
    and "opcode h = WS_OP_BIN \<or> opcode h = WS_OP_TEXT \<and> is_utf8 D"
  shows "deliver (dabs c) h D = (Message (opcode h) D, dabs c)"
  using assms by (auto simp: deliver_def deliver_data_def dabs_def ws_lc_active_def op_defs Let_def)

lemma observe_message:
  assumes "observe (t, c, ev) = Message op D"
  shows "t = WS_EV_MESSAGE \<and> ev_op ev = op \<and> ev_bytes c ev = D"
  using assms by (auto simp: observe_def split: ws_event_type.splits)

lemma ev_bytes_length: "ev_in c ev \<Longrightarrow> length (ev_bytes c ev) = ev_len ev"
  by (auto simp: ev_in_def ev_bytes_def split: option.splits)

text \<open>What is buffered together with what is fed may complete a frame, or be the beginning of one. The
  beginning of a frame contains no frame.\<close>

lemma wire_length_unique:
  assumes "wf_frame h D" and "wf_frame h' D'" and "wire h D = wire h' D' @ R"
  shows "length (wire h D) = length (wire h' D')"
proof -
  let ?n = "length (wire h D)"
  have w: "wf_header h" "wf_header h'" "length D = unat (payload_len h)" "length D' = unat (payload_len h')"
    using assms(1,2) by (simp_all add: wf_frame_def)
  have e: "encode_header h @ wire_payload h D = encode_header h' @ (wire_payload h' D' @ R)"
    using assms(3) by (simp add: wire_def)
  have n: "?n = length (encode_header h @ wire_payload h D)" by (simp add: wire_def)
  have le: "length (encode_header h) \<le> ?n" "length (encode_header h') \<le> ?n"
    unfolding n by (simp, subst e, simp)
  have "ws_parse_header (encode_header h @ wire_payload h D) ?n zero_header = Some (int (length (encode_header h)), h)"
    using parse_complete [OF w(1), of ?n "wire_payload h D"] le(1) n by simp
  moreover have "ws_parse_header (encode_header h @ wire_payload h D) ?n zero_header =
      Some (int (length (encode_header h')), h')"
    using parse_complete [OF w(2), of ?n "wire_payload h' D' @ R"] le(2) n unfolding e by simp
  ultimately have "h = h'" by simp
  then show ?thesis using w(3,4) by (simp add: length_wire)
qed

lemma prefix_no_frame:
  assumes "wf_frame h D" and "wire h D = Q @ Z" and "Z \<noteq> []"
  shows "\<not> (\<exists>h' D' R. wf_frame h' D' \<and> Q = wire h' D' @ R)"
proof
  assume "\<exists>h' D' R. wf_frame h' D' \<and> Q = wire h' D' @ R"
  then obtain h' D' R where q: "wf_frame h' D'" "Q = wire h' D' @ R" by blast
  then have e: "wire h D = wire h' D' @ (R @ Z)" using assms(2) by simp
  from wire_length_unique [OF assms(1) q(1) e] e assms(3) show False by (metis append_is_Nil_conv append_self_conv append_eq_append_conv)
qed

text \<open>A reception by the server's driver between two messages.\<close>

lemma feed_recv:
  assumes p: "pool_wf io" "i < WS_IO_MAX_CONNS" and s: "s = conns io ! i" "opened s"
    and c: "frag (conn s) = WS_FRAG_NONE"
    and bytes: "0 < n" "n \<le> length bytes" "length bytes \<le> WS_MAX_MESSAGE"
      "length (pending (conn s)) + n \<le> WS_MAX_MESSAGE"
  shows "\<exists>c1. feed H io i bytes n ev w = drain_events H (set_slot io i (s\<lparr>conn := c1\<rparr>)) i ev w \<and>
    conn_wf c1 \<and> dabs c1 = dabs (conn s) \<and> pending c1 = pending (conn s) @ take n bytes \<and>
    msg_cap c1 = WS_MAX_MESSAGE \<and> (\<forall>c2. conn_wf c2 \<longrightarrow> msg_cap c2 = WS_MAX_MESSAGE \<longrightarrow>
      pool_wf (set_slot io i (s\<lparr>conn := c2\<rparr>)))"
proof -
  let ?c = "conn s"
  have wf: "slot_wf s" using pool_slot(2) [OF p] s(1) by simp
  then have cw: "conn_wf ?c" "msg_cap ?c = WS_MAX_MESSAGE" using s(2) by (simp_all add: slot_wf_def)
  have ob: "length bytes < OBJ_MAX" using bytes(3) by (simp add: WS_MAX_MESSAGE_def OBJ_MAX_def)
  have "msg_len ?c = 0" "rx_len ?c = length (pending ?c)"
    using cw(1) c wf_lengths [OF cw(1)] by (auto simp: conn_wf_def)
  then have room: "msg_len ?c + rx_len ?c + n \<le> msg_cap ?c" using bytes(4) cw(2) by simp
  obtain c1 where r: "ws_conn_recv ?c bytes n = Some (to_int n, c1)" "conn_wf c1" "dabs c1 = dabs ?c"
      "pending c1 = pending ?c @ take n bytes" "msg_cap c1 = msg_cap ?c"
    using recv_accepts [OF cw(1) bytes(2) ob room] by blast
  have "\<not> to_int n < 0" using bytes(2,3) by (simp add: to_int_small WS_MAX_MESSAGE_def)
  then have "feed H io i bytes n ev w = drain_events H (set_slot io i (s\<lparr>conn := c1\<rparr>)) i ev w"
    using bytes(1) r(1) s(1) by (simp add: feed_def pool_slot(1) [OF p])
  moreover have "pool_wf (set_slot io i (s\<lparr>conn := c2\<rparr>))" if "conn_wf c2" "msg_cap c2 = WS_MAX_MESSAGE" for c2
    by (rule set_slot_wf [OF p(1)]) (use wf that in \<open>simp add: slot_wf_def\<close>)
  ultimately show ?thesis using r cw(2) by auto
qed

text \<open>Bytes that leave a frame incomplete are kept, and nothing else happens.\<close>

lemma feed_partial:
  assumes p: "pool_wf io" "i < WS_IO_MAX_CONNS" and s: "s = conns io ! i" "opened s"
    and c: "\<not> failed (conn s)" "frag (conn s) = WS_FRAG_NONE" and h: "wf_frame h D"
    and bytes: "wire h D = pending (conn s) @ take n bytes @ Z" "Z \<noteq> []" "0 < n" "n \<le> length bytes"
      "length bytes \<le> WS_MAX_MESSAGE" "length (wire h D) \<le> WS_MAX_MESSAGE"
  shows "\<exists>c1. feed H io i bytes n ev w = Some (0, set_slot io i (s\<lparr>conn := c1\<rparr>), w) \<and>
    pool_wf (set_slot io i (s\<lparr>conn := c1\<rparr>)) \<and> dabs c1 = dabs (conn s) \<and>
    pending c1 = pending (conn s) @ take n bytes"
proof -
  have "length (pending (conn s)) + n \<le> WS_MAX_MESSAGE" using bytes(4,6) unfolding bytes(1) by simp
  from feed_recv [OF p s c(2) bytes(3-5) this, of H ev w] obtain c1 where
    f: "feed H io i bytes n ev w = drain_events H (set_slot io i (s\<lparr>conn := c1\<rparr>)) i ev w"
      "conn_wf c1" "dabs c1 = dabs (conn s)" "pending c1 = pending (conn s) @ take n bytes"
      "pool_wf (set_slot io i (s\<lparr>conn := c1\<rparr>))" by blast
  have nf: "\<not> failed c1" using c(1) f(3) dabs_simps(8) by metis
  have e: "wire h D = pending c1 @ Z" using bytes(1) f(4) by simp
  have "ws_conn_poll c1 ev = Some (WS_EV_NONE, c1, clear_event ev)"
    by (rule poll_incomplete [OF f(2) nf prefix_no_frame [OF h e bytes(2)]])
  moreover have "i < length (conns io)" using p by (simp add: pool_wf_def)
  ultimately have "drain_events H (set_slot io i (s\<lparr>conn := c1\<rparr>)) i ev w = Some (0, set_slot io i (s\<lparr>conn := c1\<rparr>), w)"
    by (subst drain_events.simps) (simp add: set_slot_def)
  then show ?thesis using f by auto
qed

text \<open>Bytes that complete a frame are one protocol step: the first poll performs it and the handler is
  called with its event.\<close>

lemma feed_frame:
  assumes p: "pool_wf io" "i < WS_IO_MAX_CONNS" and s: "s = conns io ! i" "opened s"
    and c: "\<not> failed (conn s)" "frag (conn s) = WS_FRAG_NONE" and h: "wf_frame h D"
    and bytes: "pending (conn s) @ take n bytes = wire h D" "0 < n" "n \<le> length bytes"
      "length bytes \<le> WS_MAX_MESSAGE" "length (wire h D) \<le> WS_MAX_MESSAGE"
  shows "\<exists>t c2 ev2. feed H io i bytes n ev w =
      (let io2 = set_slot io i (s\<lparr>conn := c2\<rparr>) in
       if t = WS_EV_NONE then Some (0, io2, w)
       else do { (io3, w3) \<leftarrow> H io2 i ev2 w;
         if is_terminal t then Some (1, io3, w3) else drain_events H io3 i ev2 w3 }) \<and>
    pool_wf (set_slot io i (s\<lparr>conn := c2\<rparr>)) \<and> conn_wf c2 \<and> ev_type ev2 = t \<and> (pending c2 = [] \<or> failed c2) \<and>
    deliver (dabs (conn s)) h D = (observe (t, c2, ev2), dabs c2) \<and> (t \<noteq> WS_EV_NONE \<longrightarrow> event_ok c2 ev2)"
proof -
  have "length (pending (conn s)) + n \<le> WS_MAX_MESSAGE"
    using arg_cong [OF bytes(1), of length] bytes(3,5) by simp
  from feed_recv [OF p s c(2) bytes(2-4) this, of H ev w] obtain c1 where
    f: "feed H io i bytes n ev w = drain_events H (set_slot io i (s\<lparr>conn := c1\<rparr>)) i ev w"
      "conn_wf c1" "dabs c1 = dabs (conn s)" "pending c1 = pending (conn s) @ take n bytes" "msg_cap c1 = WS_MAX_MESSAGE"
    and wf: "\<And>c2. conn_wf c2 \<Longrightarrow> msg_cap c2 = WS_MAX_MESSAGE \<Longrightarrow> pool_wf (set_slot io i (s\<lparr>conn := c2\<rparr>))" by blast
  have nf: "\<not> failed c1" using c(1) f(3) dabs_simps(8) by metis
  have pe: "pending c1 = wire h D @ []" using f(4) bytes(1) by simp
  obtain t c2 ev2 where q: "ws_conn_poll c1 ev = Some (t, c2, ev2)" "poll_ok c1 h D [] (t, c2, ev2)"
    using poll_frame [OF f(2) nf h pe, of ev] by (metis prod_cases3)
  note ok = poll_okD [OF q(2)]
  have d: "deliver (dabs (conn s)) h D = (observe (t, c2, ev2), dabs c2)"
    using ok(3) ok(7) f(3) by (intro prod_eqI) simp_all
  have lo: "pending c2 = [] \<or> failed c2"
    using left_over_Nil [OF ok(6)] deliver_latched [of "dabs (conn s)" h D] d f(3)
    by (cases "observe (t, c2, ev2) = Violation") (simp_all add: latched_def)
  have et: "ev_type ev2 = t" using poll_wf [OF f(2), of ev] q(1) by auto
  have eo: "t \<noteq> WS_EV_NONE \<longrightarrow> event_ok c2 ev2" using poll_event_ok [OF f(2) q(1)] by simp
  have pw: "pool_wf (set_slot io i (s\<lparr>conn := c2\<rparr>))" using ok(1,4) f(5) by (intro wf) simp_all
  let ?io1 = "set_slot io i (s\<lparr>conn := c1\<rparr>)" and ?io2 = "set_slot io i (s\<lparr>conn := c2\<rparr>)"
  have i: "i < length (conns io)" using p by (simp add: pool_wf_def)
  have "drain_events H ?io1 i ev w = (if t = WS_EV_NONE then Some (0, ?io2, w)
       else do { (io3, w3) \<leftarrow> H ?io2 i ev2 w;
         if is_terminal t then Some (1, io3, w3) else drain_events H io3 i ev2 w3 })"
    using q(1) et i by (subst drain_events.simps) (simp add: set_slot_def)
  then show ?thesis using f(1) pw ok(1) lo d et eo unfolding Let_def by auto
qed

text \<open>The events the echo server answers, with the opcode of the answer.\<close>

definition answer :: "devent \<Rightarrow> ws_opcode \<Rightarrow> byte list \<Rightarrow> bool" where
  "answer e op D \<longleftrightarrow> e = Message op D \<or> e = Ping D \<and> op = WS_OP_PONG"

lemma observe_answer:
  assumes "observe (t, c, ev) = e" and "answer e op D" and "ev_type ev = t"
  shows "t \<in> {WS_EV_MESSAGE, WS_EV_PING} \<and> reply_op ev = op \<and> ev_bytes c ev = D"
  using assms by (auto simp: answer_def observe_def reply_op_def split: ws_event_type.splits)

lemma feed_reply:
  assumes k: "kernel_ok K sent" "writable K" and p: "pool_wf io" "i < WS_IO_MAX_CONNS"
    and s: "s = conns io ! i" "used s" "opened s"
    and c: "ws_lc_active (conn s)" "\<not> failed (conn s)" "frag (conn s) = WS_FRAG_NONE"
    and h: "wf_frame h D" "deliver (dabs (conn s)) h D = (e, dabs (conn s))" "answer e op D"
    and bytes: "pending (conn s) @ take n bytes = wire h D" "0 < n" "n \<le> length bytes"
      "length bytes \<le> WS_MAX_MESSAGE" "length (wire h D) \<le> WS_MAX_MESSAGE"
    and key: "4 \<le> length key"
  shows "\<exists>c2 w'. feed (on_event K key) io i bytes n ev w =
      Some (0, set_slot io i (s\<lparr>conn := c2\<rparr>), w') \<and>
    sent (fd s) w' = sent (fd s) w @ wire (out_frame key (role (conn s)) op (length D)) D \<and>
    conn_wf c2 \<and> pending c2 = [] \<and> dabs c2 = dabs (conn s)"
proof -
  obtain t c2 ev2 where f: "feed (on_event K key) io i bytes n ev w =
        (let io2 = set_slot io i (s\<lparr>conn := c2\<rparr>) in
         if t = WS_EV_NONE then Some (0, io2, w)
         else do { (io3, w3) \<leftarrow> on_event K key io2 i ev2 w;
           if is_terminal t then Some (1, io3, w3) else drain_events (on_event K key) io3 i ev2 w3 })"
      "pool_wf (set_slot io i (s\<lparr>conn := c2\<rparr>))" "conn_wf c2" "ev_type ev2 = t" "pending c2 = [] \<or> failed c2"
      "deliver (dabs (conn s)) h D = (observe (t, c2, ev2), dabs c2)" "t \<noteq> WS_EV_NONE \<longrightarrow> event_ok c2 ev2"
    using feed_frame [OF p s(1,3) c(2,3) h(1) bytes, of "on_event K key" ev w] by blast
  let ?io2 = "set_slot io i (s\<lparr>conn := c2\<rparr>)"
  have d: "observe (t, c2, ev2) = e" "dabs c2 = dabs (conn s)" using h(2) f(6) by simp_all
  have t: "t \<in> {WS_EV_MESSAGE, WS_EV_PING}" "reply_op ev2 = op" "ev_bytes c2 ev2 = D"
    using observe_answer [OF d(1) h(3) f(4)] by auto
  have ok: "event_ok c2 ev2" using f(7) t(1) by auto
  have fl: "\<not> failed c2" "ws_lc_active c2" "role c2 = role (conn s)"
    using d(2) c(1,2) by (auto simp: dabs_def ws_lc_active_def)
  have at: "conns ?io2 ! i = s\<lparr>conn := c2\<rparr>" by (subst set_slot_nth [OF p]) simp
  have ln: "length D = ev_len ev2" using ev_bytes_length [of c2 ev2] ok t(3) by (simp add: event_ok_def)
  obtain w' where w': "on_event K key ?io2 i ev2 w = Some (?io2, w')"
      "sent (fd s) w' = sent (fd s) w @ wire (out_frame key (role (conn s)) op (length D)) D"
    using echo_sends [OF k f(2) p(2), of ev2 key w] at s(2,3) ok fl(2,3) t f(4) key ln by auto
  have "drain_events (on_event K key) ?io2 i ev2 w' = Some (0, ?io2, w')"
    using drain_idle [OF f(2) p(2)] f(3,5) fl(1) unfolding at by simp
  then have "feed (on_event K key) io i bytes n ev w = Some (0, ?io2, w')"
    using f(1) w'(1) t(1) by (auto simp: is_terminal_def)
  then show ?thesis using w' f(3,5) fl(1) d(2) by blast
qed

text \<open>A chunk read from an open connection is fed to its driver.\<close>

lemma client_chunk:
  assumes "kernel_ok K sent" and "pool_wf io" and "i < WS_IO_MAX_CONNS" and "s = conns io ! i" and "opened s"
    and "k_read K (fd s) 4096 w = (int (length bs), bs, w1)" and "bs \<noteq> []"
  obtains chunk where "on_client_data K H S io i w = feed H io i chunk (length bs) (st_event S) w1"
    "take (length bs) chunk = bs" "length bs \<le> length chunk" "length chunk \<le> WS_MAX_MESSAGE"
proof
  let ?chunk = "patch (take 4096 (st_chunk S @ replicate 4096 0)) 0 bs"
  have le: "length bs \<le> 4096" using kernel_readD [OF assms(1,6)] by simp
  have "sys_read K (fd s) (take 4096 (st_chunk S @ replicate 4096 0)) 0 4096 w = Some (int (length bs), ?chunk, w1)"
    using assms(6) le unfolding sys_read_def by (simp del: take_append)
  then show "on_client_data K H S io i w = feed H io i ?chunk (length bs) (st_event S) w1"
    using assms(4,5,7) by (simp add: on_client_data_def pool_slot(1) [OF assms(2,3)] del: take_append)
  show "take (length bs) ?chunk = bs" "length bs \<le> length ?chunk" "length ?chunk \<le> WS_MAX_MESSAGE"
    using le by (simp_all add: patch_def WS_MAX_MESSAGE_def)
qed

lemma wire_nonempty: "wire h D \<noteq> []"
  using encode_header_min [of h] by (auto simp: wire_def)

text \<open>A connection of the server that is open and between messages, with the beginning \<open>P\<close> of a frame
  received; it is idle when nothing has been received.\<close>

definition waiting :: "byte list \<Rightarrow> ws_slot \<Rightarrow> bool" where
  "waiting P s \<longleftrightarrow> used s \<and> opened s \<and> ws_lc_active (conn s) \<and> \<not> failed (conn s) \<and> role (conn s) = WS_ROLE_SERVER \<and>
     frag (conn s) = WS_FRAG_NONE \<and> pending (conn s) = P"

lemma waitingD:
  assumes "waiting P s"
  shows "used s" "opened s" "ws_lc_active (conn s)" "\<not> failed (conn s)" "role (conn s) = WS_ROLE_SERVER"
    "frag (conn s) = WS_FRAG_NONE" "pending (conn s) = P"
  using assms by (simp_all add: waiting_def)

lemma waiting_same:
  assumes "waiting P s" and "dabs c' = dabs (conn s)" and "pending c' = Q"
  shows "waiting Q (s\<lparr>conn := c'\<rparr>)"
  using assms by (auto simp: waiting_def dabs_def ws_lc_active_def)

definition idle :: "ws_slot \<Rightarrow> bool" where
  "idle s \<longleftrightarrow> used s \<and> opened s \<and> ws_lc_active (conn s) \<and> \<not> failed (conn s) \<and> role (conn s) = WS_ROLE_SERVER \<and>
     frag (conn s) = WS_FRAG_NONE \<and> pending (conn s) = []"

lemma idle_waiting: "idle s \<longleftrightarrow> waiting [] s"
  by (simp add: idle_def waiting_def)

lemma idleD:
  assumes "idle s"
  shows "used s" "opened s" "ws_lc_active (conn s)" "\<not> failed (conn s)" "role (conn s) = WS_ROLE_SERVER"
    "frag (conn s) = WS_FRAG_NONE" "pending (conn s) = []"
  using waitingD [of "[]" s] assms by (simp_all add: idle_waiting)

definition plain_frame :: "ws_opcode \<Rightarrow> byte list \<Rightarrow> byte list" where
  "plain_frame op D = wire \<lparr>opcode = op, payload_len = word_of_nat (length D), mask_key = [0, 0, 0, 0], fin = True,
     masked = False, rsv = 0\<rparr> D"

lemma plain_frame_eq: "wire (out_frame key WS_ROLE_SERVER op (length D)) D = plain_frame op D"
  by (simp add: plain_frame_def out_frame_def)

lemma on_readable_slot:
  assumes "pool_wf io" and "single (map owner (conns io))" and "i < WS_IO_MAX_CONNS" and "s = conns io ! i"
    and "used s" and "fd s \<noteq> listen_fd io"
  shows "on_readable K H S io (fd s) w = service_client K H S io i w"
  using slot_by_fd_single [OF assms(1-3)] assms(4-6) by (simp add: on_readable_def)

text \<open>The socket becomes readable and the bytes read leave a frame incomplete, or complete it.\<close>

lemma partial_readable:
  assumes k: "kernel_ok K sent" and p: "pool_wf io" "single (map owner (conns io))" "i < WS_IO_MAX_CONNS"
    and s: "s = conns io ! i" "waiting P s" "fd s \<noteq> listen_fd io"
    and h: "wf_frame h D" "wire h D = P @ bs @ Z" "Z \<noteq> []" "length (wire h D) \<le> WS_MAX_MESSAGE"
    and read: "k_read K (fd s) 4096 w = (int (length bs), bs, w1)" "bs \<noteq> []"
  shows "\<exists>c'. on_readable K H S io (fd s) w = Some (set_slot io i (s\<lparr>conn := c'\<rparr>), w1) \<and>
    pool_wf (set_slot io i (s\<lparr>conn := c'\<rparr>)) \<and> waiting (P @ bs) (s\<lparr>conn := c'\<rparr>)"
proof -
  note u = waitingD [OF s(2)]
  obtain chunk where ch: "on_client_data K H S io i w = feed H io i chunk (length bs) (st_event S) w1"
      "take (length bs) chunk = bs" "length bs \<le> length chunk" "length chunk \<le> WS_MAX_MESSAGE"
    by (rule client_chunk [OF k p(1,3) s(1) u(2) read])
  have e: "wire h D = pending (conn s) @ take (length bs) chunk @ Z" using h(2) u(7) ch(2) by simp
  have n: "0 < length bs" using read(2) by simp
  obtain c1 where f: "feed H io i chunk (length bs) (st_event S) w1 = Some (0, set_slot io i (s\<lparr>conn := c1\<rparr>), w1)"
      "pool_wf (set_slot io i (s\<lparr>conn := c1\<rparr>))" "dabs c1 = dabs (conn s)" "pending c1 = P @ bs"
    using feed_partial [OF p(1,3) s(1) u(2,4,6) h(1) e h(3) n ch(3,4) h(4), of H "st_event S" w1] u(7) ch(2) by auto
  have "on_readable K H S io (fd s) w = Some (set_slot io i (s\<lparr>conn := c1\<rparr>), w1)"
    using on_readable_slot [OF p s(1) u(1) s(3), of K H S w] ch(1) f(1) by (simp add: service_client_def)
  then show ?thesis using f(2) waiting_same [OF s(2) f(3,4)] by blast
qed

lemma complete_readable:
  assumes k: "kernel_ok K sent" "writable K" and p: "pool_wf io" "single (map owner (conns io))" "i < WS_IO_MAX_CONNS"
    and s: "s = conns io ! i" "waiting P s" "fd s \<noteq> listen_fd io"
    and h: "wf_frame h D" "deliver (dabs (conn s)) h D = (e, dabs (conn s))" "answer e op D"
    and w: "P @ bs = wire h D" "length (wire h D) \<le> WS_MAX_MESSAGE"
    and read: "k_read K (fd s) 4096 w = (int (length bs), bs, w1)" "bs \<noteq> []"
  shows "\<exists>c' w'. on_readable K (on_event K [k0, k1, k2, k3]) S io (fd s) w =
      Some (set_slot io i (s\<lparr>conn := c'\<rparr>), w') \<and>
    sent (fd s) w' = sent (fd s) w1 @ plain_frame op D \<and>
    conn_wf c' \<and> pending c' = [] \<and> dabs c' = dabs (conn s)"
proof -
  let ?H = "on_event K [k0, k1, k2, k3]"
  note u = waitingD [OF s(2)]
  obtain chunk where ch: "on_client_data K ?H S io i w = feed ?H io i chunk (length bs) (st_event S) w1"
      "take (length bs) chunk = bs" "length bs \<le> length chunk" "length chunk \<le> WS_MAX_MESSAGE"
    by (rule client_chunk [OF k(1) p(1,3) s(1) u(2) read])
  have e: "pending (conn s) @ take (length bs) chunk = wire h D" using w(1) u(7) ch(2) by simp
  have n: "0 < length bs" "4 \<le> length [k0, k1, k2, k3]" using read(2) by simp_all
  obtain c2 w' where f: "feed ?H io i chunk (length bs) (st_event S) w1 = Some (0, set_slot io i (s\<lparr>conn := c2\<rparr>), w')"
      "sent (fd s) w' = sent (fd s) w1 @ plain_frame op D" "conn_wf c2 \<and> pending c2 = [] \<and> dabs c2 = dabs (conn s)"
    using feed_reply [OF k p(1,3) s(1) u(1,2) u(3,4,6) h e n(1) ch(3,4) w(2) n(2), of "st_event S" w1]
    unfolding u(5) plain_frame_eq by blast
  have "on_readable K ?H S io (fd s) w = Some (set_slot io i (s\<lparr>conn := c2\<rparr>), w')"
    using on_readable_slot [OF p s(1) u(1) s(3), of K ?H S w] ch(1) f(1) by (simp add: service_client_def)
  then show ?thesis using f(2,3) by blast
qed

lemma reply_readable:
  assumes k: "kernel_ok K sent" "writable K" and p: "pool_wf io" "single (map owner (conns io))" "i < WS_IO_MAX_CONNS"
    and s: "s = conns io ! i" "idle s" "fd s \<noteq> listen_fd io"
    and h: "wf_frame h D" "deliver (dabs (conn s)) h D = (e, dabs (conn s))" "answer e op D"
    and read: "k_read K (fd s) 4096 w = (int (length (wire h D)), wire h D, w1)"
  shows "\<exists>c' w'. on_readable K (on_event K [k0, k1, k2, k3]) S io (fd s) w =
      Some (set_slot io i (s\<lparr>conn := c'\<rparr>), w') \<and>
    sent (fd s) w' = sent (fd s) w1 @ plain_frame op D \<and>
    conn_wf c' \<and> pending c' = [] \<and> dabs c' = dabs (conn s)"
proof -
  have "length (wire h D) \<le> WS_MAX_MESSAGE" using kernel_readD [OF k(1) read] by (simp add: WS_MAX_MESSAGE_def)
  then show ?thesis
    using complete_readable [OF k p s(1) _ s(3) h append_Nil _ read wire_nonempty] s(2) unfolding idle_waiting by blast
qed

lemma waiting_message:
  assumes "pool_wf io" and "i < WS_IO_MAX_CONNS" and "s = conns io ! i" and "waiting P s"
    and "masked h" and "fin h" and "opcode h = WS_OP_BIN \<or> opcode h = WS_OP_TEXT \<and> is_utf8 D"
  shows "deliver (dabs (conn s)) h D = (Message (opcode h) D, dabs (conn s))"
proof -
  note u = waitingD [OF assms(4)]
  have cw: "conn_wf (conn s)" using pool_slot(2) [OF assms(1,2)] assms(3) u(2) by (simp add: slot_wf_def)
  then have "asm (conn s) = []" using u(6) wf_lengths [OF cw] by (auto simp: conn_wf_def)
  then show ?thesis using deliver_whole [OF u(4,3,6) _ disjI1 [OF assms(5)] assms(6,7)] by blast
qed

lemma idle_ping:
  assumes "idle s" and "masked h" and "opcode h = WS_OP_PING"
  shows "deliver (dabs (conn s)) h D = (Ping D, dabs (conn s))"
  using idleD [OF assms(1)] assms(2,3) by (auto simp: deliver_def ws_lc_active_def op_defs)

lemma echo_readable:
  assumes "kernel_ok K sent" and "writable K" and p: "pool_wf io" "single (map owner (conns io))" "i < WS_IO_MAX_CONNS"
    and s: "s = conns io ! i" "idle s" "fd s \<noteq> listen_fd io"
    and h: "wf_frame h D" "masked h" "fin h" "opcode h = WS_OP_BIN \<or> opcode h = WS_OP_TEXT \<and> is_utf8 D"
    and read: "k_read K (fd s) 4096 w = (int (length (wire h D)), wire h D, w1)"
  shows "\<exists>c' w'. on_readable K (on_event K [k0, k1, k2, k3]) S io (fd s) w =
      Some (set_slot io i (s\<lparr>conn := c'\<rparr>), w') \<and>
    sent (fd s) w' = sent (fd s) w1 @ plain_frame (opcode h) D \<and>
    conn_wf c' \<and> pending c' = [] \<and> dabs c' = dabs (conn s)"
  by (rule reply_readable [OF assms(1-2) p s h(1) waiting_message [OF p(1,3) s(1) s(2) [unfolded idle_waiting] h(2-4)] _ read])
    (simp add: answer_def)

section \<open>The upgrade\<close>

lemma take_read:
  assumes "off + length bs \<le> length buf"
  shows "take (off + length bs) (patch buf off bs) = take off buf @ bs"
  using assms by (simp add: patch_def)

lemma blank_line_at:
  assumes "length buf = 2048" and "n \<le> 2048" and "take n buf = head @ crlf @ crlf @ rest"
    and "\<forall>j < length head. \<not> occurs_at (crlf @ crlf) (take n buf) j"
  shows "find_sub buf n (crlf @ crlf @ [0]) = Some (int (length head))"
proof -
  obtain r where r: "find_sub buf n ((crlf @ crlf) @ [0]) = Some r" "first_at (crlf @ crlf) (take n buf) r"
    using find_sub_first [of n buf "crlf @ crlf"] assms(1,2) hsbuf_size crlf_no_nul by auto
  have "occurs_at (crlf @ crlf) (take n buf) (length head)"
    unfolding occurs_at_iff using assms(3) by (metis append_assoc)
  then show ?thesis using first_at_found [OF r(2) _ assms(4)] r(1) by simp
qed

lemma send_accept_writable:
  assumes "kernel_ok K sent" and "writable K" and "length accept = 28"
  shows "\<exists>w'. send_accept K d accept w = Some (0, w') \<and> sent d w' = sent d w @ accept_response accept"
proof -
  have t: "take (length accept_pre - 1) accept_pre = butlast accept_pre" by (simp add: butlast_conv_take)
  obtain w1 where a: "write_all K d accept_pre (length accept_pre - 1) w = Some (0, w1)"
      "sent d w1 = sent d w @ butlast accept_pre"
    using write_all_writable [OF assms(1,2), of "length accept_pre - 1" accept_pre d w] t by auto
  obtain w2 where b: "write_all K d accept 28 w1 = Some (0, w2)" "sent d w2 = sent d w1 @ accept"
    using write_all_writable [OF assms(1,2), of 28 accept d w1] assms(3) by auto
  obtain w3 where c: "write_all K d (crlf @ crlf @ [0]) 4 w2 = Some (0, w3)" "sent d w3 = sent d w2 @ crlf @ crlf"
    using write_all_writable [OF assms(1,2), of 4 "crlf @ crlf @ [0]" d w2] by (auto simp: crlf_def)
  show ?thesis
    using a b c by (simp add: send_accept_def accept_pre_len accept_response_def)
qed

lemma finish_handshake_eq:
  assumes k: "kernel_ok K sent" "writable K" and p: "pool_wf io" "i < WS_IO_MAX_CONNS"
    and T: "take (hslen (conns io ! i)) (hsbuf (conns io ! i)) = head @ crlf @ crlf @ rest"
    and key: "key_line head key" "key \<noteq> []" "length key \<le> 64"
  shows "\<exists>w'. finish_handshake K H S io i (int (length head)) w =
      feed H (set_slot io i ((conns io ! i)\<lparr>conn := ws_conn_open (ws_conn_init (io_role io)
        (slot_buf (conns io ! i)) WS_MAX_MESSAGE), opened := True\<rparr>))
        i (drop (length head + 4) (hsbuf (conns io ! i))) (length rest) (st_event S) w' \<and>
    sent (fd (conns io ! i)) w' = sent (fd (conns io ! i)) w @ accept_response (accept_value key)"
proof -
  let ?s = "conns io ! i"
  have hs: "length (hsbuf ?s) = 2048" "hslen ?s \<le> 2048" "length (slot_buf ?s) = WS_MAX_MESSAGE"
    using pool_slot(2) [OF p] by (simp_all add: slot_wf_def)
  have l: "hslen ?s = length head + 4 + length rest"
    using arg_cong [OF T, of length] hs by (simp add: crlf_def)
  have hd: "take (length head) (hsbuf ?s) = head"
    using arg_cong [OF T, of "take (length head)"] l by (simp add: min_def)
  have ob: "length head \<le> length (hsbuf ?s)" "length head < OBJ_MAX" "length head + 4 \<le> OBJ_MAX" "hslen ?s < OBJ_MAX"
    using l hs hsbuf_size by linarith+
  have acc: "compute_accept (st_key S) (st_cat S) (hsbuf ?s) (length head) (take 28 (st_accept S @ replicate 28 0)) =
      Some (0, accept_value key)"
    using compute_accept_key [OF ob(1,2), of "take 28 (st_accept S @ replicate 28 0)" key] hd key by simp
  obtain w' where w': "send_accept K (fd ?s) (accept_value key) w = Some (0, w')"
      "sent (fd ?s) w' = sent (fd ?s) w @ accept_response (accept_value key)"
    using send_accept_writable [OF k] length_accept_value by blast
  have off: "size_add (length head) 4 = length head + 4" "size_sub (hslen ?s) (length head + 4) = length rest"
    using l ob by (simp_all add: size_add_obj size_sub_obj)
  show ?thesis
    unfolding finish_handshake_def pool_slot(1) [OF p] bind.bind_lunit nat_int acc prod.case w'(1) Let_def hs(3) off
    using w'(2) by (intro exI [of _ w']) simp
qed

lemma feed_nothing:
  assumes "pool_wf io" and "i < WS_IO_MAX_CONNS" and "conn_wf (conn (conns io ! i))"
    and "\<not> failed (conn (conns io ! i))" and "pending (conn (conns io ! i)) = []"
  shows "feed H io i bytes 0 ev w = Some (0, io, w)"
  using drain_idle [OF assms, of H ev w] assms(1,2) by (simp add: feed_def set_slot_def pool_wf_def)

lemma upgrade_step:
  assumes k: "kernel_ok K sent" "writable K" and p: "pool_wf io" "i < WS_IO_MAX_CONNS"
    and s: "s = conns io ! i" "\<not> opened s"
    and read: "k_read K (fd s) (2048 - hslen s) w = (int (length bs), bs, w1)" "bs \<noteq> []"
    and T: "take (hslen s) (hsbuf s) @ bs = head @ crlf @ crlf @ rest"
      "\<forall>j < length head. \<not> occurs_at (crlf @ crlf) (head @ crlf @ crlf @ rest) j"
    and key: "key_line head key" "key \<noteq> []" "length key \<le> 64"
  shows "\<exists>io1 buf w2. on_client_data K H S io i w = feed H io1 i buf (length rest) (st_event S) w2 \<and>
    take (length rest) buf = rest \<and> same_pool io io1 \<and> pool_wf io1 \<and> opened (conns io1 ! i) \<and>
    conn (conns io1 ! i) = ws_conn_open (ws_conn_init (io_role io) (slot_buf s) WS_MAX_MESSAGE) \<and>
    sent (fd s) w2 = sent (fd s) w1 @ accept_response (accept_value key)"
proof -
  have wf: "slot_wf s" using pool_slot(2) [OF p] s(1) by simp
  then have hs: "length (hsbuf s) = 2048" "hslen s \<le> 2048" by (simp_all add: slot_wf_def)
  have le: "hslen s + length bs \<le> 2048" using kernel_readD [OF k(1) read(1)] hs(2) by linarith
  have sub: "size_sub (length (hsbuf s)) (hslen s) = 2048 - hslen s"
    using hs hsbuf_size by (simp add: size_sub_obj)
  have add: "size_add (hslen s) (length bs) = hslen s + length bs"
    using le hsbuf_size by (intro size_add_obj) linarith
  let ?buf = "patch (hsbuf s) (hslen s) bs" and ?n = "hslen s + length bs"
  let ?s1 = "s\<lparr>hsbuf := ?buf, hslen := ?n\<rparr>"
  let ?io1 = "set_slot io i ?s1"
  have lb: "length ?buf = 2048" using le hs by simp
  have tk: "take ?n ?buf = head @ crlf @ crlf @ rest" using take_read [of "hslen s" bs "hsbuf s"] le hs T(1) by simp
  have p1: "pool_wf ?io1" by (rule set_slot_wf [OF p(1)]) (use wf lb le s(2) in \<open>simp add: slot_wf_def\<close>)
  have at1: "conns ?io1 ! i = ?s1" by (subst set_slot_nth [OF p]) simp
  have "on_client_data K H S io i w = handshake_step K H S ?io1 i w1"
    using s read le hs add sub
    by (simp add: on_client_data_def on_handshake_data_def pool_slot(1) [OF p] sys_read_def)
  also have "\<dots> = finish_handshake K H S ?io1 i (int (length head)) w1"
    using blank_line_at [OF lb le tk] T(2) tk
    by (simp only: handshake_step_def pool_slot(1) [OF p1 p(2)] at1) simp
  finally have run: "on_client_data K H S io i w = finish_handshake K H S ?io1 i (int (length head)) w1" .
  let ?c = "ws_conn_open (ws_conn_init (io_role io) (slot_buf s) WS_MAX_MESSAGE)"
  let ?io2 = "set_slot ?io1 i (?s1\<lparr>conn := ?c, opened := True\<rparr>)"
  obtain w2 where f: "finish_handshake K H S ?io1 i (int (length head)) w1 =
        feed H ?io2 i (drop (length head + 4) ?buf) (length rest) (st_event S) w2"
      "sent (fd s) w2 = sent (fd s) w1 @ accept_response (accept_value key)"
    using finish_handshake_eq [OF k p1 p(2) _ key, of rest H S w1] tk at1 by auto
  have tr: "take (length rest) (drop (length head + 4) ?buf) = rest"
  proof -
    have n: "?n = length head + 4 + length rest" using arg_cong [OF tk, of length] lb le by (simp add: crlf_def)
    have "drop (length head + 4) (take ?n ?buf) = rest" unfolding tk by (simp add: crlf_def)
    then show ?thesis unfolding n by (simp add: drop_take)
  qed
  have at2: "conns ?io2 ! i = ?s1\<lparr>conn := ?c, opened := True\<rparr>" by (subst set_slot_nth [OF p1 p(2)]) simp
  have "slot_wf (?s1\<lparr>conn := ?c, opened := True\<rparr>)"
    using wf lb le opened_conn_wf [of "slot_buf s" "io_role io"] by (simp add: slot_wf_def)
  then have p2: "pool_wf ?io2" by (rule set_slot_wf [OF p1])
  have sp: "same_pool io ?io1" by (rule set_slot_same_pool [OF p]) (simp add: owner_def s(1))
  have "same_pool ?io1 ?io2"
    by (rule set_slot_same_pool [OF p1 p(2)]) (simp only: at1, simp add: owner_def)
  then have sp2: "same_pool io ?io2" by (rule same_pool_trans [OF sp])
  have op: "opened (conns ?io2 ! i)" "conn (conns ?io2 ! i) = ?c" by (simp_all only: at2, simp_all)
  show ?thesis
    using run [unfolded f(1)] tr sp2 p2 op f(2) by blast
qed

end
