(* ===== verification/Dialogue.thy ===== *)
theory Dialogue
  imports Serving
begin

text \<open>
  Exchanges between a client and the echo server: a message that arrives in pieces over several rounds
  of the event loop, the end of a connection, and the way of a message from a client through the server
  and back; and which events a handler can see.
\<close>

section \<open>A message that arrives in pieces\<close>

text \<open>The connection on descriptor \<open>d\<close> while its peer is the only one the epoll descriptor \<open>e\<close> has
  anything to report of (\<open>quiet\<close>: no connection to accept, no input from other peers). \<open>inbox w\<close> is what
  the peer has sent and the server has not read: a stream, of which a read takes any non-empty beginning
  that fits the buffer. As long as some of it is left, \<^verbatim>\<open>epoll_wait\<close> reports the descriptor (the
  registration is level-triggered) and \<^verbatim>\<open>read\<close> returns some bytes.\<close>

definition lone_client ::
    "'w kernel \<Rightarrow> int \<Rightarrow> int \<Rightarrow> (int \<Rightarrow> 'w \<Rightarrow> byte list) \<Rightarrow> ('w \<Rightarrow> byte list) \<Rightarrow> ('w \<Rightarrow> bool) \<Rightarrow> bool" where
  "lone_client K e d sent inbox quiet \<longleftrightarrow>
     (\<forall>n w. quiet w \<longrightarrow> inbox w \<noteq> [] \<longrightarrow> 0 < n \<longrightarrow>
        (\<exists>m w'. 0 < m \<and> m \<le> n \<and> m \<le> length (inbox w) \<and> k_read K d n w = (int m, take m (inbox w), w') \<and>
           inbox w' = drop m (inbox w) \<and> sent d w' = sent d w \<and> quiet w')) \<and>
     (\<forall>n w. quiet w \<longrightarrow> inbox w \<noteq> [] \<longrightarrow> 0 < n \<longrightarrow>
        (\<exists>ev w'. k_epoll_wait K e n w = (1, [ev], w') \<and> sint (ucast (ep_data ev) :: 32 word) = d \<and>
           inbox w' = inbox w \<and> sent d w' = sent d w \<and> quiet w'))"

lemma lone_clientD:
  assumes "lone_client K e d sent inbox quiet" and "quiet w" and "inbox w \<noteq> []" and "0 < n"
  shows "\<exists>m w'. 0 < m \<and> m \<le> n \<and> m \<le> length (inbox w) \<and> k_read K d n w = (int m, take m (inbox w), w') \<and>
      inbox w' = drop m (inbox w) \<and> sent d w' = sent d w \<and> quiet w'"
    "\<exists>ev w'. k_epoll_wait K e n w = (1, [ev], w') \<and> sint (ucast (ep_data ev) :: 32 word) = d \<and>
      inbox w' = inbox w \<and> sent d w' = sent d w \<and> quiet w'"
  using assms unfolding lone_client_def by blast+

text \<open>A round of the loop in such a world: the descriptor is served once, with what was read.\<close>

lemma lone_round:
  assumes "lone_client K (epoll_fd io) d sent inbox quiet" and "quiet w" and "inbox w \<noteq> []"
  obtains m w1 w2 where "loop_round K H S io w = on_readable K H S io d w1" "0 < m" "m \<le> length (inbox w)"
    "k_read K d 4096 w1 = (int (length (take m (inbox w))), take m (inbox w), w2)"
    "inbox w2 = drop m (inbox w)" "sent d w2 = sent d w" "quiet w2"
proof -
  have n: "0 < WS_IO_MAX_CONNS + 1" "(0 :: nat) < 4096" by simp_all
  obtain ev w1 where e: "k_epoll_wait K (epoll_fd io) (WS_IO_MAX_CONNS + 1) w = (1, [ev], w1)"
      "sint (ucast (ep_data ev) :: 32 word) = d" "inbox w1 = inbox w" "sent d w1 = sent d w" "quiet w1"
    using lone_clientD(2) [OF assms n(1)] by blast
  have i1: "inbox w1 \<noteq> []" using e(3) assms(3) by simp
  obtain m w2 where r: "0 < m" "m \<le> length (inbox w1)" "k_read K d 4096 w1 = (int m, take m (inbox w1), w2)"
      "inbox w2 = drop m (inbox w1)" "sent d w2 = sent d w1" "quiet w2"
    using lone_clientD(1) [OF assms(1) e(5) i1 n(2)] by blast
  have "loop_round K H S io w = on_readable K H S io d w1"
    using e(1,2) by (cases "on_readable K H S io d w1") (auto simp: loop_round_def)
  then show thesis using that r e(3,4) by (simp add: min_absorb2)
qed

lemma echo_arrives:
  assumes k: "kernel_ok K sent" "writable K" and h: "wf_frame h D" "masked h" "fin h"
      "opcode h = WS_OP_BIN \<or> opcode h = WS_OP_TEXT \<and> is_utf8 D" "length (wire h D) \<le> WS_MAX_MESSAGE"
    and "lone_client K (epoll_fd io) (fd (conns io ! i)) sent inbox quiet"
    and "pool_wf io" and "single (map owner (conns io))" and "i < WS_IO_MAX_CONNS" and "waiting P (conns io ! i)"
    and "fd (conns io ! i) \<noteq> listen_fd io" and "quiet w" and "inbox w \<noteq> []" and "P @ inbox w = wire h D"
  shows "\<exists>n io' w'. n \<le> length (inbox w) \<and> run_rounds n K (on_event K [k0, k1, k2, k3]) S io w = Some (io', w') \<and>
    sent (fd (conns io ! i)) w' = sent (fd (conns io ! i)) w @ plain_frame (opcode h) D \<and>
    pool_wf io' \<and> same_pool io io' \<and> idle (conns io' ! i)"
  using assms(8-16)
proof (induction "length (inbox w)" arbitrary: io w P rule: less_induct)
  case less
  let ?H = "on_event K [k0, k1, k2, k3]" and ?s = "conns io ! i"
  obtain m w1 w2 where l: "loop_round K ?H S io w = on_readable K ?H S io (fd ?s) w1" "0 < m" "m \<le> length (inbox w)"
      "k_read K (fd ?s) 4096 w1 = (int (length (take m (inbox w))), take m (inbox w), w2)"
      "inbox w2 = drop m (inbox w)" "sent (fd ?s) w2 = sent (fd ?s) w" "quiet w2"
    by (rule lone_round [OF less(2,8,9)])
  have bs: "take m (inbox w) \<noteq> []" using l(2) less(9) by simp
  have at: "conns (set_slot io i (?s\<lparr>conn := c'\<rparr>)) ! i = ?s\<lparr>conn := c'\<rparr>" for c'
    by (subst set_slot_nth [OF less(3,5)]) simp
  have sp: "same_pool io (set_slot io i (?s\<lparr>conn := c'\<rparr>))" for c'
    by (rule set_slot_same_pool [OF less(3,5)]) (simp add: owner_def)
  show ?case
  proof (cases "m < length (inbox w)")
    case True
    then have Z: "drop m (inbox w) \<noteq> []" by simp
    have e: "wire h D = P @ take m (inbox w) @ drop m (inbox w)" using less(10) by simp
    obtain c' where c: "on_readable K ?H S io (fd ?s) w1 = Some (set_slot io i (?s\<lparr>conn := c'\<rparr>), w2)"
        "pool_wf (set_slot io i (?s\<lparr>conn := c'\<rparr>))" "waiting (P @ take m (inbox w)) (?s\<lparr>conn := c'\<rparr>)"
      using partial_readable [OF k(1) less(3-5) refl less(6,7) h(1) e Z h(5) l(4) bs, of ?H S] by blast
    let ?io = "set_slot io i (?s\<lparr>conn := c'\<rparr>)"
    have s: "epoll_fd ?io = epoll_fd io" "listen_fd ?io = listen_fd io" "fd (conns ?io ! i) = fd ?s"
        "single (map owner (conns ?io))" "waiting (P @ take m (inbox w)) (conns ?io ! i)"
      using at [of c'] c(3) sp [of c'] less(4) by (simp_all add: same_pool_def)
    have lt: "length (inbox w2) < length (inbox w)" "inbox w2 \<noteq> []" "(P @ take m (inbox w)) @ inbox w2 = wire h D"
      using l(2,5) True e by simp_all
    obtain n io' w' where r: "n \<le> length (inbox w2)" "run_rounds n K ?H S ?io w2 = Some (io', w')"
        "sent (fd ?s) w' = sent (fd ?s) w2 @ plain_frame (opcode h) D" "pool_wf io'" "same_pool ?io io'" "idle (conns io' ! i)"
      using less(1) [OF lt(1), of ?io "P @ take m (inbox w)"] less(2,5,7) c(2) l(7) lt(2,3) unfolding s(1-3)
      using s(4,5) by blast
    have "run_rounds (Suc n) K ?H S io w = Some (io', w')" using l(1) c(1) r(2) by simp
    moreover have "Suc n \<le> length (inbox w)" using r(1) l(2,5) True by simp
    ultimately show ?thesis using r(3-6) l(6) same_pool_trans [OF sp r(5)] by metis
  next
    case False
    then have a: "take m (inbox w) = inbox w" using l(3) by simp
    note d = waiting_message [OF less(3,5) refl less(6) h(2-4)]
    have an: "answer (Message (opcode h) D) (opcode h) D" by (simp add: answer_def)
    obtain c' w' where c: "on_readable K ?H S io (fd ?s) w1 = Some (set_slot io i (?s\<lparr>conn := c'\<rparr>), w')"
        "sent (fd ?s) w' = sent (fd ?s) w2 @ plain_frame (opcode h) D" "pending c' = []" "dabs c' = dabs (conn ?s)"
      using complete_readable [OF k less(3-5) refl less(6,7) h(1) d an _ h(5) l(4) bs, of k0 k1 k2 k3 S] a less(10) by auto
    let ?io = "set_slot io i (?s\<lparr>conn := c'\<rparr>)"
    have "returns (on_readable K ?H S io (fd ?s) w1) (kept K io w1)" by (rule echo.on_readable_ok [OF k(1) less(3)])
    then have pw: "pool_wf ?io" using c(1) by (simp add: kept_def)
    have "idle (conns ?io ! i)" unfolding at idle_waiting by (rule waiting_same [OF less(6) c(4,3)])
    moreover have "run_rounds 1 K ?H S io w = Some (?io, w')" using l(1) c(1) by simp
    moreover have "1 \<le> length (inbox w)" using l(2,3) by linarith
    ultimately show ?thesis using pw sp [of c'] c(2) l(6) by metis
  qed
qed

section \<open>The end of a connection\<close>

text \<open>On an error and on a Close the echo handler sends nothing: after the peer's Close the connection
  is closed, and no frame is built for it any more.\<close>

lemma on_event_terminal:
  assumes "pool_wf io" and "i < WS_IO_MAX_CONNS" and "ev_type ev = WS_EV_ERROR \<or>
    ev_type ev = WS_EV_CLOSE \<and> state (conn (conns io ! i)) = WS_CLOSED"
  shows "on_event K key io i ev w = Some (io, w)"
  using assms(3)
proof
  assume "ev_type ev = WS_EV_ERROR"
  then show ?thesis using assms(1,2) by (simp add: on_event_def echo_reply_def pool_slot(1))
next
  assume c: "ev_type ev = WS_EV_CLOSE \<and> state (conn (conns io ! i)) = WS_CLOSED"
  have e: "set_slot io i (conns io ! i) = io" by (simp add: set_slot_def)
  have sl: "slot_by_conn io i = Some (if used (conns io ! i) then Some i else None)"
    by (rule slot_by_conn_eq [OF assms(1,2)])
  have sb: "send_built K io i 0 out w = Some (-1, w)" for out unfolding send_built_def sl by simp
  show ?thesis
    using c by (simp add: on_event_def ws_io_send_close_def ws_send_close_def pool_slot(1) [OF assms(1,2)] e sb Let_def)
qed

lemma terminal_service:
  assumes k: "kernel_ok K sent" and p: "pool_wf io" "single (map owner (conns io))" "i < WS_IO_MAX_CONNS"
    and s: "s = conns io ! i" "idle s" "fd s \<noteq> listen_fd io"
    and f: "wf_frame h D" "fst (deliver (dabs (conn s)) h D) \<in> insert Violation (range Closed)"
    and read: "k_read K (fd s) 4096 w = (int (length (wire h D)), wire h D, w1)"
  shows "\<exists>c'. on_readable K (on_event K key) S io (fd s) w = Some (set_slot io i (s\<lparr>conn := c', used := False\<rparr>),
    k_close K (fd s) (snd (k_epoll_ctl K (epoll_fd io) EPOLL_CTL_DEL (fd s) None w1)))"
proof -
  let ?H = "on_event K key" and ?W = "wire h D"
  note u = idleD [OF s(2)]
  obtain chunk where ch: "on_client_data K ?H S io i w = feed ?H io i chunk (length ?W) (st_event S) w1"
      "take (length ?W) chunk = ?W" "length ?W \<le> length chunk" "length chunk \<le> WS_MAX_MESSAGE"
    by (rule client_chunk [OF k p(1,3) s(1) u(2) read wire_nonempty])
  have b: "pending (conn s) @ take (length ?W) chunk = ?W" "0 < length ?W" "length ?W \<le> WS_MAX_MESSAGE"
    using u(7) ch(2-4) wire_nonempty [of h D] by simp_all
  obtain t c2 ev2 where e: "feed ?H io i chunk (length ?W) (st_event S) w1 =
        (let io2 = set_slot io i (s\<lparr>conn := c2\<rparr>) in
         if t = WS_EV_NONE then Some (0, io2, w1)
         else do { (io3, w3) \<leftarrow> ?H io2 i ev2 w1;
           if is_terminal t then Some (1, io3, w3) else drain_events ?H io3 i ev2 w3 })"
      "pool_wf (set_slot io i (s\<lparr>conn := c2\<rparr>))" "ev_type ev2 = t"
      "deliver (dabs (conn s)) h D = (observe (t, c2, ev2), dabs c2)"
    using feed_frame [OF p(1,3) s(1) u(2,4,6) f(1) b(1,2) ch(3,4) b(3), of ?H "st_event S" w1] by blast
  let ?io2 = "set_slot io i (s\<lparr>conn := c2\<rparr>)"
  have at: "conns ?io2 ! i = s\<lparr>conn := c2\<rparr>" by (subst set_slot_nth [OF p(1,3)]) simp
  have t: "t = WS_EV_ERROR \<or> t = WS_EV_CLOSE \<and> state c2 = WS_CLOSED"
    using f(2) e(4) deliver_closed [of "dabs (conn s)" h D] by (auto simp: observe_def split: ws_event_type.splits)
  then have "?H ?io2 i ev2 w1 = Some (?io2, w1)" using e(3) at by (intro on_event_terminal [OF e(2) p(3)]) auto
  then have fd: "feed ?H io i chunk (length ?W) (st_event S) w1 = Some (1, ?io2, w1)"
    using e(1) t by (auto simp: is_terminal_def)
  have "on_client_data K ?H S io i w = Some (1, ?io2, w1)" using ch(1) fd by simp
  moreover have "slot_close K ?io2 i w1 = Some (set_slot io i (s\<lparr>conn := c2, used := False\<rparr>),
      k_close K (fd s) (snd (k_epoll_ctl K (epoll_fd io) EPOLL_CTL_DEL (fd s) None w1)))"
    unfolding slot_close_def pool_slot(1) [OF e(2) p(3)] at
    by (simp add: sys_close_def case_prod_unfold Let_def set_slot_def)
  ultimately have "on_readable K ?H S io (fd s) w = Some (set_slot io i (s\<lparr>conn := c2, used := False\<rparr>),
      k_close K (fd s) (snd (k_epoll_ctl K (epoll_fd io) EPOLL_CTL_DEL (fd s) None w1)))"
    using slot_by_fd_single [OF p(1,2,3)] s(1,3) u(1) by (simp add: on_readable_def service_client_def)
  then show ?thesis by blast
qed

section \<open>There and back\<close>

text \<open>A message as a client builds it is a data frame for the server; the server's reply is a frame the
  client accepts.\<close>

lemma client_frame:
  assumes "4 \<le> length key" and "op = WS_OP_BIN \<or> op = WS_OP_TEXT \<and> is_utf8 D" and "length D < OBJ_MAX"
  shows "wf_frame (out_frame key WS_ROLE_CLIENT op (length D)) D \<and> masked (out_frame key WS_ROLE_CLIENT op (length D)) \<and>
    fin (out_frame key WS_ROLE_CLIENT op (length D)) \<and> opcode (out_frame key WS_ROLE_CLIENT op (length D)) = op"
proof -
  have op: "unat op < 16" "ws_classify_opcode (ucast op) \<noteq> WS_CLASS_CONTROL"
    using assms(2) by (auto simp: op_defs classify_cases)
  have "wf_frame (out_frame key WS_ROLE_CLIENT op (length D)) D"
    using out_frame_wf [OF assms(1) op(1) assms(3)] op(2) by blast
  then show ?thesis by (simp add: out_frame_def)
qed

lemma client_receives:
  assumes c: "conn_wf c" "role c = WS_ROLE_CLIENT" "ws_lc_active c" "\<not> failed c" "frag c = WS_FRAG_NONE" "pending c = []"
    and m: "op = WS_OP_BIN \<or> op = WS_OP_TEXT \<and> is_utf8 D" "length D < OBJ_MAX"
    and room: "length (wire (out_frame key WS_ROLE_SERVER op (length D)) D) \<le> msg_cap c" and key: "4 \<le> length key"
  shows "\<exists>r c1 c2 ev2. ws_conn_recv c (wire (out_frame key WS_ROLE_SERVER op (length D)) D)
        (length (wire (out_frame key WS_ROLE_SERVER op (length D)) D)) = Some (r, c1) \<and>
      ws_conn_poll c1 ev = Some (WS_EV_MESSAGE, c2, ev2) \<and> ev_op ev2 = op \<and> ev_bytes c2 ev2 = D"
proof -
  let ?h = "out_frame key WS_ROLE_SERVER op (length D)"
  have op: "unat op < 16" "ws_classify_opcode (ucast op) \<noteq> WS_CLASS_CONTROL"
    using m(1) by (auto simp: op_defs classify_cases)
  have fr: "wf_frame ?h D" using out_frame_wf [OF key op(1) m(2)] op(2) by blast
  have z: "msg_len c = 0" "rx_len c = 0" "asm c = []"
    using c(1,5,6) wf_lengths [OF c(1)] by (auto simp: conn_wf_def)
  obtain r c1 t c2 ev2 where q: "ws_conn_recv c (wire ?h D) (length (wire ?h D)) = Some (r, c1)"
      "ws_conn_poll c1 ev = Some (t, c2, ev2)" "deliver (dabs c) ?h D = (observe (t, c2, ev2), dabs c2)"
    using recv_poll [OF c(1) fr, of ev] c(6) z room by auto
  have "deliver (dabs c) ?h D = (Message (opcode ?h) D, dabs c)"
    using m(1) c(2) by (intro deliver_whole c(3-5) z(3)) (auto simp: out_frame_def)
  then have "observe (t, c2, ev2) = Message op D" using q(3) by (simp add: out_frame_def)
  from observe_message [OF this] q show ?thesis by blast
qed

section \<open>The events a handler can see\<close>

lemma deliver_data_text:
  assumes "fst (deliver d h D) = Message WS_OP_TEXT m"
  shows "is_utf8 m"
  using assms unfolding deliver_def deliver_data_def deliver_close_def violation_def Let_def
  by (cases "d_frag d") (auto split: if_split_asm simp: op_defs)

lemma deliver_close_code:
  assumes "fst (deliver d h D) = Closed k"
  shows "opcode h = WS_OP_CLOSE \<and> close_body D \<and> k = (if D = [] then d_code d else body_code D) \<and>
    d_state d \<noteq> WS_CLOSED"
  using assms unfolding deliver_def deliver_data_def deliver_close_def violation_def Let_def
  by (auto split: if_split_asm)

text \<open>Until a Close has been received, a connection has no close code.\<close>

definition code_unset :: "ws_conn \<Rightarrow> bool" where
  "code_unset c \<longleftrightarrow> conn_wf c \<and> (state c \<noteq> WS_CLOSED \<longrightarrow> close_code c = 0)"

lemma deliver_code_kept: "d_code (snd (deliver d h D)) = d_code d \<or> d_state (snd (deliver d h D)) = WS_CLOSED"
proof (cases rule: deliver_alternatives [where d = d and h = h and D = D])
  case 3
  then show ?thesis by (cases rule: deliver_close_alternatives [where d = d and D = D]) (simp_all add: violation_def)
next
  case 6
  then show ?thesis
    by (cases rule: deliver_data_alternatives [where d = d and op = "opcode h" and fn = "fin h" and D = D])
      (simp_all add: violation_def)
qed (simp_all add: violation_def)

lemma code_unset_poll:
  assumes "code_unset c" and "ws_conn_poll c ev = Some (t, c', ev')"
  shows "code_unset c'"
proof -
  have wf: "conn_wf c" using assms(1) by (simp add: code_unset_def)
  have d: "conn_wf c'" "dabs c' = dabs c \<or> (\<exists>h D. dabs c' = snd (deliver (dabs c) h D))"
    using poll_wf [OF wf, of ev] assms(2) by auto
  have "close_code c' = close_code c \<or> state c' = WS_CLOSED"
    using d(2) deliver_code_kept [of "dabs c"] dabs_simps(1,7) by metis
  moreover have "state c \<le> state c'" by (rule conn_state.rank_step [OF wf conn_step.Poll [OF assms(2)]])
  ultimately show ?thesis using assms(1) d(1) closed_is_top by (auto simp: code_unset_def)
qed

interpretation conn_code: invariant_system conn_init conn_step code_unset
proof unfold_locales
  show "code_unset c" if "conn_init c" for c
    using conn.inv_init [OF that] that by (auto simp: code_unset_def conn_init_def ws_conn_init_def)
  show "code_unset c'" if "code_unset c" "conn_step c c'" for c c'
    using that(2)
  proof (cases rule: conn_step.cases)
    case (Poll ev t ev')
    then show ?thesis using code_unset_poll [OF that(1)] by blast
  next
    case (Recv len bytes r)
    then show ?thesis
      using recv_wf [of c len bytes r c'] that(1) dabs_simps(1,7) unfolding code_unset_def by metis
  next
    case (Send_Close key code out cap n out')
    then show ?thesis
      using send_close_conn [OF Send_Close] conn_step_wf [OF that(2)] that(1) by (auto simp: code_unset_def)
  qed (use that(1) conn_step_wf [OF that(2)] in \<open>auto simp: code_unset_def ws_conn_open_def ws_lc_handshake_def\<close>)
qed

lemma poll_message_typed:
  assumes "conn_wf c" and "ws_conn_poll c ev = Some (WS_EV_MESSAGE, c', ev')"
  shows "ev_op ev' = WS_OP_BIN \<or> ev_op ev' = WS_OP_TEXT \<and> is_utf8 (ev_bytes c' ev')"
  using assms(1)
proof (cases rule: poll_cases)
  case (frame h D R)
  then have "poll_ok c h D R (WS_EV_MESSAGE, c', ev')" using poll_frame [OF assms(1), of h D R ev] assms(2) by simp
  note ok = poll_okD [OF this]
  obtain op b where e: "fst (deliver (dabs c) h D) = Message op b" using ok(8) by (metis ev_kind_inv(3))
  note o = deliver_message_op [OF e]
  have "observe (WS_EV_MESSAGE, c', ev') = Message op b" using ok(7) o e by auto
  then have "ev_op ev' = op" "ev_bytes c' ev' = b" using observe_message by blast+
  then show ?thesis using o e deliver_data_text [of "dabs c" h D b] by auto
qed (use assms(2) poll_failed poll_incomplete [OF assms(1)] in auto)

lemma poll_close_typed:
  assumes "code_unset c" and "ws_conn_poll c ev = Some (WS_EV_CLOSE, c', ev')"
  shows "\<exists>h D R. wf_frame h D \<and> pending c = wire h D @ R \<and> opcode h = WS_OP_CLOSE \<and>
    (D = [] \<and> ev_close_code ev' = 0 \<or>
     2 \<le> length D \<and> ev_close_code ev' = body_code D \<and> ws_close_code_sendable (ev_close_code ev') \<and> is_utf8 (drop 2 D))"
proof -
  have wf: "conn_wf c" using assms(1) by (simp add: code_unset_def)
  then show ?thesis
  proof (cases rule: poll_cases)
    case (frame h D R)
    then have "poll_ok c h D R (WS_EV_CLOSE, c', ev')" using poll_frame [OF wf, of h D R ev] assms(2) by simp
    note ok = poll_okD [OF this]
    obtain k where e: "fst (deliver (dabs c) h D) = Closed k" using ok(8) by (metis ev_kind_inv(2))
    note k = deliver_close_code [OF e]
    have "observe (WS_EV_CLOSE, c', ev') = Closed k" using ok(7) k e by (auto simp: op_defs)
    then have "ev_close_code ev' = k" by (simp add: observe_def)
    then show ?thesis using frame k assms(1) by (auto simp: code_unset_def close_body_def)
  qed (use assms(2) poll_failed poll_incomplete [OF wf] in auto)
qed

section \<open>A kernel that delivers chunks\<close>

text \<open>Each descriptor has a queue of chunks; a read takes the first one, or as much of it as fits. It is
  the instance at which the statements about exchanges are evaluated.\<close>

type_synonym post = "(int \<Rightarrow> byte list list) \<times> (int \<Rightarrow> byte list)"

definition postal :: "post kernel" where
  "postal = \<lparr>
     k_read = (\<lambda>d n (q, out). case q d of [] \<Rightarrow> (0, [], (q, out))
       | b # bs \<Rightarrow> if length b \<le> n then (int (length b), b, (q(d := bs), out))
                   else (int n, take n b, (q(d := drop n b # bs), out))),
     k_write = (\<lambda>d bs (q, out). (int (length bs), (q, out(d := out d @ bs)))),
     k_close = (\<lambda>d w. w),
     k_socket = (\<lambda>_ _ _ w. (3, w)), k_setsockopt = (\<lambda>_ _ _ _ w. (0, w)), k_bind = (\<lambda>_ _ w. (0, w)),
     k_listen = (\<lambda>_ _ w. (0, w)), k_accept = (\<lambda>_ w. (-11, w)), k_epoll_create1 = (\<lambda>_ w. (4, w)),
     k_epoll_ctl = (\<lambda>_ _ _ _ w. (0, w)), k_epoll_wait = (\<lambda>_ _ w. (0, [], w))\<rparr>"

lemma postal_ok: "kernel_ok postal (\<lambda>d w. snd w d)"
  unfolding kernel_ok_def postal_def by (auto split: list.splits)

lemma postal_writable: "writable postal"
  by (simp add: writable_def postal_def case_prod_unfold)

text \<open>A kernel with a single client, whose input is a stream that arrives three bytes at a time.\<close>

definition trickle :: "(byte list \<times> (int \<Rightarrow> byte list)) kernel" where
  "trickle = \<lparr>
     k_read = (\<lambda>d n (q, out). let m = min (min n 3) (length q) in (int m, take m q, (drop m q, out))),
     k_write = (\<lambda>d bs (q, out). (int (length bs), (q, out(d := out d @ bs)))),
     k_close = (\<lambda>d w. w),
     k_socket = (\<lambda>_ _ _ w. (3, w)), k_setsockopt = (\<lambda>_ _ _ _ w. (0, w)), k_bind = (\<lambda>_ _ w. (0, w)),
     k_listen = (\<lambda>_ _ w. (0, w)), k_accept = (\<lambda>_ w. (-11, w)), k_epoll_create1 = (\<lambda>_ w. (4, w)),
     k_epoll_ctl = (\<lambda>_ _ _ _ w. (0, w)),
     k_epoll_wait = (\<lambda>_ n w. let evs = take n [\<lparr>ep_events = EPOLLIN, ep_data = 5\<rparr>] in (int (length evs), evs, w))\<rparr>"

lemma trickle_ok: "kernel_ok trickle (\<lambda>d w. snd w d)"
  unfolding kernel_ok_def trickle_def by (auto simp: Let_def)

lemma trickle_writable: "writable trickle"
  by (simp add: writable_def trickle_def case_prod_unfold)

lemma trickle_lone: "lone_client trickle 4 5 (\<lambda>d w. snd w d) fst (\<lambda>_. True)"
proof -
  have "\<exists>m w'. 0 < m \<and> m \<le> n \<and> m \<le> length (fst w) \<and> k_read trickle 5 n w = (int m, take m (fst w), w') \<and>
      fst w' = drop m (fst w) \<and> snd w' 5 = snd w 5" if "fst w \<noteq> []" "0 < n" for n and w :: "byte list \<times> (int \<Rightarrow> byte list)"
    using that by (intro exI [of _ "min (min n 3) (length (fst w))"]) (simp add: trickle_def case_prod_unfold Let_def)
  moreover have "\<exists>ev w'. k_epoll_wait trickle 4 n w = (1, [ev], w') \<and> sint (ucast (ep_data ev) :: 32 word) = 5 \<and>
      fst w' = fst w \<and> snd w' 5 = snd w 5" if "0 < n" for n and w :: "byte list \<times> (int \<Rightarrow> byte list)"
    using that by (simp add: trickle_def take_Cons')
  ultimately show ?thesis unfolding lone_client_def by blast
qed

text \<open>What \<open>ws_send_message\<close> has written when it reports a frame.\<close>

lemma sent_frame:
  assumes "ws_send_message key c op payload len out cap = Some (n, out')" and "0 < n"
    and "4 \<le> length key" and "unat op < 16" and "len \<le> length payload" and "len < OBJ_MAX"
    and "cap \<le> length out" and "cap < OBJ_MAX"
  shows "take n out' = wire (out_frame key (role c) op len) (take len payload) \<and>
    n = length (wire (out_frame key (role c) op len) (take len payload)) \<and> ws_lc_active c"
proof -
  let ?h = "out_frame key (role c) op len"
  have a: "ws_lc_active c" using assms(1,2) by (auto simp: ws_send_message_def split: if_splits)
  then have b: "build_frame key c op payload len out cap = Some (n, out')" using assms(1) by (simp add: ws_send_message_def)
  have f: "length (encode_header ?h) + len \<le> cap" "n = length (encode_header ?h) + len"
      "out' = patch out 0 (wire ?h (take len payload))"
    using b assms(2) unfolding build_frame_eq [OF assms(3-8) refl] by (auto split: if_splits)
  moreover have "length (wire ?h (take len payload)) = length (encode_header ?h) + len"
    using assms(5) by (simp add: length_wire)
  ultimately show ?thesis using a assms(7) by (simp add: patch_def)
qed

lemma server_frame_shorter:
  "4 \<le> length key \<Longrightarrow> length (wire (out_frame key' WS_ROLE_SERVER op len) D) \<le> length (wire (out_frame key WS_ROLE_CLIENT op len) D)"
  by (simp add: length_wire encode_header_def out_frame_def)

end
