(* ===== verification/Trace.thy ===== *)
theory Trace
  imports Kernel Decimal
begin

text \<open>
  The debug aspect \<^verbatim>\<open>src/trace.c\<close>: formatting into a fixed line buffer and the three sinks, in the
  x86-64 debug build (other builds compile them to nothing). A pointer into the line buffer is an
  index, a C string a list with its NUL, and the raw \<^verbatim>\<open>write\<close> to stderr is that of the kernel.
\<close>

section \<open>Formatting (trace.c)\<close>

function put_str_loop :: "byte list \<Rightarrow> nat \<Rightarrow> nat \<Rightarrow> byte list \<Rightarrow> nat \<Rightarrow> (byte list \<times> nat) option" where
  "put_str_loop line p end' s j = do {
     c \<leftarrow> load s j;
     if c \<noteq> 0 \<and> p < end' then do {
       line' \<leftarrow> store line p c;
       put_str_loop line' (Suc p) end' s (Suc j)
     } else Some (line, p)
   }"
  by pat_completeness auto
termination
  by (relation "measure (\<lambda>(line, p, end', s, j). length s - j)") (auto simp: load_Some_iff)

declare put_str_loop.simps [simp del]

definition put_str :: "byte list \<Rightarrow> nat \<Rightarrow> nat \<Rightarrow> byte list \<Rightarrow> (byte list \<times> nat) option" where
  "put_str line p end' s = put_str_loop line p end' s 0"

fun put_rev :: "byte list \<Rightarrow> nat \<Rightarrow> nat \<Rightarrow> byte list \<Rightarrow> nat \<Rightarrow> (byte list \<times> nat) option" where
  "put_rev line p end' tmp 0 = Some (line, p)"
| "put_rev line p end' tmp (Suc n) =
     (if p < end' then do {
        c \<leftarrow> load tmp n;
        line' \<leftarrow> store line p c;
        put_rev line' (Suc p) end' tmp n
      } else Some (line, p))"

text \<open>The do-while loop of \<^verbatim>\<open>put_num\<close>; \<open>tmp0\<close> is what the uninitialised array held.\<close>

function digit_loop :: "byte list \<Rightarrow> nat \<Rightarrow> size_t \<Rightarrow> (byte list \<times> nat) option" where
  "digit_loop tmp n v = do {
     tmp' \<leftarrow> store tmp n (word_of_nat (48 + v mod 10));
     (let v' = v div 10 in if v' \<noteq> 0 then digit_loop tmp' (Suc n) v' else Some (tmp', Suc n))
   }"
  by pat_completeness auto
termination
  by (relation "measure (\<lambda>(tmp, n, v). v)") auto

declare digit_loop.simps [simp del]

definition put_num :: "byte list \<Rightarrow> byte list \<Rightarrow> nat \<Rightarrow> nat \<Rightarrow> size_t \<Rightarrow> (byte list \<times> nat) option" where
  "put_num tmp0 line p end' v = do {
     (tmp, n) \<leftarrow> digit_loop (take 20 (tmp0 @ replicate 20 0)) 0 v;
     put_rev line p end' tmp n
   }"

text \<open>Negating the smallest \<^verbatim>\<open>long\<close> is undefined in C.\<close>

definition put_int :: "byte list \<Rightarrow> byte list \<Rightarrow> nat \<Rightarrow> nat \<Rightarrow> int \<Rightarrow> (byte list \<times> nat) option" where
  "put_int tmp0 line p end' v =
     (if v < 0 then do {
        (line1, p1) \<leftarrow> put_str line p end' (cstr ''-'');
        if v = - (2 ^ 63) then None else put_num tmp0 line1 p1 end' (nat (- v))
      } else put_num tmp0 line p end' (nat v))"

section \<open>Names (trace.c)\<close>

definition ev_name :: "int \<Rightarrow> byte list option" where
  "ev_name t = (if t < 0 \<or> t > 5 then Some (cstr ''?'')
     else load (map cstr [''NONE'', ''MESSAGE'', ''PING'', ''PONG'', ''CLOSE'', ''ERROR'']) (nat t))"

definition state_name :: "int \<Rightarrow> byte list option" where
  "state_name s = (if s < 0 \<or> s > 3 then Some (cstr ''?'')
     else load (map cstr [''CONNECTING'', ''OPEN'', ''CLOSING'', ''CLOSED'']) (nat s))"

section \<open>Sinks (trace.c)\<close>

text \<open>\<open>junk\<close> is the uninitialised stack behind \<^verbatim>\<open>line\<close> and \<^verbatim>\<open>tmp\<close>.\<close>

definition ws_trace_event :: "'w kernel \<Rightarrow> byte list \<Rightarrow> int \<Rightarrow> size_t \<Rightarrow> uint16 \<Rightarrow> 'w \<Rightarrow> 'w option" where
  "ws_trace_event K junk t len code w = do {
     let line = take 64 (junk @ replicate 64 0);
     (line, p) \<leftarrow> put_str line 0 64 (cstr ''[ws] event='');
     name \<leftarrow> ev_name t;
     (line, p) \<leftarrow> put_str line p 64 name;
     (line, p) \<leftarrow> put_str line p 64 (cstr '' len='');
     (line, p) \<leftarrow> put_num junk line p 64 len;
     (line, p) \<leftarrow> (if t = 4 then do {
        (line, p) \<leftarrow> put_str line p 64 (cstr '' code='');
        put_num junk line p 64 (unat code)
      } else Some (line, p));
     (line, p) \<leftarrow> put_str line p 64 [0x0A, 0];
     (_, w') \<leftarrow> sys_write K 2 line 0 p w;
     Some w'
   }"

definition ws_trace_state :: "'w kernel \<Rightarrow> byte list \<Rightarrow> int \<Rightarrow> int \<Rightarrow> byte list \<Rightarrow> 'w \<Rightarrow> 'w option" where
  "ws_trace_state K junk from' to' why w = do {
     let line = take 80 (junk @ replicate 80 0);
     (line, p) \<leftarrow> put_str line 0 80 (cstr ''[ws] state '');
     a \<leftarrow> state_name from';
     (line, p) \<leftarrow> put_str line p 80 a;
     (line, p) \<leftarrow> put_str line p 80 (cstr '' -> '');
     b \<leftarrow> state_name to';
     (line, p) \<leftarrow> put_str line p 80 b;
     (line, p) \<leftarrow> put_str line p 80 (cstr '' ('');
     (line, p) \<leftarrow> put_str line p 80 why;
     (line, p) \<leftarrow> put_str line p 80 [0x29, 0x0A, 0];
     (_, w') \<leftarrow> sys_write K 2 line 0 p w;
     Some w'
   }"

definition ws_trace_io :: "'w kernel \<Rightarrow> byte list \<Rightarrow> byte list \<Rightarrow> int \<Rightarrow> int \<Rightarrow> 'w \<Rightarrow> 'w option" where
  "ws_trace_io K junk what d detail w = do {
     let line = take 64 (junk @ replicate 64 0);
     (line, p) \<leftarrow> put_str line 0 64 (cstr ''[ws] io '');
     (line, p) \<leftarrow> put_str line p 64 what;
     (line, p) \<leftarrow> put_str line p 64 (cstr '' fd='');
     (line, p) \<leftarrow> put_int junk line p 64 d;
     (line, p) \<leftarrow> put_str line p 64 (cstr '' detail='');
     (line, p) \<leftarrow> put_int junk line p 64 detail;
     (line, p) \<leftarrow> put_str line p 64 [0x0A, 0];
     (_, w') \<leftarrow> sys_write K 2 line 0 p w;
     Some w'
   }"

section \<open>The line buffer holds the text, cut to its size\<close>

definition holds :: "nat \<Rightarrow> byte list \<Rightarrow> byte list \<times> nat \<Rightarrow> bool" where
  "holds cap T = (\<lambda>(line, p). length line = cap \<and> p = min cap (length T) \<and> take p line = take cap T)"

lemma holds_full: "holds cap T (line, p) \<Longrightarrow> \<not> p < cap \<Longrightarrow> holds cap (T @ X) (line, p)"
  by (auto simp: holds_def min_def split: if_splits)

lemma holds_snoc:
  assumes "holds cap T (line, p)" and "p < cap"
  shows "holds cap (T @ [c]) (line[p := c], Suc p)"
proof -
  have l: "p = length T" "length line = cap" "take p line = T" using assms by (auto simp: holds_def min_def)
  then show ?thesis using assms(2) by (simp add: holds_def take_Suc_conv_app_nth)
qed

lemma put_str_loop_holds:
  assumes "holds cap T (line, p)" and "0 \<notin> set s" and "j \<le> length s"
  shows "returns (put_str_loop line p cap (s @ [0]) j) (holds cap (T @ drop j s))"
  using assms(1,3)
proof (induction "length s - j" arbitrary: j T line p)
  case 0
  then show ?case by (subst put_str_loop.simps) (simp add: nth_append)
next
  case (Suc k)
  then have j: "j < length s" by simp
  have ld: "load (s @ [0]) j = Some (s ! j)" "s ! j \<noteq> 0" using j assms(2) nth_mem [OF j] by (auto simp: nth_append simp del: nth_mem)
  have d: "T @ drop j s = (T @ [s ! j]) @ drop (Suc j) s" using j by (simp add: Cons_nth_drop_Suc)
  show ?case
  proof (cases "p < cap")
    case True
    have "store line p (s ! j) = Some (line[p := s ! j])" using Suc(3) True by (simp add: holds_def)
    moreover have "returns (put_str_loop (line[p := s ! j]) (Suc p) cap (s @ [0]) (Suc j))
        (holds cap ((T @ [s ! j]) @ drop (Suc j) s))"
      using Suc(2) j by (intro Suc(1) holds_snoc [OF Suc(3) True]) auto
    ultimately show ?thesis unfolding d using ld True by (subst put_str_loop.simps) simp
  next
    case False
    then show ?thesis using ld holds_full [OF Suc(3) False] by (subst put_str_loop.simps) simp
  qed
qed

lemma put_str_holds:
  "holds cap T (line, p) \<Longrightarrow> 0 \<notin> set s \<Longrightarrow> returns (put_str line p cap (s @ [0])) (holds cap (T @ s))"
  using put_str_loop_holds [of cap T line p s 0] by (simp add: put_str_def)

lemma put_rev_holds:
  assumes "holds cap T (line, p)" and "n \<le> length tmp"
  shows "returns (put_rev line p cap tmp n) (holds cap (T @ rev (take n tmp)))"
  using assms
proof (induction n arbitrary: T line p)
  case (Suc n)
  have r: "T @ rev (take (Suc n) tmp) = (T @ [tmp ! n]) @ rev (take n tmp)"
    using Suc(3) by (simp add: take_Suc_conv_app_nth)
  show ?case
  proof (cases "p < cap")
    case True
    have "store line p (tmp ! n) = Some (line[p := tmp ! n])" using Suc(2) True by (simp add: holds_def)
    then show ?thesis
      unfolding r using Suc(1) [OF holds_snoc [OF Suc(2) True]] Suc(3) True by simp
  next
    case False
    then show ?thesis using holds_full [OF Suc(2) False] by simp
  qed
qed simp

text \<open>Twenty digits are enough for every 64-bit number: the digits come least significant first.\<close>

lemma digit_loop_eq:
  assumes "n + length (decimal v) \<le> length tmp"
  shows "returns (digit_loop tmp n v) (\<lambda>(tmp', m). m = n + length (decimal v) \<and> length tmp' = length tmp \<and>
    take m tmp' = take n tmp @ rev (decimal v))"
  using assms
proof (induction tmp n v rule: digit_loop.induct)
  case (1 tmp n v)
  let ?c = "word_of_nat (48 + v mod 10) :: byte"
  have n: "n < length tmp" using 1(2) decimal_nonempty [of v] by (cases "decimal v") simp_all
  then have st: "store tmp n ?c = Some (tmp[n := ?c])" by simp
  have tk: "take (Suc n) (tmp[n := ?c]) = take n tmp @ [?c]" using n by (simp add: take_Suc_conv_app_nth)
  show ?case
  proof (cases "v div 10 = 0")
    case True
    then have "decimal v = [?c]" by (subst decimal.simps) (auto simp: div_eq_0_iff)
    then show ?thesis using True st tk n by (subst digit_loop.simps) simp
  next
    case False
    then have dv: "decimal v = decimal (v div 10) @ [?c]" by (subst decimal.simps) (auto simp: div_eq_0_iff)
    have "returns (digit_loop (tmp[n := ?c]) (Suc n) (v div 10)) (\<lambda>(tmp', m).
        m = Suc n + length (decimal (v div 10)) \<and> length tmp' = length (tmp[n := ?c]) \<and>
        take m tmp' = take (Suc n) (tmp[n := ?c]) @ rev (decimal (v div 10)))"
      using 1(1) [OF st refl False] 1(2) dv by simp
    then show ?thesis
      using False st unfolding tk dv by (subst digit_loop.simps) (simp add: Let_def)
  qed
qed

lemma decimal_20: "v < SIZE_MOD \<Longrightarrow> length (decimal v) \<le> 20"
  by (rule decimal_length) (simp_all add: SIZE_MOD_def)

lemma put_num_holds:
  assumes "holds cap T (line, p)" and "v < SIZE_MOD"
  shows "returns (put_num tmp0 line p cap v) (holds cap (T @ decimal v))"
proof -
  let ?t = "take 20 (tmp0 @ replicate 20 0)"
  have l: "length ?t = 20" by simp
  obtain tmp m where d: "digit_loop ?t 0 v = Some (tmp, m)" "m = length (decimal v)" "length tmp = 20"
      "take m tmp = rev (decimal v)"
    using digit_loop_eq [of 0 v ?t] decimal_20 [OF assms(2)] l unfolding returns_def by auto
  then show ?thesis
    using put_rev_holds [OF assms(1), of m tmp] decimal_20 [OF assms(2)] by (simp add: put_num_def del: take_append)
qed

definition int_text :: "int \<Rightarrow> byte list" where
  "int_text v = (if v < 0 then bytes_of ''-'' @ decimal (nat (- v)) else decimal (nat v))"

lemma put_cstr_holds:
  "holds cap T (line, p) \<Longrightarrow> 0 \<notin> set (bytes_of s) \<Longrightarrow> returns (put_str line p cap (cstr s)) (holds cap (T @ bytes_of s))"
  unfolding cstr_def by (rule put_str_holds)

lemma put_int_holds:
  assumes "holds cap T (line, p)" and "- (2 ^ 63) < v" and "v < 2 ^ 63"
  shows "returns (put_int tmp0 line p cap v) (holds cap (T @ int_text v))"
proof (cases "v < 0")
  case True
  obtain line1 p1 where s: "put_str line p cap (cstr ''-'') = Some (line1, p1)" "holds cap (T @ bytes_of ''-'') (line1, p1)"
    using put_cstr_holds [OF assms(1), of "''-''"] by (auto simp: returns_def bytes_of_def)
  have "nat (- v) < SIZE_MOD" using assms(2) by (simp add: SIZE_MOD_def)
  then show ?thesis
    using put_num_holds [OF s(2)] s(1) True assms(2) by (simp add: put_int_def int_text_def)
next
  case False
  have "nat v < SIZE_MOD" using assms(3) by (simp add: SIZE_MOD_def)
  then show ?thesis using put_num_holds [OF assms(1)] False by (simp add: put_int_def int_text_def)
qed

lemma holds_start: "length line = cap \<Longrightarrow> holds cap [] (line, 0)"
  by (simp add: holds_def)

text \<open>The names as text, for any number.\<close>

definition ev_text :: "int \<Rightarrow> string" where
  "ev_text t = (if t = 0 then ''NONE'' else if t = 1 then ''MESSAGE'' else if t = 2 then ''PING''
     else if t = 3 then ''PONG'' else if t = 4 then ''CLOSE'' else if t = 5 then ''ERROR'' else ''?'')"

definition state_text :: "int \<Rightarrow> string" where
  "state_text t = (if t = 0 then ''CONNECTING'' else if t = 1 then ''OPEN'' else if t = 2 then ''CLOSING''
     else if t = 3 then ''CLOSED'' else ''?'')"

lemma ev_name_eq: "ev_name t = Some (cstr (ev_text t))" "length (ev_text t) \<le> 7" "0 \<notin> set (bytes_of (ev_text t))"
proof -
  have "t \<in> {0, 1, 2, 3, 4, 5} \<or> t < 0 \<or> t > 5" by auto
  then show "ev_name t = Some (cstr (ev_text t))" by (auto simp: ev_name_def ev_text_def)
qed (simp_all add: ev_text_def bytes_of_def)

lemma state_name_eq: "state_name t = Some (cstr (state_text t))" "length (state_text t) \<le> 10"
  "0 \<notin> set (bytes_of (state_text t))"
proof -
  have "t \<in> {0, 1, 2, 3} \<or> t < 0 \<or> t > 3" by auto
  then show "state_name t = Some (cstr (state_text t))" by (auto simp: state_name_def state_text_def)
qed (simp_all add: state_text_def bytes_of_def)

lemma flush_line:
  assumes "holds cap T (line, p)"
  shows "sys_write K 2 line 0 p w = Some (k_write K 2 (take cap T) w)"
  using assms by (auto simp: holds_def sys_write_def)

section \<open>Properties\<close>

text \<open>Each piece of a line is appended to what the buffer holds.\<close>

definition event_line :: "int \<Rightarrow> size_t \<Rightarrow> uint16 \<Rightarrow> byte list" where
  "event_line t len code = bytes_of ''[ws] event='' @ bytes_of (ev_text t) @ bytes_of '' len='' @ decimal len @
     (if t = 4 then bytes_of '' code='' @ decimal (unat code) else []) @ [0x0A]"

definition state_line :: "int \<Rightarrow> int \<Rightarrow> byte list \<Rightarrow> byte list" where
  "state_line a b why = bytes_of ''[ws] state '' @ bytes_of (state_text a) @ bytes_of '' -> '' @
     bytes_of (state_text b) @ bytes_of '' ('' @ why @ [0x29, 0x0A]"

definition io_line :: "byte list \<Rightarrow> int \<Rightarrow> int \<Rightarrow> byte list" where
  "io_line what d detail = bytes_of ''[ws] io '' @ what @ bytes_of '' fd='' @ int_text d @
     bytes_of '' detail='' @ int_text detail @ [0x0A]"

lemma literals_no_nul:
  "0 \<notin> set (bytes_of ''[ws] event='')" "0 \<notin> set (bytes_of '' len='')" "0 \<notin> set (bytes_of '' code='')"
  "0 \<notin> set (bytes_of ''[ws] state '')" "0 \<notin> set (bytes_of '' -> '')" "0 \<notin> set (bytes_of '' ('')"
  "0 \<notin> set (bytes_of ''[ws] io '')" "0 \<notin> set (bytes_of '' fd='')" "0 \<notin> set (bytes_of '' detail='')"
  by (simp_all add: bytes_of_def)

lemma put_then:
  "returns m (holds cap T) \<Longrightarrow> (\<And>line p. holds cap T (line, p) \<Longrightarrow> returns (f line p) Q) \<Longrightarrow>
   returns (Option.bind m (\<lambda>(line, p). f line p)) Q"
  by (auto simp: returns_def)

lemma flush_then:
  "holds cap T (line, p) \<Longrightarrow> T = T' \<Longrightarrow> returns (Option.bind (sys_write K 2 line 0 p w) (\<lambda>(_, w'). Some w'))
    (\<lambda>w'. w' = snd (k_write K 2 (take cap T') w))"
  by (simp add: flush_line case_prod_unfold)

lemma put_newline: "holds cap T (line, p) \<Longrightarrow> returns (put_str line p cap [0x0A, 0]) (holds cap (T @ [0x0A]))"
  using put_str_holds [of cap T line p "[0x0A]"] by simp

lemma put_paren: "holds cap T (line, p) \<Longrightarrow> returns (put_str line p cap [0x29, 0x0A, 0]) (holds cap (T @ [0x29, 0x0A]))"
  using put_str_holds [of cap T line p "[0x29, 0x0A]"] by simp

lemma code_less: "unat (code :: uint16) < 65536"
  using unsigned_less [of code, where ?'a = nat] by simp

lemma put_code:
  assumes "holds 64 T (line, p)"
  shows "returns (if t = 4 then do { (line, p) \<leftarrow> put_str line p 64 (cstr '' code='');
        put_num junk line p 64 (unat (code :: uint16)) } else Some (line, p))
      (holds 64 (T @ (if t = (4 :: int) then bytes_of '' code='' @ decimal (unat code) else [])))"
proof -
  have c: "unat code < SIZE_MOD" using code_less [of code] by (simp add: SIZE_MOD_def)
  show ?thesis
  proof (cases "t = 4")
    case True
    have "returns (put_num junk l q 64 (unat code)) (holds 64 (T @ bytes_of '' code='' @ decimal (unat code)))"
      if "holds 64 (T @ bytes_of '' code='') (l, q)" for l q
      using put_num_holds [OF that c] by simp
    with True show ?thesis by (simp add: put_then [OF put_cstr_holds [OF assms literals_no_nul(3)]])
  qed (use assms in simp)
qed

lemma event_runs:
  assumes "len < SIZE_MOD"
  shows "returns (ws_trace_event K junk t len code w) (\<lambda>w'. w' = snd (k_write K 2 (take 64 (event_line t len code)) w))"
  unfolding ws_trace_event_def Let_def ev_name_eq(1) bind.bind_lunit
  apply (rule put_then [OF put_cstr_holds [OF holds_start literals_no_nul(1)]], simp)
  apply (rule put_then [OF put_cstr_holds [OF _ ev_name_eq(3)]], assumption)
  apply (rule put_then [OF put_cstr_holds [OF _ literals_no_nul(2)]], assumption)
  apply (rule put_then [OF put_num_holds [OF _ assms]], assumption)
  apply (rule put_then [OF put_code], assumption)
  apply (rule put_then [OF put_newline], assumption)
  apply (rule flush_then, assumption)
  apply (simp only: event_line_def append_assoc append_Nil)
  done

lemma state_runs:
  assumes "0 \<notin> set why"
  shows "returns (ws_trace_state K junk a b (why @ [0]) w) (\<lambda>w'. w' = snd (k_write K 2 (take 80 (state_line a b why)) w))"
  unfolding ws_trace_state_def Let_def state_name_eq(1) bind.bind_lunit
  apply (rule put_then [OF put_cstr_holds [OF holds_start literals_no_nul(4)]], simp)
  apply (rule put_then [OF put_cstr_holds [OF _ state_name_eq(3)]], assumption)
  apply (rule put_then [OF put_cstr_holds [OF _ literals_no_nul(5)]], assumption)
  apply (rule put_then [OF put_cstr_holds [OF _ state_name_eq(3)]], assumption)
  apply (rule put_then [OF put_cstr_holds [OF _ literals_no_nul(6)]], assumption)
  apply (rule put_then [OF put_str_holds [OF _ assms]], assumption)
  apply (rule put_then [OF put_paren], assumption)
  apply (rule flush_then, assumption)
  apply (simp only: state_line_def append_assoc append_Nil)
  done

lemma io_runs:
  assumes "0 \<notin> set what" and d: "- (2 ^ 63) < d" "d < 2 ^ 63" and t: "- (2 ^ 63) < detail" "detail < 2 ^ 63"
  shows "returns (ws_trace_io K junk (what @ [0]) d detail w) (\<lambda>w'. w' = snd (k_write K 2 (take 64 (io_line what d detail)) w))"
  unfolding ws_trace_io_def Let_def
  apply (rule put_then [OF put_cstr_holds [OF holds_start literals_no_nul(7)]], simp)
  apply (rule put_then [OF put_str_holds [OF _ assms(1)]], assumption)
  apply (rule put_then [OF put_cstr_holds [OF _ literals_no_nul(8)]], assumption)
  apply (rule put_then [OF put_int_holds [OF _ d]], assumption)
  apply (rule put_then [OF put_cstr_holds [OF _ literals_no_nul(9)]], assumption)
  apply (rule put_then [OF put_int_holds [OF _ t]], assumption)
  apply (rule put_then [OF put_newline], assumption)
  apply (rule flush_then, assumption)
  apply (simp only: io_line_def append_assoc append_Nil)
  done

lemma event_line_fits: "len < SIZE_MOD \<Longrightarrow> length (event_line t len code) \<le> 64"
proof -
  assume "len < SIZE_MOD"
  then have "length (decimal len) \<le> 20" by (rule decimal_20)
  moreover have "length (decimal (unat code)) \<le> 5"
    using code_less [of code] by (intro decimal_length) simp_all
  ultimately show ?thesis using ev_name_eq(2) [of t] by (auto simp: event_line_def)
qed

text \<open>C39. The trace lines: each sink makes one write to stderr. The event line is always written
  whole, for every event number, every 64-bit length and every close code; the lines of state
  changes and of I/O steps are written up to the size of their buffers. No formatting step leaves
  the line buffer or the digit buffer.\<close>

theorem trace_lines:
  assumes "len < 2 ^ 64" and "0 \<notin> set why" and "0 \<notin> set what"
    and "- (2 ^ 63) < d" and "d < 2 ^ 63" and "- (2 ^ 63) < detail" and "detail < 2 ^ 63"
  shows "ws_trace_event K junk t len code w = Some (snd (k_write K 2 (event_line t len code) w)) \<and>
    ws_trace_state K junk a b (why @ [0]) w = Some (snd (k_write K 2 (take 80 (state_line a b why)) w)) \<and>
    ws_trace_io K junk (what @ [0]) d detail w = Some (snd (k_write K 2 (take 64 (io_line what d detail)) w))"
proof -
  have l: "len < SIZE_MOD" using assms(1) by (simp add: SIZE_MOD_def)
  show ?thesis
    using event_runs [OF l, of K junk t code w] event_line_fits [OF l, of t code]
      state_runs [OF assms(2), of K junk a b w] io_runs [OF assms(3-7), of K junk w]
    by (simp add: returns_def)
qed

theorem trace_lines_witness:
  "\<exists>w1 w2 w3. ws_trace_event loopback [] 4 12 1000 world0 = Some w1 \<and> w_out w1 2 = event_line 4 12 1000 \<and>
    ws_trace_state loopback [] 1 2 (bytes_of ''close'' @ [0]) world0 = Some w2 \<and>
    w_out w2 2 = take 80 (state_line 1 2 (bytes_of ''close'')) \<and>
    ws_trace_io loopback [] (bytes_of ''accept'' @ [0]) 5 (-1) world0 = Some w3 \<and>
    w_out w3 2 = take 64 (io_line (bytes_of ''accept'') 5 (-1))"
  using trace_lines [of 12 "bytes_of ''close''" "bytes_of ''accept''" 5 "-1" loopback "[]" 4 1000 world0 1 2]
  by (simp add: loopback_def world0_def bytes_of_def)

text \<open>Printing a number and reading it back: where twenty bytes are free, \<open>put_num\<close> appends only
  digits, nothing before them changes, and their decimal value is the number, for every 64-bit
  number.\<close>

lemma put_num_roundtrip:
  assumes "length line = cap" and "p + 20 \<le> cap" and "v < 2 ^ 64"
  shows "\<exists>line' p'. put_num tmp0 line p cap v = Some (line', p') \<and> p < p' \<and> p' \<le> p + 20 \<and>
    take p line' = take p line \<and> list_all is_digit (take (p' - p) (drop p line')) \<and>
    dec_value (take (p' - p) (drop p line')) = v"
proof -
  have v: "v < SIZE_MOD" using assms(3) by (simp add: SIZE_MOD_def)
  have l: "length (decimal v) \<le> 20" "0 < length (decimal v)"
    using decimal_20 [OF v] decimal_nonempty [of v] by simp_all
  have "holds cap (take p line) (line, p)" using assms(1,2) by (simp add: holds_def min_def)
  then obtain line' p' where r: "put_num tmp0 line p cap v = Some (line', p')"
      "holds cap (take p line @ decimal v) (line', p')"
    using put_num_holds [OF _ v] unfolding returns_def by fast
  have lt: "length (take p line @ decimal v) = p + length (decimal v)" using assms(1,2) by simp
  have h: "p' = p + length (decimal v)" "take p' line' = take p line @ decimal v"
    using r(2) lt l(1) assms(2) unfolding holds_def by (auto simp del: take_append)
  have "take p line' = take p (take p' line')" using h(1) by (simp add: min_def)
  then have a: "take p line' = take p line" using h(2) assms(1,2) by simp
  have "take (p' - p) (drop p line') = drop p (take p' line')" by (simp add: drop_take)
  then have "take (p' - p) (drop p line') = decimal v" using h(2) assms(1,2) by simp
  with r(1) a h(1) l show ?thesis by (simp add: decimal_digits dec_value_decimal)
qed

end
