(* ===== verification/Debug.thy ===== *)
theory Debug
  imports Trace Session
begin

text \<open>
  The debug build of the protocol core (\<^verbatim>\<open>-DWS_DEBUG\<close>, the \<^verbatim>\<open>debug\<close> target of the justfile): the
  trace points of \<^verbatim>\<open>include/ws/trace.h\<close> are calls of the sinks in \<open>Trace\<close>, so the functions of
  \<^verbatim>\<open>session/lifecycle.c\<close> and \<^verbatim>\<open>session/stream.c\<close> that pass one also change the world. They carry the
  suffix \<open>_dbg\<close>; functions without a trace point on their way are those of \<open>Stream\<close>. \<open>J\<close> is what
  the uninitialised line buffers of the sinks held. The results here say what the debug build
  prints, and that otherwise it does what the release build does.
\<close>

section \<open>Trace points (trace.h)\<close>

text \<open>The enumerators as the \<^verbatim>\<open>int\<close> arguments of the sinks.\<close>

fun event_int :: "ws_event_type \<Rightarrow> int" where
  "event_int WS_EV_NONE = 0"
| "event_int WS_EV_MESSAGE = 1"
| "event_int WS_EV_PING = 2"
| "event_int WS_EV_PONG = 3"
| "event_int WS_EV_CLOSE = 4"
| "event_int WS_EV_ERROR = 5"

definition state_int :: "ws_state \<Rightarrow> int" where
  "state_int s = int (state_rank s)"

definition WS_TRACE_EVENT :: "'w kernel \<Rightarrow> byte list \<Rightarrow> ws_event_type \<Rightarrow> size_t \<Rightarrow> uint16 \<Rightarrow> 'w \<Rightarrow> 'w option" where
  "WS_TRACE_EVENT K J t len code w = ws_trace_event K J (event_int t) len code w"

definition WS_TRACE_STATE :: "'w kernel \<Rightarrow> byte list \<Rightarrow> ws_state \<Rightarrow> ws_state \<Rightarrow> string \<Rightarrow> 'w \<Rightarrow> 'w option" where
  "WS_TRACE_STATE K J from' to' why w = ws_trace_state K J (state_int from') (state_int to') (cstr why) w"

text \<open>The descriptor is passed as a C \<^verbatim>\<open>int\<close>.\<close>

definition WS_TRACE_IO :: "'w kernel \<Rightarrow> byte list \<Rightarrow> string \<Rightarrow> int \<Rightarrow> int \<Rightarrow> 'w \<Rightarrow> 'w option" where
  "WS_TRACE_IO K J what d detail w = ws_trace_io K J (cstr what) (long_to_int d) detail w"

section \<open>The lifecycle (lifecycle.c)\<close>

definition ws_lc_handshake_dbg :: "'w kernel \<Rightarrow> byte list \<Rightarrow> ws_conn \<Rightarrow> 'w \<Rightarrow> ((int \<times> ws_conn) \<times> 'w) option" where
  "ws_lc_handshake_dbg K J c w =
     (if state c \<noteq> WS_CONNECTING then Some ((WS_ERR_ILLEGAL_STATE, c), w)
      else do {
        let from' = state c;
        let c1 = c\<lparr>state := WS_OPEN\<rparr>;
        w1 \<leftarrow> WS_TRACE_STATE K J from' (state c1) ''handshake'' w;
        Some ((WS_OK, c1), w1)
      })"

definition ws_lc_send_close_dbg :: "'w kernel \<Rightarrow> byte list \<Rightarrow> ws_conn \<Rightarrow> 'w \<Rightarrow> ((int \<times> ws_conn) \<times> 'w) option" where
  "ws_lc_send_close_dbg K J c w =
     (if state c \<noteq> WS_OPEN then Some ((WS_ERR_ILLEGAL_STATE, c), w)
      else do {
        let from' = state c;
        let c1 = c\<lparr>sent_close := True, state := WS_CLOSING\<rparr>;
        w1 \<leftarrow> WS_TRACE_STATE K J from' (state c1) ''send_close'' w;
        Some ((WS_OK, c1), w1)
      })"

definition ws_lc_recv_close_dbg :: "'w kernel \<Rightarrow> byte list \<Rightarrow> ws_conn \<Rightarrow> 'w \<Rightarrow> ((int \<times> ws_conn) \<times> 'w) option" where
  "ws_lc_recv_close_dbg K J c w =
     (if \<not> ws_lc_active c then Some ((WS_ERR_ILLEGAL_STATE, c), w)
      else do {
        let from' = state c;
        let c1 = c\<lparr>rcvd_close := True, sent_close := True, state := WS_CLOSED, frag := WS_FRAG_NONE, msg_len := 0\<rparr>;
        w1 \<leftarrow> WS_TRACE_STATE K J from' (state c1) ''recv_close'' w;
        Some ((WS_OK, c1), w1)
      })"

section \<open>The driver (stream.c)\<close>

type_synonym polled = "ws_event_type \<times> ws_conn \<times> ws_event"

definition ws_conn_open_dbg :: "'w kernel \<Rightarrow> byte list \<Rightarrow> ws_conn \<Rightarrow> 'w \<Rightarrow> (ws_conn \<times> 'w) option" where
  "ws_conn_open_dbg K J c w = do {
     ((_, c1), w1) \<leftarrow> ws_lc_handshake_dbg K J c w;
     Some (c1, w1)
   }"

definition fail_dbg :: "'w kernel \<Rightarrow> byte list \<Rightarrow> ws_conn \<Rightarrow> ws_event \<Rightarrow> 'w \<Rightarrow> (polled \<times> 'w) option" where
  "fail_dbg K J c ev w = do {
     let c1 = c\<lparr>failed := True, frag := WS_FRAG_NONE, msg_len := 0\<rparr>;
     let ev1 = ev\<lparr>ev_type := WS_EV_ERROR\<rparr>;
     w1 \<leftarrow> WS_TRACE_EVENT K J WS_EV_ERROR 0 0 w;
     Some ((WS_EV_ERROR, c1, ev1), w1)
   }"

definition emit_dbg :: "'w kernel \<Rightarrow> byte list \<Rightarrow> ws_conn \<Rightarrow> ws_event \<Rightarrow> ws_event_type \<Rightarrow> 'w \<Rightarrow> (polled \<times> 'w) option" where
  "emit_dbg K J c ev t w = do {
     let ev1 = ev\<lparr>ev_type := t\<rparr>;
     w1 \<leftarrow> (if t \<noteq> WS_EV_NONE then WS_TRACE_EVENT K J t (ev_len ev1) (ev_close_code ev1) w else Some w);
     Some ((t, c, ev1), w1)
   }"

definition finish_message_dbg :: "'w kernel \<Rightarrow> byte list \<Rightarrow> ws_conn \<Rightarrow> ws_event \<Rightarrow> 'w \<Rightarrow> (polled \<times> 'w) option" where
  "finish_message_dbg K J c ev w = do {
     ok \<leftarrow> message_utf8_ok c;
     if \<not> ok then fail_dbg K J c ev w
     else let
       ev1 = ev\<lparr>ev_op := if frag c = WS_FRAG_BIN then WS_OP_BIN else WS_OP_TEXT,
         ev_data := Some 0, ev_len := msg_len c\<rparr>;
       c1 = snd (ws_lc_finish_frag c);
       c2 = c1\<lparr>msg_len := 0\<rparr>
     in emit_dbg K J c2 ev1 WS_EV_MESSAGE w
   }"

definition on_data_dbg ::
    "'w kernel \<Rightarrow> byte list \<Rightarrow> ws_conn \<Rightarrow> ws_frame_header \<Rightarrow> size_t \<Rightarrow> ws_event \<Rightarrow> 'w \<Rightarrow> (polled \<times> 'w) option" where
  "on_data_dbg K J c h hdr ev w = (
     let is_cont = (opcode h = WS_OP_CONT) in
     if data_illegal c h is_cont then fail_dbg K J c ev w
     else do {
       c2 \<leftarrow> accumulate (begin_data c h is_cont) h hdr;
       if \<not> fin h then emit_dbg K J c2 ev WS_EV_NONE w
       else finish_message_dbg K J c2 ev w
     })"

definition on_close_dbg ::
    "'w kernel \<Rightarrow> byte list \<Rightarrow> ws_conn \<Rightarrow> ws_frame_header \<Rightarrow> size_t \<Rightarrow> ws_event \<Rightarrow> 'w \<Rightarrow> (polled \<times> 'w) option" where
  "on_close_dbg K J c h hdr ev w = do {
     ok \<leftarrow> close_body_ok c h hdr;
     if \<not> ok then fail_dbg K J c ev w
     else do {
       let plen = unat (payload_len h);
       c1 \<leftarrow> (if plen \<ge> 2 then do { code \<leftarrow> close_code_at c hdr; Some (c\<lparr>close_code := code\<rparr>) }
              else Some c);
       let ev1 = ev\<lparr>ev_close_code := close_code c1\<rparr>;
       ((_, c2), w1) \<leftarrow> ws_lc_recv_close_dbg K J c1 w;
       c3 \<leftarrow> raw_consume c2 (size_add hdr plen);
       emit_dbg K J c3 ev1 WS_EV_CLOSE w1
     }
   }"

definition on_control_dbg ::
    "'w kernel \<Rightarrow> byte list \<Rightarrow> ws_conn \<Rightarrow> ws_frame_header \<Rightarrow> size_t \<Rightarrow> ws_event \<Rightarrow> 'w \<Rightarrow> (polled \<times> 'w) option" where
  "on_control_dbg K J c h hdr ev w =
     (if opcode h = WS_OP_CLOSE then on_close_dbg K J c h hdr ev w
      else do {
        let ev1 = ev\<lparr>ev_data := Some (raw c + hdr), ev_len := unat (payload_len h)\<rparr>;
        let t = (if opcode h = WS_OP_PING then WS_EV_PING else WS_EV_PONG);
        c1 \<leftarrow> raw_consume c (size_add hdr (unat (payload_len h)));
        emit_dbg K J c1 ev1 t w
      })"

definition route_dbg ::
    "'w kernel \<Rightarrow> byte list \<Rightarrow> ws_conn \<Rightarrow> ws_frame_header \<Rightarrow> size_t \<Rightarrow> ws_event \<Rightarrow> 'w \<Rightarrow> (polled \<times> 'w) option" where
  "route_dbg K J c h hdr ev w = (
     let cls = ws_classify_opcode (ucast (opcode h)) in
     if cls = WS_CLASS_CONTROL then on_control_dbg K J c h hdr ev w
     else if cls = WS_CLASS_DATA then on_data_dbg K J c h hdr ev w
     else fail_dbg K J c ev w)"

definition admit_dbg ::
    "'w kernel \<Rightarrow> byte list \<Rightarrow> ws_conn \<Rightarrow> ws_frame_header \<Rightarrow> ws_event \<Rightarrow> 'w \<Rightarrow> ((polled + unit) \<times> 'w) option" where
  "admit_dbg K J c h ev w =
     (if \<not> ws_lc_active c then do { (out, w1) \<leftarrow> fail_dbg K J c ev w; Some (Inl out, w1) }
      else if \<not> mask_ok c h then do { (out, w1) \<leftarrow> fail_dbg K J c ev w; Some (Inl out, w1) }
      else Some (Inr (), w))"

definition dispatch_dbg ::
    "'w kernel \<Rightarrow> byte list \<Rightarrow> ws_conn \<Rightarrow> ws_frame_header \<Rightarrow> size_t \<Rightarrow> ws_event \<Rightarrow> 'w \<Rightarrow> (polled \<times> 'w) option" where
  "dispatch_dbg K J c h hdr ev w = do {
     (a, w1) \<leftarrow> admit_dbg K J c h ev w;
     (case a of
        Inl out \<Rightarrow> Some (out, w1)
      | Inr _ \<Rightarrow> do { c1 \<leftarrow> unmask_payload c h hdr; route_dbg K J c1 h hdr ev w1 })
   }"

definition ws_conn_poll_dbg :: "'w kernel \<Rightarrow> byte list \<Rightarrow> ws_conn \<Rightarrow> ws_event \<Rightarrow> 'w \<Rightarrow> (polled \<times> 'w) option" where
  "ws_conn_poll_dbg K J c ev0 w = (
     let ev = clear_event ev0 in
     if failed c then emit_dbg K J c ev WS_EV_ERROR w
     else do {
       (ready, h, hdr, total) \<leftarrow> frame_ready c zero_header;
       if \<not> ready then Some ((WS_EV_NONE, c, ev), w)
       else dispatch_dbg K J c h hdr ev w
     })"

definition ws_send_close_dbg ::
    "'w kernel \<Rightarrow> byte list \<Rightarrow> byte list \<Rightarrow> ws_conn \<Rightarrow> uint16 \<Rightarrow> byte list \<Rightarrow> size_t \<Rightarrow> 'w \<Rightarrow>
     ((size_t \<times> ws_conn \<times> byte list) \<times> 'w) option" where
  "ws_send_close_dbg K J key c code out cap w =
     (if state c \<noteq> WS_OPEN then Some ((0, c, out), w)
      else do {
        (n, out1) \<leftarrow> build_frame key c WS_OP_CLOSE [ucast (drop_bit 8 code), ucast code] 2 out cap;
        if n > 0 then do {
          ((_, c1), w1) \<leftarrow> ws_lc_send_close_dbg K J c w;
          Some ((n, c1, out1), w1)
        } else Some ((n, c, out1), w)
      })"

section \<open>What the trace points print\<close>

lemma event_point:
  "len < SIZE_MOD \<Longrightarrow>
   WS_TRACE_EVENT K J t len code w = Some (snd (k_write K 2 (event_line (event_int t) len code) w))"
  using event_runs [of len K J "event_int t" code w] event_line_fits [of len "event_int t" code]
  by (simp add: WS_TRACE_EVENT_def returns_def)

lemma state_point:
  assumes "0 \<notin> set (bytes_of why)" and "length why \<le> 20"
  shows "WS_TRACE_STATE K J a b why w = Some (snd (k_write K 2 (state_line (state_int a) (state_int b) (bytes_of why)) w))"
proof -
  have "length (state_line (state_int a) (state_int b) (bytes_of why)) \<le> 80"
    using assms(2) state_name_eq(2) [of "state_int a"] state_name_eq(2) [of "state_int b"]
    by (simp add: state_line_def)
  then show ?thesis
    using state_runs [OF assms(1), of K J "state_int a" "state_int b" w]
    by (simp add: WS_TRACE_STATE_def returns_def cstr_def)
qed

lemma whys: "0 \<notin> set (bytes_of ''handshake'')" "0 \<notin> set (bytes_of ''send_close'')" "0 \<notin> set (bytes_of ''recv_close'')"
  by (simp_all add: bytes_of_def)

text \<open>The world after an event, or a change of state, has been printed; without one it is unchanged.\<close>

definition note_event :: "'w kernel \<Rightarrow> polled \<Rightarrow> 'w \<Rightarrow> 'w" where
  "note_event K = (\<lambda>(t, c, ev) w. if t = WS_EV_NONE then w
     else snd (k_write K 2 (event_line (event_int t) (ev_len ev) (ev_close_code ev)) w))"

definition note_state :: "'w kernel \<Rightarrow> ws_state \<Rightarrow> string \<Rightarrow> ws_state \<Rightarrow> 'w \<Rightarrow> 'w" where
  "note_state K a why b w = (if a = b then w
     else snd (k_write K 2 (state_line (state_int a) (state_int b) (bytes_of why)) w))"

definition note_poll :: "'w kernel \<Rightarrow> ws_state \<Rightarrow> polled \<Rightarrow> 'w \<Rightarrow> 'w" where
  "note_poll K a r w = note_event K r (note_state K a ''recv_close'' (state (fst (snd r))) w)"

definition traced :: "'w kernel \<Rightarrow> ws_state \<Rightarrow> 'w \<Rightarrow> polled option \<Rightarrow> (polled \<times> 'w) option \<Rightarrow> bool" where
  "traced K a w m md \<longleftrightarrow> md = map_option (\<lambda>r. (r, note_poll K a r w)) m"

lemma traced_bind:
  "(\<And>x. m = Some x \<Longrightarrow> traced K a w (f x) (g x)) \<Longrightarrow> traced K a w (Option.bind m f) (Option.bind m g)"
  by (cases m) (simp_all add: traced_def)

lemma traced_if:
  "(b \<Longrightarrow> traced K a w m md) \<Longrightarrow> (\<not> b \<Longrightarrow> traced K a w n nd) \<Longrightarrow>
   traced K a w (if b then m else n) (if b then md else nd)"
  by simp

text \<open>An event without data, as the driver's functions receive it.\<close>

definition blank_event :: "ws_event \<Rightarrow> bool" where
  "blank_event ev \<longleftrightarrow> ev_len ev = 0 \<and> ev_close_code ev = 0"

lemma traced_fail: "state c = a \<Longrightarrow> blank_event ev \<Longrightarrow> traced K a w (Some (fail c ev)) (fail_dbg K J c ev w)"
  by (simp add: traced_def fail_def fail_dbg_def event_point SIZE_MOD_def note_poll_def note_event_def note_state_def
      blank_event_def)

lemma traced_emit:
  assumes "ev_len ev < SIZE_MOD"
  shows "emit_dbg K J c ev t (note_state K a ''recv_close'' (state c) w) =
      Some (emit c ev t, note_poll K a (emit c ev t) w)"
  by (simp add: event_point [OF assms] emit_def emit_dbg_def note_poll_def note_event_def)

lemma traced_emit_same:
  assumes "state c = a" and "ev_len ev < SIZE_MOD"
  shows "traced K a w (Some (emit c ev t)) (emit_dbg K J c ev t w)"
  using traced_emit [OF assms(2), of K J c t a w] assms(1) by (simp add: traced_def note_state_def)

section \<open>What leaves the state alone\<close>

lemma accumulate_keeps: "accumulate c h hdr = Some c' \<Longrightarrow> state c' = state c \<and> msg_len c' < SIZE_MOD"
  by (auto simp: accumulate_def Let_def size_add_def SIZE_MOD_def split: Option.bind_splits)

lemma raw_consume_keeps: "raw_consume c n = Some c' \<Longrightarrow> state c' = state c"
  by (auto simp: raw_consume_def split: Option.bind_splits)

lemma unmask_keeps: "unmask_payload c h hdr = Some c' \<Longrightarrow> state c' = state c"
  by (auto simp: unmask_payload_def split: Option.bind_splits if_splits)

lemma frag_keeps: "state (begin_data c h k) = state c" "state (snd (ws_lc_finish_frag c)) = state c"
  by (simp_all add: begin_data_def ws_lc_start_frag_def ws_lc_finish_frag_def)

lemma payload_less: "unat (payload_len h) < SIZE_MOD"
  using unsigned_less [of "payload_len h", where ?'a = nat] by (simp add: SIZE_MOD_def)

section \<open>The driver in the debug build\<close>

lemma finish_message_traced:
  assumes "state c = a" and "msg_len c < SIZE_MOD" and "blank_event ev"
  shows "traced K a w (finish_message c ev) (finish_message_dbg K J c ev w)"
  unfolding finish_message_def finish_message_dbg_def Let_def
  by (intro traced_bind traced_if traced_fail traced_emit_same) (use assms frag_keeps in simp_all)

lemma on_data_traced:
  assumes "state c = a" and "blank_event ev"
  shows "traced K a w (on_data c h hdr ev) (on_data_dbg K J c h hdr ev w)"
  unfolding on_data_def on_data_dbg_def Let_def
  by (intro traced_bind traced_if traced_fail traced_emit_same finish_message_traced)
    (use assms in \<open>auto dest: accumulate_keeps simp: frag_keeps blank_event_def SIZE_MOD_def\<close>)

lemma recv_close_traced:
  assumes "ws_lc_active c"
  shows "ws_lc_recv_close_dbg K J c w =
    Some (ws_lc_recv_close c, note_state K (state c) ''recv_close'' (state (snd (ws_lc_recv_close c))) w)"
  using assms state_point [OF whys(3), of K J "state c" WS_CLOSED w]
  by (auto simp: ws_lc_recv_close_dbg_def ws_lc_recv_close_def note_state_def ws_lc_active_def)

lemma close_tail_traced:
  assumes "state c = a" and "ws_lc_active c" and "blank_event ev"
  shows "traced K a w
    (do { c3 \<leftarrow> raw_consume (snd (ws_lc_recv_close c)) n; Some (emit c3 (ev\<lparr>ev_close_code := k\<rparr>) WS_EV_CLOSE) })
    (do { ((_, c2), w1) \<leftarrow> ws_lc_recv_close_dbg K J c w; c3 \<leftarrow> raw_consume c2 n;
          emit_dbg K J c3 (ev\<lparr>ev_close_code := k\<rparr>) WS_EV_CLOSE w1 })"
proof (cases "raw_consume (snd (ws_lc_recv_close c)) n")
  case (Some c3)
  have "ev_len (ev\<lparr>ev_close_code := k\<rparr>) < SIZE_MOD" using assms(3) by (simp add: blank_event_def SIZE_MOD_def)
  then show ?thesis
    using Some raw_consume_keeps [OF Some] traced_emit [of "ev\<lparr>ev_close_code := k\<rparr>" K J c3 WS_EV_CLOSE a w] assms(1)
    by (simp add: recv_close_traced [OF assms(2)] traced_def case_prod_unfold)
qed (simp add: recv_close_traced [OF assms(2)] traced_def case_prod_unfold)

lemma on_close_traced:
  assumes "state c = a" and "ws_lc_active c" and "blank_event ev"
  shows "traced K a w (on_close c h hdr ev) (on_close_dbg K J c h hdr ev w)"
  unfolding on_close_def on_close_dbg_def Let_def
  by (intro traced_bind traced_if traced_fail close_tail_traced)
    (use assms in \<open>auto simp: ws_lc_active_def split: Option.bind_splits if_splits\<close>)

lemma on_control_traced:
  assumes "state c = a" and "ws_lc_active c" and "blank_event ev"
  shows "traced K a w (on_control c h hdr ev) (on_control_dbg K J c h hdr ev w)"
  unfolding on_control_def on_control_dbg_def Let_def
  by (intro traced_bind traced_if on_close_traced traced_emit_same)
    (use assms payload_less in \<open>auto dest: raw_consume_keeps\<close>)

lemma route_traced:
  assumes "state c = a" and "ws_lc_active c" and "blank_event ev"
  shows "traced K a w (route c h hdr ev) (route_dbg K J c h hdr ev w)"
  unfolding route_def route_dbg_def Let_def
  by (intro traced_if on_control_traced on_data_traced traced_fail) (use assms in auto)

lemma dispatch_traced:
  assumes "blank_event ev"
  shows "traced K (state c) w (dispatch c h hdr ev) (dispatch_dbg K J c h hdr ev w)"
proof (cases "ws_lc_active c \<and> mask_ok c h")
  case True
  then have "dispatch_dbg K J c h hdr ev w = do { c1 \<leftarrow> unmask_payload c h hdr; route_dbg K J c1 h hdr ev w }"
      "dispatch c h hdr ev = do { c1 \<leftarrow> unmask_payload c h hdr; route c1 h hdr ev }"
    by (simp_all add: dispatch_dbg_def dispatch_def admit_dbg_def admit_def)
  then show ?thesis
    using True assms by (auto intro!: traced_bind route_traced dest: unmask_keeps simp: ws_lc_active_def)
next
  case False
  then have "dispatch_dbg K J c h hdr ev w = fail_dbg K J c ev w" "dispatch c h hdr ev = Some (fail c ev)"
    by (auto simp: dispatch_dbg_def dispatch_def admit_dbg_def admit_def case_prod_unfold)
  then show ?thesis using traced_fail [OF refl assms] by simp
qed

lemma poll_dbg_eq: "ws_conn_poll_dbg K J c ev w = map_option (\<lambda>r. (r, note_poll K (state c) r w)) (ws_conn_poll c ev)"
proof -
  have b: "blank_event (clear_event ev)" by (simp add: clear_event_def blank_event_def)
  then have l: "ev_len (clear_event ev) < SIZE_MOD" by (simp add: blank_event_def SIZE_MOD_def)
  have n: "traced K (state c) w (Some (WS_EV_NONE, c, clear_event ev)) (Some ((WS_EV_NONE, c, clear_event ev), w))"
    by (simp add: traced_def note_poll_def note_event_def note_state_def)
  have "traced K (state c) w (ws_conn_poll c ev) (ws_conn_poll_dbg K J c ev w)"
    unfolding ws_conn_poll_def ws_conn_poll_dbg_def Let_def
    by (auto intro!: traced_if traced_bind dispatch_traced [OF b] n traced_emit_same [OF refl l])
  then show ?thesis by (simp add: traced_def)
qed

lemma open_dbg_eq:
  "ws_conn_open_dbg K J c w =
    Some (ws_conn_open c, note_state K (state c) ''handshake'' (state (ws_conn_open c)) w)"
  using state_point [OF whys(1), of K J WS_CONNECTING WS_OPEN w]
  by (simp add: ws_conn_open_dbg_def ws_conn_open_def ws_lc_handshake_dbg_def ws_lc_handshake_def note_state_def)

lemma send_close_dbg_eq:
  "ws_send_close_dbg K J key c code out cap w =
    map_option (\<lambda>r. (r, note_state K (state c) ''send_close'' (state (fst (snd r))) w)) (ws_send_close key c code out cap)"
  using state_point [OF whys(2), of K J WS_OPEN WS_CLOSING w]
  by (auto simp: ws_send_close_dbg_def ws_send_close_def ws_lc_send_close_dbg_def ws_lc_send_close_def note_state_def
      split: option.splits Option.bind_splits)

section \<open>Properties\<close>

text \<open>C38. The debug build of a poll: it returns exactly what the release build returns, whatever the
  connection, and what it has written to stderr is one line for the change of state, when the poll
  changed the state, followed by one line for the event, when there is one, with the type, the
  length and the close code that the caller receives.\<close>

theorem poll_traced:
  "ws_conn_poll_dbg K J c ev w = (case ws_conn_poll c ev of
      None \<Rightarrow> None
    | Some (t, c', ev') \<Rightarrow>
        let w1 = (if state c' = state c then w
          else snd (k_write K 2 (state_line (state_int (state c)) (state_int (state c')) (bytes_of ''recv_close'')) w))
        in Some ((t, c', ev'),
          if t = WS_EV_NONE then w1
          else snd (k_write K 2 (event_line (event_int t) (ev_len ev') (ev_close_code ev')) w1)))"
  unfolding poll_dbg_eq by (auto simp: note_poll_def note_event_def note_state_def split: option.splits)

end
