(* ===== verification/DebugServer.thy ===== *)
theory DebugServer
  imports Debug Echo
begin

text \<open>
  The debug build of the server and of the echo server. Every function of \<^verbatim>\<open>io/io_posix.c\<close> and
  \<^verbatim>\<open>example/echo_server.c\<close> on whose way there is a trace point is written again with it, the others
  are those of \<open>Server\<close> and \<open>Echo\<close>. The result is that the debug build serves its clients like the
  release build: from worlds that differ only in what was written to stderr, both make the same
  moves and end in such worlds.
\<close>

section \<open>The server (io_posix.c)\<close>

definition slot_close_dbg :: "'w kernel \<Rightarrow> byte list \<Rightarrow> ws_io \<Rightarrow> nat \<Rightarrow> 'w \<Rightarrow> (ws_io \<times> 'w) option" where
  "slot_close_dbg K J io i w = do {
     s \<leftarrow> load (conns io) i;
     w0 \<leftarrow> WS_TRACE_IO K J ''close'' (fd s) (-1) w;
     let (_, w1) = k_epoll_ctl K (epoll_fd io) EPOLL_CTL_DEL (fd s) None w0;
     let w2 = sys_close K (fd s) w1;
     Some (set_slot io i (s\<lparr>used := False\<rparr>), w2)
   }"

definition ws_io_send_close_dbg ::
    "'w kernel \<Rightarrow> byte list \<Rightarrow> byte list \<Rightarrow> ws_io \<Rightarrow> nat \<Rightarrow> uint16 \<Rightarrow> 'w \<Rightarrow> (int \<times> ws_io \<times> 'w) option" where
  "ws_io_send_close_dbg K J key io c code w = do {
     s \<leftarrow> load (conns io) c;
     ((n, c', out), w1) \<leftarrow> ws_send_close_dbg K J key (conn s) code (replicate 32 0) 32 w;
     let io' = set_slot io c (s\<lparr>conn := c'\<rparr>);
     (r, w') \<leftarrow> send_built K io' c n out w1;
     Some (r, io', w')
   }"

definition on_accept_dbg :: "'w kernel \<Rightarrow> byte list \<Rightarrow> ws_io \<Rightarrow> 'w \<Rightarrow> (ws_io \<times> 'w) option" where
  "on_accept_dbg K J io w = (
     let (cfd, w1) = k_accept K (listen_fd io) w in
     if cfd < 0 then Some (io, w1)
     else do {
       p \<leftarrow> alloc_slot io;
       (case p of
          None \<Rightarrow> do {
            w2 \<leftarrow> WS_TRACE_IO K J ''reject'' (long_to_int cfd) (-1) w1;
            Some (io, sys_close K (long_to_int cfd) w2)
          }
        | Some i \<Rightarrow> do {
            let io' = set_slot io i (fresh_slot (long_to_int cfd));
            let (_, w2) = epoll_add K (epoll_fd io) (long_to_int cfd) w1;
            w3 \<leftarrow> WS_TRACE_IO K J ''accept'' (long_to_int cfd) (-1) w2;
            Some (io', w3)
          })
     })"

partial_function (option) drain_events_dbg ::
    "'w kernel \<Rightarrow> byte list \<Rightarrow> 'w handler \<Rightarrow> ws_io \<Rightarrow> nat \<Rightarrow> ws_event \<Rightarrow> 'w \<Rightarrow> (int \<times> ws_io \<times> 'w) option" where
  "drain_events_dbg K J H io i ev w = do {
     s \<leftarrow> load (conns io) i;
     ((t, c', ev'), w1) \<leftarrow> ws_conn_poll_dbg K J (conn s) ev w;
     let io1 = set_slot io i (s\<lparr>conn := c'\<rparr>);
     if t = WS_EV_NONE then Some (0, io1, w1)
     else do {
       (io2, w2) \<leftarrow> H io1 i ev' w1;
       if is_terminal (ev_type ev') then Some (1, io2, w2)
       else drain_events_dbg K J H io2 i ev' w2
     }
   }"

definition feed_dbg ::
    "'w kernel \<Rightarrow> byte list \<Rightarrow> 'w handler \<Rightarrow> ws_io \<Rightarrow> nat \<Rightarrow> byte list \<Rightarrow> size_t \<Rightarrow> ws_event \<Rightarrow> 'w \<Rightarrow>
     (int \<times> ws_io \<times> 'w) option" where
  "feed_dbg K J H io i bytes len ev w = do {
     s \<leftarrow> load (conns io) i;
     (r, c') \<leftarrow> (if len > 0 then ws_conn_recv (conn s) bytes len else Some (0, conn s));
     let io1 = set_slot io i (s\<lparr>conn := c'\<rparr>);
     if len > 0 \<and> r < 0 then Some (1, io1, w)
     else drain_events_dbg K J H io1 i ev w
   }"

definition finish_handshake_dbg ::
    "'w kernel \<Rightarrow> byte list \<Rightarrow> 'w handler \<Rightarrow> stack \<Rightarrow> ws_io \<Rightarrow> nat \<Rightarrow> int \<Rightarrow> 'w \<Rightarrow> (int \<times> ws_io \<times> 'w) option" where
  "finish_handshake_dbg K J H S io i body_at w = do {
     s \<leftarrow> load (conns io) i;
     (rc, accept) \<leftarrow> compute_accept (st_key S) (st_cat S) (hsbuf s) (nat body_at)
       (take 28 (st_accept S @ replicate 28 0));
     if rc \<noteq> 0 then Some (1, io, w)
     else do {
       (r, w1) \<leftarrow> send_accept K (fd s) accept w;
       if r \<noteq> 0 then Some (1, io, w1)
       else do {
         (c, w2) \<leftarrow> ws_conn_open_dbg K J (ws_conn_init (io_role io) (slot_buf s) (length (slot_buf s))) w1;
         let io1 = set_slot io i (s\<lparr>conn := c, opened := True\<rparr>);
         w3 \<leftarrow> WS_TRACE_IO K J ''handshake'' (fd s) (-1) w2;
         let off = size_add (nat body_at) 4;
         feed_dbg K J H io1 i (drop off (hsbuf s)) (size_sub (hslen s) off) (st_event S) w3
       }
     }
   }"

definition handshake_step_dbg ::
    "'w kernel \<Rightarrow> byte list \<Rightarrow> 'w handler \<Rightarrow> stack \<Rightarrow> ws_io \<Rightarrow> nat \<Rightarrow> 'w \<Rightarrow> (int \<times> ws_io \<times> 'w) option" where
  "handshake_step_dbg K J H S io i w = do {
     s \<leftarrow> load (conns io) i;
     at \<leftarrow> find_sub (hsbuf s) (hslen s) (crlf @ crlf @ [0]);
     if at < 0 then Some (if hslen s \<ge> length (hsbuf s) then 1 else 0, io, w)
     else finish_handshake_dbg K J H S io i at w
   }"

definition on_handshake_data_dbg ::
    "'w kernel \<Rightarrow> byte list \<Rightarrow> 'w handler \<Rightarrow> stack \<Rightarrow> ws_io \<Rightarrow> nat \<Rightarrow> 'w \<Rightarrow> (int \<times> ws_io \<times> 'w) option" where
  "on_handshake_data_dbg K J H S io i w = do {
     s \<leftarrow> load (conns io) i;
     (r, hs, w1) \<leftarrow> sys_read K (fd s) (hsbuf s) (hslen s) (size_sub (length (hsbuf s)) (hslen s)) w;
     let s1 = s\<lparr>hsbuf := hs\<rparr>;
     if r \<le> 0 then Some (1, set_slot io i s1, w1)
     else handshake_step_dbg K J H S (set_slot io i (s1\<lparr>hslen := size_add (hslen s1) (nat r)\<rparr>)) i w1
   }"

definition on_client_data_dbg ::
    "'w kernel \<Rightarrow> byte list \<Rightarrow> 'w handler \<Rightarrow> stack \<Rightarrow> ws_io \<Rightarrow> nat \<Rightarrow> 'w \<Rightarrow> (int \<times> ws_io \<times> 'w) option" where
  "on_client_data_dbg K J H S io i w = do {
     s \<leftarrow> load (conns io) i;
     if \<not> opened s then on_handshake_data_dbg K J H S io i w
     else do {
       (r, chunk, w1) \<leftarrow> sys_read K (fd s) (take 4096 (st_chunk S @ replicate 4096 0)) 0 4096 w;
       if r \<le> 0 then Some (1, io, w1)
       else feed_dbg K J H io i chunk (nat r) (st_event S) w1
     }
   }"

definition service_client_dbg ::
    "'w kernel \<Rightarrow> byte list \<Rightarrow> 'w handler \<Rightarrow> stack \<Rightarrow> ws_io \<Rightarrow> nat \<Rightarrow> 'w \<Rightarrow> (ws_io \<times> 'w) option" where
  "service_client_dbg K J H S io i w = do {
     (r, io1, w1) \<leftarrow> on_client_data_dbg K J H S io i w;
     if r \<noteq> 0 then slot_close_dbg K J io1 i w1 else Some (io1, w1)
   }"

definition on_readable_dbg ::
    "'w kernel \<Rightarrow> byte list \<Rightarrow> 'w handler \<Rightarrow> stack \<Rightarrow> ws_io \<Rightarrow> int \<Rightarrow> 'w \<Rightarrow> (ws_io \<times> 'w) option" where
  "on_readable_dbg K J H S io d w =
     (if d = listen_fd io then on_accept_dbg K J io w
      else do {
        p \<leftarrow> slot_by_fd io d;
        (case p of Some i \<Rightarrow> service_client_dbg K J H S io i w | None \<Rightarrow> Some (io, w))
      })"

fun serve_events_dbg ::
    "'w kernel \<Rightarrow> byte list \<Rightarrow> 'w handler \<Rightarrow> stack \<Rightarrow> epoll_event list \<Rightarrow> ws_io \<Rightarrow> 'w \<Rightarrow> (ws_io \<times> 'w) option" where
  "serve_events_dbg K J H S [] io w = Some (io, w)"
| "serve_events_dbg K J H S (e # es) io w = do {
     (io1, w1) \<leftarrow> on_readable_dbg K J H S io (sint (ucast (ep_data e) :: 32 word)) w;
     serve_events_dbg K J H S es io1 w1
   }"

definition loop_round_dbg :: "'w kernel \<Rightarrow> byte list \<Rightarrow> 'w handler \<Rightarrow> stack \<Rightarrow> ws_io \<Rightarrow> 'w \<Rightarrow> (ws_io \<times> 'w) option" where
  "loop_round_dbg K J H S io w = (
     let (n, evs, w1) = k_epoll_wait K (epoll_fd io) (WS_IO_MAX_CONNS + 1) w in
     if length evs \<le> WS_IO_MAX_CONNS + 1 \<and> n \<le> int (length evs)
     then serve_events_dbg K J H S (take (nat n) evs) io w1 else None)"

fun run_rounds_dbg ::
    "nat \<Rightarrow> 'w kernel \<Rightarrow> byte list \<Rightarrow> 'w handler \<Rightarrow> stack \<Rightarrow> ws_io \<Rightarrow> 'w \<Rightarrow> (ws_io \<times> 'w) option" where
  "run_rounds_dbg 0 K J H S io w = Some (io, w)"
| "run_rounds_dbg (Suc n) K J H S io w = do {
     (io1, w1) \<leftarrow> loop_round_dbg K J H S io w;
     run_rounds_dbg n K J H S io1 w1
   }"

definition ws_serve_dbg ::
    "'w kernel \<Rightarrow> byte list \<Rightarrow> 'w handler \<Rightarrow> stack \<Rightarrow> nat \<Rightarrow> uint16 \<Rightarrow> ws_role \<Rightarrow> 'w \<Rightarrow>
     (int \<times> 'w + ws_io \<times> 'w) option" where
  "ws_serve_dbg K J H S n port r w = (
     let (rc, io, w1) = io_setup K (zero_io r) port w in
     if rc \<noteq> 0 then Some (Inl (rc, w1))
     else do { p \<leftarrow> run_rounds_dbg n K J H S io w1; Some (Inr p) })"

section \<open>The echo server (echo_server.c)\<close>

definition on_event_dbg :: "'w kernel \<Rightarrow> byte list \<Rightarrow> byte list \<Rightarrow> 'w handler" where
  "on_event_dbg K J key io c ev w =
     (if ev_type ev = WS_EV_CLOSE then do {
        (_, io', w') \<leftarrow> ws_io_send_close_dbg K J key io c (ev_close_code ev) w;
        Some (io', w')
      }
      else echo_reply K key io c ev w)"

definition ws_main_dbg ::
    "'w kernel \<Rightarrow> byte list \<Rightarrow> byte list \<Rightarrow> stack \<Rightarrow> nat \<Rightarrow> int \<Rightarrow> byte list list \<Rightarrow> 'w \<Rightarrow>
     (int \<times> 'w + ws_io \<times> 'w) option" where
  "ws_main_dbg K J key S n argc argv w = do {
     port \<leftarrow> port_from_stack argc argv;
     r \<leftarrow> ws_serve_dbg K J (on_event_dbg K J key) S n port WS_ROLE_SERVER w;
     (case r of
        Inr p \<Rightarrow> Some (Inr p)
      | Inl (rc, w1) \<Rightarrow> do {
          w2 \<leftarrow> (if rc \<noteq> 0 then do {
             w' \<leftarrow> warn K (cstr ''echo-server: '') w1;
             m \<leftarrow> ws_io_strerror rc;
             w'' \<leftarrow> warn K (cstr m) w';
             warn K [0x0A, 0] w''
           } else Some w1);
          Some (Inl (if rc = 0 then 0 else 1, w2))
        })
   }"

section \<open>Following a computation\<close>

text \<open>\<open>follows R m md\<close>: whenever \<open>m\<close> returns, \<open>md\<close> returns too, with a related result.\<close>

definition follows :: "('a \<Rightarrow> 'b \<Rightarrow> bool) \<Rightarrow> 'a option \<Rightarrow> 'b option \<Rightarrow> bool" where
  "follows R m md \<longleftrightarrow> (\<forall>x. m = Some x \<longrightarrow> (\<exists>y. md = Some y \<and> R x y))"

lemma follows_Some [simp]: "follows R (Some x) (Some y) \<longleftrightarrow> R x y"
  by (simp add: follows_def)

lemma follows_None [simp]: "follows R None md"
  by (simp add: follows_def)

lemma follows_pure: "(\<And>x. m = Some x \<Longrightarrow> follows R (f x) (g x)) \<Longrightarrow> follows R (Option.bind m f) (Option.bind m g)"
  by (cases m) simp_all

lemma follows_bind:
  "follows P m md \<Longrightarrow> (\<And>x y. P x y \<Longrightarrow> follows R (f x) (g y)) \<Longrightarrow> follows R (Option.bind m f) (Option.bind md g)"
  by (cases m) (auto simp: follows_def)

lemma follows_if:
  "(b \<Longrightarrow> follows R m md) \<Longrightarrow> (\<not> b \<Longrightarrow> follows R n nd) \<Longrightarrow> follows R (if b then m else n) (if b then md else nd)"
  by simp

lemma follows_pair:
  "follows (rel_prod (=) same) m md \<Longrightarrow> (\<And>a w v. same w v \<Longrightarrow> follows R (f a w) (g a v)) \<Longrightarrow>
   follows R (Option.bind m (\<lambda>(a, w). f a w)) (Option.bind md (\<lambda>(a, v). g a v))"
  by (erule follows_bind) auto

lemma follows_triple:
  "follows (rel_prod (=) (rel_prod (=) same)) m md \<Longrightarrow> (\<And>a b w v. same w v \<Longrightarrow> follows R (f a b w) (g a b v)) \<Longrightarrow>
   follows R (Option.bind m (\<lambda>(a, b, w). f a b w)) (Option.bind md (\<lambda>(a, b, v). g a b v))"
  by (erule follows_bind) auto

lemma follows_let:
  "rel_prod (=) same p q \<Longrightarrow> (\<And>a w v. same w v \<Longrightarrow> follows R (f a w) (g a v)) \<Longrightarrow>
   follows R (case p of (a, w) \<Rightarrow> f a w) (case q of (a, v) \<Rightarrow> g a v)"
  by (cases p; cases q) simp

section \<open>A kernel on which stderr is apart\<close>

text \<open>\<open>same w v\<close>: the worlds \<open>w\<close> and \<open>v\<close> differ at most in what was written to stderr. No system
  call returns anything else, or changes anything else, because of that difference, and a write to
  stderr adds only to it.\<close>

locale quiet_kernel =
  fixes K :: "'w kernel" and same :: "'w \<Rightarrow> 'w \<Rightarrow> bool"
  assumes same_refl: "same w w"
    and quiet: "same w v \<Longrightarrow> same w (snd (k_write K 2 bs v))"
    and read_same: "same w v \<Longrightarrow> rel_prod (=) (rel_prod (=) same) (k_read K d n w) (k_read K d n v)"
    and write_same: "same w v \<Longrightarrow> rel_prod (=) same (k_write K d bs w) (k_write K d bs v)"
    and close_same: "same w v \<Longrightarrow> same (k_close K d w) (k_close K d v)"
    and accept_same: "same w v \<Longrightarrow> rel_prod (=) same (k_accept K a w) (k_accept K a v)"
    and ctl_same: "same w v \<Longrightarrow> rel_prod (=) same (k_epoll_ctl K a b c ep w) (k_epoll_ctl K a b c ep v)"
    and wait_same: "same w v \<Longrightarrow> rel_prod (=) (rel_prod (=) same) (k_epoll_wait K a n w) (k_epoll_wait K a n v)"
begin

text \<open>The two shapes of related results.\<close>

abbreviation agree1 :: "('a \<times> 'w) option \<Rightarrow> ('a \<times> 'w) option \<Rightarrow> bool" where
  "agree1 \<equiv> follows (rel_prod (=) same)"

abbreviation agree2 :: "('a \<times> 'b \<times> 'w) option \<Rightarrow> ('a \<times> 'b \<times> 'w) option \<Rightarrow> bool" where
  "agree2 \<equiv> follows (rel_prod (=) (rel_prod (=) same))"

lemmas pairs = follows_pair [where same = same] and triples = follows_triple [where same = same]
  and lets = follows_let [where same = same]

lemma io_point:
  assumes "0 \<notin> set (bytes_of what)" and "same w v"
  shows "\<exists>v'. WS_TRACE_IO K J what d (-1) v = Some v' \<and> same w v'"
proof -
  have "- (2 ^ 63) < long_to_int d" "long_to_int d < 2 ^ 63"
    using sint_ge [of "word_of_int d :: 32 word"] sint_lt [of "word_of_int d :: 32 word"]
    by (simp_all add: long_to_int_def)
  then show ?thesis
    using io_runs [OF assms(1), of "long_to_int d" "-1" K J v] quiet [OF assms(2)]
    by (auto simp: WS_TRACE_IO_def returns_def cstr_def)
qed

lemma follows_io:
  assumes "same w v" and "0 \<notin> set (bytes_of what)" and "\<And>v'. same w v' \<Longrightarrow> follows R m (g v')"
  shows "follows R m (Option.bind (WS_TRACE_IO K J what d (-1) v) g)"
  using io_point [OF assms(2,1), of J d] assms(3) by auto

lemma note_state_same: "same w v \<Longrightarrow> same w (note_state K a why b v)"
  by (simp add: note_state_def quiet)

lemma note_poll_same: "same w v \<Longrightarrow> same w (note_poll K a r v)"
  by (cases r) (simp add: note_poll_def note_event_def note_state_same quiet)

text \<open>Functions without trace points, run in the two worlds.\<close>

lemma sys_read_agree: "same w v \<Longrightarrow> agree2 (sys_read K d buf off n w) (sys_read K d buf off n v)"
  using read_same [of w v d n] by (auto simp: sys_read_def follows_def split: prod.splits)

lemma sys_write_agree: "same w v \<Longrightarrow> agree1 (sys_write K d buf off n w) (sys_write K d buf off n v)"
  using write_same by (simp add: sys_write_def)

lemma write_loop_agree: "same w v \<Longrightarrow> agree1 (write_loop K d buf n off w) (write_loop K d buf n off v)"
proof (induction "n - off" arbitrary: off w v rule: less_induct)
  case less
  show ?case
  proof (cases "off < n")
    case True
    have "agree1 (if r \<le> 0 then Some (-1, w') else write_loop K d buf n (off + nat r) w')
        (if r \<le> 0 then Some (-1, v') else write_loop K d buf n (off + nat r) v')" if "same w' v'" for r w' v'
      using that less(1) True by (intro follows_if) auto
    with True show ?thesis
      by (subst (1 2) write_loop.simps) (auto intro!: follows_pair [OF sys_write_agree [OF less(2)]])
  next
    case False
    then show ?thesis using less(2) by (subst (1 2) write_loop.simps) simp
  qed
qed

lemma write_all_agree: "same w v \<Longrightarrow> agree1 (write_all K d buf n w) (write_all K d buf n v)"
  by (simp add: write_all_def write_loop_agree)

lemma send_accept_agree: "same w v \<Longrightarrow> agree1 (send_accept K d accept w) (send_accept K d accept v)"
  unfolding send_accept_def
  by (intro follows_pure pairs follows_if write_all_agree) simp_all

lemma send_built_agree: "same w v \<Longrightarrow> agree1 (send_built K io c n out w) (send_built K io c n out v)"
  unfolding send_built_def
  by (rule follows_pure) (auto split: option.splits intro!: follows_pure write_all_agree)

lemma send_message_agree:
  "same w v \<Longrightarrow> agree1 (ws_io_send_message K key io c op p n w) (ws_io_send_message K key io c op p n v)"
  unfolding ws_io_send_message_def
  by (intro follows_pure) (auto intro!: send_built_agree)

lemma send_pong_agree:
  "same w v \<Longrightarrow> agree1 (ws_io_send_pong K key io c p n w) (ws_io_send_pong K key io c p n v)"
  unfolding ws_io_send_pong_def
  by (intro follows_pure) (auto intro!: send_built_agree)

lemma epoll_add_same: "same w v \<Longrightarrow> rel_prod (=) same (epoll_add K e d w) (epoll_add K e d v)"
  by (simp add: epoll_add_def ctl_same)

text \<open>The functions with trace points.\<close>

lemma literals: "0 \<notin> set (bytes_of ''close'')" "0 \<notin> set (bytes_of ''reject'')" "0 \<notin> set (bytes_of ''accept'')"
  "0 \<notin> set (bytes_of ''handshake'')"
  by (simp_all add: bytes_of_def)

lemma slot_close_agree: "same w v \<Longrightarrow> agree1 (slot_close K io i w) (slot_close_dbg K J io i v)"
  unfolding slot_close_def slot_close_dbg_def Let_def sys_close_def
  by (intro follows_pure follows_io [OF _ literals(1)] lets ctl_same) (simp_all add: close_same)

lemma io_send_close_agree:
  assumes "same w v"
  shows "agree2 (ws_io_send_close K key io c code w) (ws_io_send_close_dbg K J key io c code v)"
proof -
  have p: "follows (\<lambda>x y. x = fst y \<and> same w (snd y)) (ws_send_close key cc code out cap) (ws_send_close_dbg K J key cc code out cap v)"
    for cc out cap
    using note_state_same [OF assms] by (auto simp: send_close_dbg_eq follows_def)
  show ?thesis
    unfolding ws_io_send_close_def ws_io_send_close_dbg_def Let_def
    by (intro follows_pure follows_bind [OF p]) (auto intro!: pairs [OF send_built_agree])
qed

lemma on_accept_agree: "same w v \<Longrightarrow> agree1 (on_accept K io w) (on_accept_dbg K J io v)"
  unfolding on_accept_def on_accept_dbg_def Let_def sys_close_def
  by (intro lets accept_same follows_if follows_pure)
    (auto split: option.splits intro!: follows_io literals lets epoll_add_same close_same)

definition same_handler :: "'w handler \<Rightarrow> 'w handler \<Rightarrow> bool" where
  "same_handler H H' \<longleftrightarrow> (\<forall>io i ev w v. same w v \<longrightarrow> agree1 (H io i ev w) (H' io i ev v))"

lemma poll_agree:
  "same w v \<Longrightarrow> follows (\<lambda>x y. x = fst y \<and> same w (snd y)) (ws_conn_poll c ev) (ws_conn_poll_dbg K J c ev v)"
  by (auto simp: poll_dbg_eq follows_def note_poll_same)

text \<open>One turn of the pump, for any two functions in place of its recursive calls.\<close>

lemma drain_step:
  assumes "same_handler H H'" and "same w v"
    and rec: "\<And>io ev w v. same w v \<Longrightarrow> agree2 (f io ev w) (drain_events_dbg K J H' io i ev v)"
  shows "agree2 (do {
     s \<leftarrow> load (conns io) i;
     (t, c', ev') \<leftarrow> ws_conn_poll (conn s) ev;
     let io1 = set_slot io i (s\<lparr>conn := c'\<rparr>);
     if t = WS_EV_NONE then Some (0, io1, w)
     else do {
       (io2, w2) \<leftarrow> H io1 i ev' w;
       if is_terminal (ev_type ev') then Some (1, io2, w2) else f io2 ev' w2
     }
   }) (drain_events_dbg K J H' io i ev v)"
proof -
  have h: "agree1 (H io1 i ev' w) (H' io1 i ev' v1)" if "same w v1" for io1 ev' v1
    using assms(1) that by (simp add: same_handler_def)
  show ?thesis
    unfolding Let_def drain_events_dbg.simps [of K J H' io i ev v]
    by (intro follows_pure follows_bind [OF poll_agree [OF assms(2)]])
      (auto intro!: pairs [OF h] rec)
qed

lemma drain_agree:
  assumes "same_handler H H'" and "same w v"
  shows "agree2 (drain_events H io i ev w) (drain_events_dbg K J H' io i ev v)"
  unfolding follows_def
proof (intro allI impI)
  fix x
  assume ret: "drain_events H io i ev w = Some x"
  let ?P = "\<lambda>H io i ev w x. \<forall>v. same_handler H H' \<longrightarrow> same w v \<longrightarrow>
    (\<exists>y. drain_events_dbg K J H' io i ev v = Some y \<and> rel_prod (=) (rel_prod (=) same) x y)"
  have "?P H io i ev w x"
  proof (rule drain_events.raw_induct [of ?P, OF _ ret])
    fix f H io i ev w x
    assume IH: "\<And>H io i ev w x. f H io i ev w = Some x \<Longrightarrow> ?P H io i ev w x"
      and eq: "do {
         s \<leftarrow> load (conns io) i;
         (t, c', ev') \<leftarrow> ws_conn_poll (conn s) ev;
         let io1 = set_slot io i (s\<lparr>conn := c'\<rparr>);
         if t = WS_EV_NONE then Some (0, io1, w)
         else do {
           (io2, w2) \<leftarrow> H io1 i ev' w;
           if is_terminal (ev_type ev') then Some (1, io2, w2) else f H io2 i ev' w2
         }
       } = Some x"
    show "?P H io i ev w x"
    proof (intro allI impI)
      fix v
      assume a: "same_handler H H'" "same w v"
      have "agree2 (f H io' i ev' w') (drain_events_dbg K J H' io' i ev' v')" if "same w' v'" for io' ev' w' v'
        using IH that a(1) unfolding follows_def by blast
      with drain_step [where f = "\<lambda>io'. f H io' i" and J = J and io = io and i = i and ev = ev, OF a] show "\<exists>y. drain_events_dbg K J H' io i ev v = Some y \<and>
          rel_prod (=) (rel_prod (=) same) x y"
        unfolding follows_def eq by blast
    qed
  qed
  with assms show "\<exists>y. drain_events_dbg K J H' io i ev v = Some y \<and> rel_prod (=) (rel_prod (=) same) x y" by blast
qed

lemma feed_agree:
  assumes "same_handler H H'" and "same w v"
  shows "agree2 (feed H io i bytes len ev w) (feed_dbg K J H' io i bytes len ev v)"
  unfolding feed_def feed_dbg_def Let_def
  by (intro follows_pure) (auto intro!: drain_agree assms split: prod.splits simp: assms)

lemma finish_handshake_agree:
  assumes "same_handler H H'" and "same w v"
  shows "agree2 (finish_handshake K H S io i b w) (finish_handshake_dbg K J H' S io i b v)"
  unfolding finish_handshake_def finish_handshake_dbg_def Let_def open_dbg_eq bind.bind_lunit prod.case
  by (intro follows_pure)
    (auto split: prod.splits intro!: pairs [OF send_accept_agree [OF assms(2)]]
      follows_io [OF _ literals(4)] feed_agree assms(1) note_state_same simp: assms(2))

lemma handshake_step_agree:
  assumes "same_handler H H'" and "same w v"
  shows "agree2 (handshake_step K H S io i w) (handshake_step_dbg K J H' S io i v)"
  unfolding handshake_step_def handshake_step_dbg_def
  by (intro follows_pure follows_if finish_handshake_agree assms) (simp add: assms(2))

lemma on_handshake_data_agree:
  assumes "same_handler H H'" and "same w v"
  shows "agree2 (on_handshake_data K H S io i w) (on_handshake_data_dbg K J H' S io i v)"
  unfolding on_handshake_data_def on_handshake_data_dbg_def Let_def
  by (intro follows_pure triples [OF sys_read_agree [OF assms(2)]] follows_if handshake_step_agree assms(1)) simp_all

lemma on_client_data_agree:
  assumes "same_handler H H'" and "same w v"
  shows "agree2 (on_client_data K H S io i w) (on_client_data_dbg K J H' S io i v)"
  unfolding on_client_data_def on_client_data_dbg_def Let_def
  by (intro follows_pure follows_if on_handshake_data_agree triples [OF sys_read_agree [OF assms(2)]] feed_agree assms)
    simp_all

lemma service_client_agree:
  assumes "same_handler H H'" and "same w v"
  shows "agree1 (service_client K H S io i w) (service_client_dbg K J H' S io i v)"
  unfolding service_client_def service_client_dbg_def
  by (intro triples [OF on_client_data_agree [OF assms]] follows_if slot_close_agree) simp_all

lemma on_readable_agree:
  assumes "same_handler H H'" and "same w v"
  shows "agree1 (on_readable K H S io d w) (on_readable_dbg K J H' S io d v)"
  unfolding on_readable_def on_readable_dbg_def
  by (intro follows_if on_accept_agree assms follows_pure)
    (auto split: option.splits intro!: service_client_agree assms simp: assms(2))

lemma serve_events_agree:
  assumes "same_handler H H'" and "same w v"
  shows "agree1 (serve_events K H S es io w) (serve_events_dbg K J H' S es io v)"
  using assms(2)
proof (induction es arbitrary: io w v)
  case (Cons e es)
  then show ?case by (auto intro!: pairs [OF on_readable_agree [OF assms(1) Cons(2)]] Cons(1))
qed simp

lemma loop_round_agree:
  assumes "same_handler H H'" and "same w v"
  shows "agree1 (loop_round K H S io w) (loop_round_dbg K J H' S io v)"
  using wait_same [OF assms(2), of "epoll_fd io" "WS_IO_MAX_CONNS + 1"]
  by (auto simp: loop_round_def loop_round_dbg_def split: prod.splits intro: serve_events_agree [OF assms(1)])

lemma run_rounds_agree:
  assumes "same_handler H H'" and "same w v"
  shows "agree1 (run_rounds n K H S io w) (run_rounds_dbg n K J H' S io v)"
  using assms(2)
proof (induction n arbitrary: io w v)
  case (Suc n)
  then show ?case by (auto intro!: pairs [OF loop_round_agree [OF assms(1) Suc(2)]] Suc(1))
qed simp

lemma on_event_same: "same_handler (on_event K key) (on_event_dbg K J key)"
  unfolding same_handler_def on_event_def on_event_dbg_def echo_reply_def
  by (intro allI impI follows_if follows_pure triples [OF io_send_close_agree] pairs [OF send_message_agree]
      pairs [OF send_pong_agree]) simp_all

lemma ws_serve_agree:
  assumes "same_handler H H'"
  shows "follows (rel_sum (=) (rel_prod (=) same)) (ws_serve K H S n port r w) (ws_serve_dbg K J H' S n port r w)"
proof -
  obtain rc io w1 where s: "io_setup K (zero_io r) port w = (rc, io, w1)" by (metis prod_cases3)
  show ?thesis
    unfolding ws_serve_def ws_serve_dbg_def s Let_def prod.case
    by (intro follows_if follows_bind [OF run_rounds_agree [OF assms same_refl]]) simp_all
qed

lemma ws_main_agree:
  "follows (rel_sum (=) (rel_prod (=) same)) (ws_main K key S n argc argv w) (ws_main_dbg K J key S n argc argv w)"
  unfolding ws_main_def ws_main_dbg_def
  by (intro follows_pure follows_bind [OF ws_serve_agree [OF on_event_same]])
    (auto elim!: rel_sum.cases split: prod.splits intro!: follows_pure)

end

text \<open>The loopback kernel keeps stderr apart.\<close>

definition same_but_stderr :: "world \<Rightarrow> world \<Rightarrow> bool" where
  "same_but_stderr w v \<longleftrightarrow> w_in w = w_in v \<and> w_fds w = w_fds v \<and> w_next w = w_next v \<and>
     (\<forall>d. d \<noteq> 2 \<longrightarrow> w_out w d = w_out v d)"

interpretation quiet_loop: quiet_kernel loopback same_but_stderr
  by unfold_locales (auto simp: loopback_def same_but_stderr_def Let_def)

end
