(* ===== verification/Bench.thy ===== *)
theory Bench
  imports Kernel Decimal Frame
begin

text \<open>
  The micro-benchmark \<^verbatim>\<open>bench/bench.c\<close>: the timed loops over the mask and the header parser, and
  the report. The cycle counter is the parameter \<open>rdtsc\<close> on the state of the world; \<open>junk\<close> is
  uninitialised stack.
\<close>

section \<open>Reporting (bench.c)\<close>

definition put_err :: "'w kernel \<Rightarrow> byte list \<Rightarrow> 'w \<Rightarrow> 'w" where
  "put_err K bs w = snd (k_write K 2 bs w)"

definition put :: "'w kernel \<Rightarrow> byte list \<Rightarrow> 'w \<Rightarrow> 'w option" where
  "put K s w = do { n \<leftarrow> str_len s; Some (put_err K (take n s) w) }"

function u64_loop :: "byte list \<Rightarrow> size_t \<Rightarrow> size_t \<Rightarrow> (byte list \<times> size_t) option" where
  "u64_loop buf i v = do {
     buf' \<leftarrow> store buf (size_sub i 1) (word_of_nat (48 + v mod 10));
     (let v' = v div 10 in if v' > 0 then u64_loop buf' (size_sub i 1) v' else Some (buf', size_sub i 1))
   }"
  by pat_completeness auto
termination
  by (relation "measure (\<lambda>(buf, i, v). v)") auto

declare u64_loop.simps [simp del]

definition put_u64 :: "'w kernel \<Rightarrow> byte list \<Rightarrow> uint64 \<Rightarrow> 'w \<Rightarrow> 'w option" where
  "put_u64 K junk v w = do {
     (buf, i) \<leftarrow> u64_loop (take 20 (junk @ replicate 20 0)) 20 (unat v);
     Some (put_err K (take (20 - i) (drop i buf)) w)
   }"

definition report ::
    "'w kernel \<Rightarrow> byte list \<Rightarrow> byte list \<Rightarrow> uint64 \<Rightarrow> uint64 \<Rightarrow> byte list \<Rightarrow> 'w \<Rightarrow> 'w option" where
  "report K junk label cycles count unit w = (
     if count = 0 then None
     else do {
       let centi = cycles * 100 div count;
       w \<leftarrow> put K label w;
       w \<leftarrow> put_u64 K junk (centi div 100) w;
       w \<leftarrow> put K (cstr ''.'') w;
       w \<leftarrow> put_u64 K junk (centi mod 100 div 10) w;
       w \<leftarrow> put_u64 K junk (centi mod 10) w;
       w \<leftarrow> put K (cstr '' cycles/'') w;
       w \<leftarrow> put K unit w;
       put K [0x0A, 0] w
     })"

section \<open>The loops (bench.c)\<close>

definition BENCH_BUF :: size_t where "BENCH_BUF = 64 * 1024"

definition ITERS :: nat where "ITERS = 4096"

definition bench_mask :: "('w \<Rightarrow> uint64 \<times> 'w) \<Rightarrow> byte list \<Rightarrow> 'w \<Rightarrow> (uint64 \<times> byte list \<times> 'w) option" where
  "bench_mask rdtsc g_buf w = do {
     let (t0, w1) = rdtsc w;
     g_buf' \<leftarrow> for_loop 0 ITERS (\<lambda>_ b. ws_mask b 0 BENCH_BUF [0x37, 0xfa, 0x21, 0x3d]) g_buf;
     let (t1, w2) = rdtsc w1;
     Some (t1 - t0, g_buf', w2)
   }"

definition bench_parse ::
    "('w \<Rightarrow> uint64 \<times> 'w) \<Rightarrow> ws_frame_header \<Rightarrow> 'w \<Rightarrow> (uint64 \<times> uint64 \<times> 'w) option" where
  "bench_parse rdtsc h w = do {
     let (t0, w1) = rdtsc w;
     (_, acc) \<leftarrow> for_loop 0 ITERS (\<lambda>_ (h, acc). do {
        (r, h') \<leftarrow> ws_parse_header [0x82, 0x83, 0x01, 0x02, 0x03, 0x04] 6 h;
        Some (h', acc + (word_of_int r + payload_len h'))
      }) (h, 0);
     let (t1, w2) = rdtsc w1;
     Some (t1 - t0, acc, w2)
   }"

text \<open>The result is the exit status.\<close>

definition bench_start ::
    "'w kernel \<Rightarrow> ('w \<Rightarrow> uint64 \<times> 'w) \<Rightarrow> byte list \<Rightarrow> ws_frame_header \<Rightarrow> 'w \<Rightarrow> (int \<times> 'w) option" where
  "bench_start K rdtsc junk h w = do {
     (mask_cycles, g_buf, w) \<leftarrow> bench_mask rdtsc (replicate BENCH_BUF 0) w;
     (parse_cycles, sink, w) \<leftarrow> bench_parse rdtsc h w;
     w \<leftarrow> report K junk (cstr ''mask:  '') mask_cycles (word_of_nat BENCH_BUF * word_of_nat ITERS) (cstr ''byte'') w;
     w \<leftarrow> report K junk (cstr ''parse: '') parse_cycles (word_of_nat ITERS) (cstr ''frame'') w;
     Some (if sink = 0 then 1 else 0, w)
   }"

section \<open>Printing\<close>

lemma put_text: "0 \<notin> set (bytes_of s) \<Longrightarrow> put K (cstr s) w = Some (put_err K (bytes_of s) w)"
  by (simp add: put_def cstr_def str_len_eq)

lemma put_newline_eq: "put K [0x0A, 0] w = Some (put_err K [0x0A] w)"
  using str_len_eq [of "[0x0A]"] by (simp add: put_def)

text \<open>The digits are stored from the end of the buffer; twenty bytes hold every 64-bit number.\<close>

lemma u64_loop_eq:
  assumes "length (decimal v) \<le> i" and "i \<le> length buf" and "length buf < OBJ_MAX"
  shows "returns (u64_loop buf i v) (\<lambda>(buf', j). j = i - length (decimal v) \<and> length buf' = length buf \<and>
    drop j buf' = decimal v @ drop i buf)"
  using assms
proof (induction buf i v rule: u64_loop.induct)
  case (1 buf i v)
  let ?c = "word_of_nat (48 + v mod 10) :: byte"
  obtain k where i: "i = Suc k" using 1(2) decimal_nonempty [of v] by (cases i) auto
  have sb: "size_sub i 1 = k" using i 1(3,4) by (simp add: size_sub_obj)
  have st: "store buf (size_sub i 1) ?c = Some (buf[k := ?c])" using sb i 1(3) by simp
  have d: "drop k (buf[k := ?c]) = ?c # drop i buf" using i 1(3) by (simp add: Cons_nth_drop_Suc [symmetric])
  show ?case
  proof (cases "v div 10 > 0")
    case False
    then have "decimal v = [?c]" by (subst decimal.simps) (auto simp: div_eq_0_iff)
    then show ?thesis using False st sb d i by (subst u64_loop.simps) simp
  next
    case True
    then have dv: "decimal v = decimal (v div 10) @ [?c]" by (subst decimal.simps) (auto simp: div_eq_0_iff)
    have "returns (u64_loop (buf[k := ?c]) k (v div 10)) (\<lambda>(buf', j). j = k - length (decimal (v div 10)) \<and>
        length buf' = length (buf[k := ?c]) \<and> drop j buf' = decimal (v div 10) @ drop k (buf[k := ?c]))"
      using 1(1) [OF st refl True] 1(2-4) dv i unfolding sb by simp
    then show ?thesis
      using True st sb i unfolding d dv by (subst u64_loop.simps) (simp add: Let_def)
  qed
qed

lemma put_u64_eq: "put_u64 K junk v w = Some (put_err K (decimal (unat v)) w)"
proof -
  let ?b = "take 20 (junk @ replicate 20 0)"
  have v: "unat v < 2 ^ 64" using unsigned_less [of v, where ?'a = nat] by simp
  have l: "length (decimal (unat v)) \<le> 20" using v by (intro decimal_length) simp_all
  have b: "length ?b = 20" by simp
  obtain buf j where u: "u64_loop ?b 20 (unat v) = Some (buf, j)" "j = 20 - length (decimal (unat v))"
      "length buf = 20" "drop j buf = decimal (unat v)"
    using u64_loop_eq [of "unat v" 20 ?b] l b unfolding returns_def by (auto simp: OBJ_MAX_def)
  then show ?thesis using l by (simp add: put_u64_def del: take_append)
qed

text \<open>The pieces of a report: the average in hundredths, as a decimal fraction.\<close>

definition report_text :: "string \<Rightarrow> nat \<Rightarrow> nat \<Rightarrow> string \<Rightarrow> byte list list" where
  "report_text label cycles count unit = (let centi = cycles * 100 div count in
     [bytes_of label, decimal (centi div 100), bytes_of ''.'', decimal (centi mod 100 div 10), decimal (centi mod 10),
      bytes_of '' cycles/'', bytes_of unit, [0x0A]])"

lemma report_eq:
  assumes "0 \<notin> set (bytes_of label)" and "0 \<notin> set (bytes_of unit)" and "unat cycles * 100 < 2 ^ 64" and "count \<noteq> 0"
  shows "report K junk (cstr label) cycles count (cstr unit) w =
    Some (fold (put_err K) (report_text label (unat cycles) (unat count) unit) w)"
proof -
  have "unat (cycles * 100) = unat cycles * 100"
    using assms(3) by (simp add: unat_word_ariths)
  then have "unat (cycles * 100 div count) = unat cycles * 100 div unat count" by (simp add: unat_div)
  moreover have "0 \<notin> set (bytes_of ''.'')" "0 \<notin> set (bytes_of '' cycles/'')" by (simp_all add: bytes_of_def)
  ultimately show ?thesis
    using assms(1,2,4)
    by (simp add: report_def put_text put_u64_eq put_newline_eq report_text_def Let_def unat_div unat_mod)
qed

lemma bench_mask_eq:
  assumes "rdtsc w = (t0, w1)" and "rdtsc w1 = (t1, w2)" and "length buf = BENCH_BUF"
  shows "\<exists>buf'. bench_mask rdtsc buf w = Some (t1 - t0, buf', w2) \<and> length buf' = BENCH_BUF"
proof -
  have "\<exists>t. for_loop 0 ITERS (\<lambda>_ b. ws_mask b 0 BENCH_BUF [0x37, 0xfa, 0x21, 0x3d]) buf = Some t \<and> length t = BENCH_BUF"
    by (rule for_loop_rule [where P = "\<lambda>_ b. length b = BENCH_BUF"]) (auto simp: assms(3) ws_mask_eq)
  then show ?thesis using assms(1,2) by (auto simp: bench_mask_def)
qed

text \<open>The frame of the benchmark is parsed the same way whatever the output held.\<close>

lemma bench_frame:
  assumes "length (mask_key h) = 4"
  shows "\<exists>h'. ws_parse_header [0x82, 0x83, 0x01, 0x02, 0x03, 0x04] 6 h = Some (6, h') \<and> payload_len h' = 3 \<and>
    length (mask_key h') = 4"
  using assms
  by (simp add: ws_parse_header_def decode_len_def finish_parse_def fill_fields_def ext_bytes_def raw_len_def len_ok_def
      header_well_formed_def parse_mask_def control_too_big_def control_fragmented_def classify_cases op_defs ws_memcpy_eq)

lemma bench_parse_eq:
  assumes "rdtsc w = (t0, w1)" and "rdtsc w1 = (t1, w2)" and "length (mask_key h) = 4"
  shows "bench_parse rdtsc h w = Some (t1 - t0, word_of_nat (9 * ITERS), w2)"
proof -
  let ?f = "\<lambda>_ (h, acc). do {
        (r, h') \<leftarrow> ws_parse_header [0x82, 0x83, 0x01, 0x02, 0x03, 0x04] 6 h;
        Some (h', acc + (word_of_int r + payload_len h'))
      }"
  let ?P = "\<lambda>j (h, acc). length (mask_key h) = 4 \<and> acc = word_of_nat (9 * j)"
  have "\<exists>t. for_loop 0 ITERS ?f (h, 0) = Some t \<and> ?P ITERS t"
  proof (rule for_loop_rule)
    fix j and t :: "ws_frame_header \<times> uint64"
    assume "?P j t"
    then obtain g where t: "t = (g, word_of_nat (9 * j))" "length (mask_key g) = 4" by (cases t) auto
    show "\<exists>t'. ?f j t = Some t' \<and> ?P (Suc j) t'"
      using bench_frame [OF t(2)] by (auto simp: t(1) algebra_simps)
  qed (use assms(3) in auto)
  then show ?thesis using assms(1,2) by (auto simp: bench_parse_def)
qed

section \<open>Properties\<close>

text \<open>C40. The benchmark runs to its end for every clock: both loops stay inside their buffers, the
  parser's checksum is not zero, so the exit status is 0, and the two lines printed give the
  average cycles per byte and per frame with two decimals, as long as a hundred times the measured
  cycles fit in 64 bits.\<close>

theorem bench_run:
  assumes "rdtsc w = (t0, w1)" and "rdtsc w1 = (t1, w2)" and "rdtsc w2 = (t2, w3)" and "rdtsc w3 = (t3, w4)"
    and "length (mask_key h) = 4" and "unat (t1 - t0) * 100 < 2 ^ 64" and "unat (t3 - t2) * 100 < 2 ^ 64"
  shows "bench_start K rdtsc junk h w = Some (0, fold (put_err K)
    (report_text ''mask:  '' (unat (t1 - t0)) 268435456 ''byte'' @
     report_text ''parse: '' (unat (t3 - t2)) 4096 ''frame'') w4)"
proof -
  have s: "0 \<notin> set (bytes_of ''mask:  '')" "0 \<notin> set (bytes_of ''byte'')" "0 \<notin> set (bytes_of ''parse: '')"
      "0 \<notin> set (bytes_of ''frame'')"
    by (simp_all add: bytes_of_def)
  have n: "(268435456 :: uint64) \<noteq> 0" "(4096 :: uint64) \<noteq> 0" "(36864 :: uint64) \<noteq> 0" by simp_all
  obtain b where m: "bench_mask rdtsc (replicate BENCH_BUF 0) w = Some (t1 - t0, b, w2)"
    using bench_mask_eq [OF assms(1,2), of "replicate BENCH_BUF 0"] by auto
  show ?thesis
    using m bench_parse_eq [OF assms(3,4,5)] n
      report_eq [OF s(1,2) assms(6) n(1), of K junk] report_eq [OF s(3,4) assms(7) n(2), of K junk]
    by (simp add: bench_start_def BENCH_BUF_def ITERS_def)
qed

theorem bench_run_witness:
  "bench_start loopback (\<lambda>w. (0, w)) [] zero_header world0 = Some (0, fold (put_err loopback)
    (report_text ''mask:  '' (unat (0 - 0 :: uint64)) 268435456 ''byte'' @
     report_text ''parse: '' (unat (0 - 0 :: uint64)) 4096 ''frame'') world0)"
  by (rule bench_run) (simp_all add: zero_header_def)

end
