(* ===== verification/Spec2Isabelle.thy ===== *)
theory Spec2Isabelle
  imports Dialogue DebugServer Bench
begin

text \<open>
  A verification library for libws, a freestanding C implementation of the WebSocket protocol
  (RFC 6455): a sans-I/O protocol core, an epoll server on raw Linux system calls, an echo server,
  a debug trace and a benchmark.

  \<^bold>\<open>How the program is put together.\<close> A caller gives received bytes to a connection
  (\<^verbatim>\<open>ws_conn_recv\<close>) and takes events out of it (\<^verbatim>\<open>ws_conn_poll\<close>). The driver in
  \<^verbatim>\<open>src/session/stream.c\<close> keeps one flat buffer that holds the message being assembled followed by
  the bytes not yet consumed; per frame it calls the header parser (\<^verbatim>\<open>src/framing/frame.c\<close>), unmasks
  the payload (\<^verbatim>\<open>src/util/mask.c\<close>), validates text and close reasons (\<^verbatim>\<open>src/framing/utf8.c\<close>), and
  moves the lifecycle (\<^verbatim>\<open>src/session/lifecycle.c\<close>). The server in \<^verbatim>\<open>src/io/io_posix.c\<close> owns a pool of
  64 such connections; it answers the HTTP upgrade (\<^verbatim>\<open>src/framing/handshake.c\<close>, on SHA-1 and base64
  from \<^verbatim>\<open>src/crypto\<close>), pumps frames, and calls the user's event handler, of which
  \<^verbatim>\<open>example/echo_server.c\<close> is the one in the repository.

  \<^bold>\<open>Conventions.\<close> A C object is a list of bytes; an access outside it, and other undefined
  behaviour the code could run into, is the value \<open>None\<close>, so a theorem that a function returns
  \<open>Some\<close> is a memory-safety statement. \<open>size_t\<close> is \<open>nat\<close> with the wrap-around of its operators
  written out (\<open>size_add\<close>, \<open>size_sub\<close>); objects are shorter than \<open>OBJ_MAX\<close>, half the address space.
  Bytes, header fields and SHA-1 words are machine words. Counted loops are \<open>for_loop\<close>; others are
  functions with termination proofs. Only the event pump may depend on foreign code to end:
  \<open>drain_events\<close> is a \<open>partial_function\<close>, and \<open>drain_terminates\<close> proves that it returns. The server's
  endless loop is \<open>run_rounds n\<close> for every \<open>n\<close>, so no fuel bound limits a statement. Uninitialised
  stack arrays are arguments with arbitrary contents.

  \<^bold>\<open>Theories, in the order of the code.\<close>
  \<^item> \<open>Prelude\<close>: checked memory, counted loops with their rule, size arithmetic, byte lemmas, and
    \<open>returns\<close>, the total-correctness judgement the server proofs are written in.
  \<^item> \<open>Util\<close> (\<^verbatim>\<open>util/mem.c\<close>, \<^verbatim>\<open>util/mask.c\<close>), \<open>Api\<close> (\<^verbatim>\<open>include/ws/ws.h\<close>), \<open>Bytes\<close> and \<open>Codec\<close>: reference
    definitions and the interface locales of the byte codecs.
  \<^item> \<open>Frame\<close> (\<^verbatim>\<open>framing/frame.c\<close>): the header codec against a canonical encoding; round trip, canonical
    acceptance, incremental parsing, opcode classes, close codes.
  \<^item> \<open>Utf8\<close> (\<^verbatim>\<open>framing/utf8.c\<close>): the validator accepts exactly concatenated encodings of scalar values.
  \<^item> \<open>Sha1\<close>, \<open>Base64\<close>, \<open>Handshake\<close> (\<^verbatim>\<open>crypto/sha1.c\<close>, \<^verbatim>\<open>crypto/base64.c\<close>, \<^verbatim>\<open>framing/handshake.c\<close>): equality
    with the published definitions.
  \<^item> \<open>Machine\<close>: locales of transition systems (invariants, monotone quantities, simulation).
    \<open>Lifecycle\<close> (\<^verbatim>\<open>session/lifecycle.c\<close>): the handlers are the actions of \<^verbatim>\<open>spec/WsLifecycle.tla\<close>.
  \<^item> \<open>Stream\<close> (\<^verbatim>\<open>session/stream.c\<close>): every function of the driver. \<open>Driver\<close>: the abstract protocol
    \<open>deliver\<close>, one step per frame, and the refinement of a poll to it. \<open>Session\<close>: the public calls as
    a step relation, the invariant \<open>conn_wf\<close>, delivery of whole sessions, fragments, sending.
  \<^item> \<open>Http\<close>, \<open>Kernel\<close>, \<open>Server\<close> (\<^verbatim>\<open>io/io_posix.c\<close>, \<^verbatim>\<open>include/ws/io.h\<close>): the upgrade request, the system-call
    boundary, the pool, the event loop and the set-up. \<open>Pump\<close>: the contract \<open>event_handler\<close> of the
    user's handler as a locale, the pool invariant \<open>pool_wf\<close>, ownership of descriptors, termination.
  \<^item> \<open>Decimal\<close>, \<open>Echo\<close> (\<^verbatim>\<open>example/echo_server.c\<close>): the handler, which interprets \<open>event_handler\<close>, and
    the command line. \<open>Serving\<close>: the upgrade, the echo and the answer to a Ping, end to end.
    \<open>Dialogue\<close>: a message that arrives in pieces, over the event loop; the end of a connection, the way
    of a message to the server and back, and the events a handler can see.
  \<^item> \<open>Trace\<close> (\<^verbatim>\<open>src/trace.c\<close>): the sinks of the debug build. \<open>Debug\<close> and \<open>DebugServer\<close>: the functions of
    the core, of the server and of the example with their trace points (\<^verbatim>\<open>include/ws/trace.h\<close>), named
    with the suffix \<open>_dbg\<close>; what a poll prints, and that the debug build otherwise does what the release
    build does, on every kernel that meets the locale \<open>quiet_kernel\<close>. \<open>Bench\<close> (\<^verbatim>\<open>bench/bench.c\<close>).
  \<^item> This theory: the statements about the whole server.

  \<^bold>\<open>What is relied on.\<close> The operating system is a parameter, the record \<open>'w kernel\<close> of functions on an
  unknown world. \<open>kernel_ok\<close> states \<^verbatim>\<open>read(2)\<close>, \<^verbatim>\<open>write(2)\<close> and \<^verbatim>\<open>epoll_wait(2)\<close> (a read stores what it
  returns, within the buffer; a write appends a prefix; a wait reports what it returns, within the
  array), \<open>kernel_fds\<close> which calls open and close descriptors (with no law for closing one that is not
  open), \<open>writable\<close> that writes make progress, and \<open>quiet_kernel\<close>, for the debug build, that what was written
  to stderr influences no later call; the \<open>loopback\<close> kernel meets all four. \<open>lone_client\<close>, for the
  statement that a message is eventually echoed, describes one peer whose bytes arrive as a stream, in
  reads of any size, while nobody else has input; the \<open>trickle\<close> kernel meets it. The mask key, the random bytes the caller supplies, and the cycle counter
  are parameters too.

  \<^bold>\<open>Not modelled.\<close> The inline assembly of the system calls, of \<^verbatim>\<open>_start\<close> and of \<^verbatim>\<open>rdtscp\<close> (replaced by
  the kernel and clock parameters, and by the entry functions they call); other architectures,
  which the preprocessor rejects or stubs; the tests, the TLA+ and Lean sources (used as
  specifications, not as code) and the build files. Every function of the C sources that is left
  has its definition here.
\<close>

section \<open>Properties of the whole server\<close>

text \<open>A server on the loopback kernel: one upgraded connection on descriptor 5, one on descriptor 6
  that is about to be upgraded.\<close>

definition demo_slot :: ws_slot where
  "demo_slot = (fresh_slot 5)\<lparr>opened := True,
     conn := ws_conn_open (ws_conn_init WS_ROLE_SERVER (replicate WS_MAX_MESSAGE 0) WS_MAX_MESSAGE)\<rparr>"

definition demo_io :: ws_io where
  "demo_io = set_slot (set_slot ((zero_io WS_ROLE_SERVER)\<lparr>listen_fd := 3, epoll_fd := 4\<rparr>) 0 demo_slot) 1 (fresh_slot 6)"

definition demo_upgrade :: "byte list" where
  "demo_upgrade = demo_request @ crlf @ crlf"

definition demo_world :: world where
  "demo_world = world0\<lparr>w_in := (\<lambda>d. if d = 5 then wire demo_header [0x48, 0x69] else if d = 6 then demo_upgrade else []),
     w_fds := {0, 1, 2, 3, 4, 5, 6}, w_next := 7\<rparr>"

definition demo_stack :: stack where
  "demo_stack = \<lparr>st_key = [], st_cat = [], st_accept = [], st_chunk = [], st_event = demo_event\<rparr>"

lemma loopback_fds: "kernel_fds loopback w_fds"
  unfolding kernel_fds_def loopback_def by (simp add: Let_def)

lemma demo_slot_wf: "slot_wf demo_slot"
  using opened_conn_wf [of "replicate WS_MAX_MESSAGE 0" WS_ROLE_SERVER]
  by (simp add: demo_slot_def slot_wf_def fresh_slot_def)

lemma demo_io_slots: "conns demo_io ! 0 = demo_slot" "conns demo_io ! 1 = fresh_slot 6"
  "length (conns demo_io) = WS_IO_MAX_CONNS" "listen_fd demo_io = 3" "io_role demo_io = WS_ROLE_SERVER"
  by (simp_all add: demo_io_def zero_io_def WS_IO_MAX_CONNS_def)

lemma demo_io_wf: "pool_wf demo_io"
proof -
  have "pool_wf ((zero_io WS_ROLE_SERVER)\<lparr>listen_fd := 3, epoll_fd := 4\<rparr>)"
    using zero_io_wf [of WS_ROLE_SERVER] by (simp add: pool_wf_def)
  then show ?thesis unfolding demo_io_def by (intro set_slot_wf demo_slot_wf fresh_slot_wf)
qed

lemma demo_owners: "map owner (conns demo_io) = (True, 5) # (True, 6) # replicate 62 (False, 0)"
proof -
  have "replicate 64 (False, 0 :: int) = (False, 0) # (False, 0) # replicate 62 (False, 0)"
    by (simp add: numeral_eq_Suc)
  then show ?thesis
    by (simp add: demo_io_def zero_io_def WS_IO_MAX_CONNS_def map_update owner_def demo_slot_def fresh_slot_def zero_slot_def)
qed

lemma demo_owned: "owned w_fds {0, 1, 2, 3, 4} demo_io demo_world"
proof -
  have "single (map owner (conns demo_io))"
    unfolding demo_owners single_def by (auto simp: nth_Cons split: nat.splits)
  moreover have "held (map owner (conns demo_io)) = {5, 6}" unfolding demo_owners by (auto simp: held_def)
  ultimately show ?thesis by (auto simp: owned_def demo_world_def)
qed

lemma io_setup_codes:
  assumes "io_setup K io port w = (rc, io', w1)"
  shows "rc \<in> {0, WS_IO_ERR_SOCKET, WS_IO_ERR_BIND, WS_IO_ERR_LISTEN, WS_IO_ERR_EPOLL}"
  using assms
  by (auto simp: io_setup_def open_listener_def open_epoll_def bind_then_listen_def do_bind_def Let_def
      split: prod.splits if_splits)

lemma serve_returns:
  assumes "event_handler K H" and "kernel_ok K sent"
  shows "returns (ws_serve K H S n port r w) (\<lambda>res. case res of
      Inl (rc, w') \<Rightarrow> rc \<in> {WS_IO_ERR_SOCKET, WS_IO_ERR_BIND, WS_IO_ERR_LISTEN, WS_IO_ERR_EPOLL}
    | Inr (io, w') \<Rightarrow> pool_wf io \<and> io_role io = r)"
proof -
  obtain rc io w1 where s: "io_setup K (zero_io r) port w = (rc, io, w1)" by (metis prod_cases3)
  have "rc \<in> {0, WS_IO_ERR_SOCKET, WS_IO_ERR_BIND, WS_IO_ERR_LISTEN, WS_IO_ERR_EPOLL}"
    by (rule io_setup_codes [OF s])
  moreover have "io_role io = r" using io_setup_frame [OF s] by (simp add: zero_io_def)
  moreover have "returns (run_rounds n K H S io w1) (kept K io w1)"
    by (rule event_handler.run_rounds_ok [OF assms io_setup_wf [OF s]])
  ultimately show ?thesis
    using s by (auto simp: ws_serve_def returns_def kept_def io_err_defs)
qed

lemma main_returns:
  assumes "kernel_ok K sent" and "port_from_stack argc argv = Some port"
  shows "\<exists>r. ws_main K [k0, k1, k2, k3] S n argc argv w = Some r"
proof -
  let ?H = "on_event K [k0, k1, k2, k3]"
  obtain res where r: "ws_serve K ?H S n port WS_ROLE_SERVER w = Some res"
      "case res of Inl (rc, w') \<Rightarrow> rc \<in> {WS_IO_ERR_SOCKET, WS_IO_ERR_BIND, WS_IO_ERR_LISTEN, WS_IO_ERR_EPOLL}
        | Inr (io, w') \<Rightarrow> pool_wf io \<and> io_role io = WS_ROLE_SERVER"
    using serve_returns [OF echo.event_handler_axioms assms(1)] by (rule returnsE)
  show ?thesis
  proof (cases res)
    case (Inl a)
    then obtain rc w1 where rc: "res = Inl (rc, w1)" by (cases a) simp
    then have codes: "rc \<in> {WS_IO_ERR_SOCKET, WS_IO_ERR_BIND, WS_IO_ERR_LISTEN, WS_IO_ERR_EPOLL}" using r(2) by simp
    obtain m where "ws_io_strerror rc = Some m" using strerror_eq [OF codes] by blast
    from main_failed [OF assms(2) r(1) [unfolded rc] codes this] show ?thesis by blast
  next
    case (Inr p)
    then show ?thesis using r(1) assms(2) by (simp add: ws_main_def)
  qed
qed

text \<open>C2. The server never goes wrong: for every event handler that meets its contract and every
  kernel whose reads and event reports stay within their buffers, starting the server and running its loop for any
  number of rounds stays inside all objects, ends every inner loop, and either reports which
  set-up step failed or leaves a well-formed pool.\<close>

theorem server_safe:
  assumes "event_handler K H" and "kernel_ok K sent"
  shows "returns (ws_serve K H S n port r w) (\<lambda>res. case res of
      Inl (rc, w') \<Rightarrow> rc \<in> {WS_IO_ERR_SOCKET, WS_IO_ERR_BIND, WS_IO_ERR_LISTEN, WS_IO_ERR_EPOLL}
    | Inr (io, w') \<Rightarrow> pool_wf io \<and> io_role io = r)"
  by (rule serve_returns [OF assms])

theorem server_safe_witness:
  "returns (ws_serve loopback (on_event loopback [1, 2, 3, 4]) demo_stack 3 8080 WS_ROLE_SERVER world0) (\<lambda>res. case res of
      Inl (rc, w') \<Rightarrow> rc \<in> {WS_IO_ERR_SOCKET, WS_IO_ERR_BIND, WS_IO_ERR_LISTEN, WS_IO_ERR_EPOLL}
    | Inr (io, w') \<Rightarrow> pool_wf io \<and> io_role io = WS_ROLE_SERVER)"
  by (rule server_safe [OF echo.event_handler_axioms loopback_ok])

text \<open>C12. No descriptor is leaked, shared or closed twice: if the used slots hold distinct open
  descriptors which, together with a fixed set of others, are all that is open, then the same is
  true after any number of rounds of the loop, whatever connections came, were upgraded, refused
  or closed in between. The kernel is free to do anything when a descriptor that is not open is
  closed (\<open>kernel_fds\<close> has no law for it), so this rests on the server never doing so.\<close>

theorem descriptors_owned:
  assumes "event_handler K H" and "kernel_ok K sent" and "kernel_fds K opens" and "pool_wf io"
    and "owned opens base io w"
  shows "\<exists>io' w'. run_rounds n K H S io w = Some (io', w') \<and> pool_wf io' \<and> owned opens base io' w'"
  using event_handler.run_rounds_ok [OF assms(1,2,4), of n S w] assms(3,5)
  unfolding returns_def kept_def by fast

theorem descriptors_owned_witness:
  "\<exists>io' w'. run_rounds 3 loopback (on_event loopback [1, 2, 3, 4]) demo_stack demo_io demo_world = Some (io', w') \<and>
    pool_wf io' \<and> owned w_fds {0, 1, 2, 3, 4} io' w'"
  by (rule descriptors_owned [OF echo.event_handler_axioms loopback_ok loopback_fds demo_io_wf demo_owned])

text \<open>C23. The frame pump always ends: draining an open connection returns, for every handler that
  meets the contract and whatever bytes are buffered, with the pool well-formed and every slot
  still owned by the same descriptor.\<close>

theorem drain_terminates:
  assumes "event_handler K H" and "pool_wf io" and "i < WS_IO_MAX_CONNS" and "opened (conns io ! i)"
  shows "\<exists>r io' w'. drain_events H io i ev w = Some (r, io', w') \<and> (r = 0 \<or> r = 1) \<and> pool_wf io' \<and>
    same_pool io io' \<and> traffic K w w'"
proof -
  have "returns (drain_events H io i ev w) (event_handler.served K io i w)"
    by (rule event_handler.drain_events_ok [OF assms])
  then show ?thesis unfolding returns_def event_handler.served_def [OF assms(1)] by fast
qed

theorem drain_terminates_witness:
  "\<exists>r io' w'. drain_events (on_event loopback [1, 2, 3, 4]) demo_io 0 demo_event demo_world = Some (r, io', w') \<and>
    (r = 0 \<or> r = 1) \<and> pool_wf io' \<and> same_pool demo_io io' \<and> traffic loopback demo_world w'"
  by (rule drain_terminates [OF echo.event_handler_axioms demo_io_wf])
    (simp_all add: WS_IO_MAX_CONNS_def demo_io_slots demo_slot_def)

text \<open>C9. The upgrade: once the bytes read on a fresh connection complete a request whose key line is
  found, the server answers with exactly the 101 response for that key, opens the connection in the
  state a new open driver has, and hands the bytes that came after the request to the frame pump,
  even when the request arrived in pieces.\<close>

theorem upgrade_opens:
  assumes "kernel_ok K sent" and "writable K" and "pool_wf io" and "i < WS_IO_MAX_CONNS"
    and "s = conns io ! i" and "\<not> opened s"
    and "k_read K (fd s) (2048 - hslen s) w = (int (length bs), bs, w1)" and "bs \<noteq> []"
    and "take (hslen s) (hsbuf s) @ bs = head @ crlf @ crlf @ rest"
    and "\<forall>j < length head. \<not> occurs_at (crlf @ crlf) (head @ crlf @ crlf @ rest) j"
    and "key_line head key" and "key \<noteq> []" and "length key \<le> 64"
  shows "\<exists>io1 buf w2. on_client_data K H S io i w = feed H io1 i buf (length rest) (st_event S) w2 \<and>
    take (length rest) buf = rest \<and> (rest = [] \<longrightarrow> on_client_data K H S io i w = Some (0, io1, w2)) \<and>
    same_pool io io1 \<and> pool_wf io1 \<and> opened (conns io1 ! i) \<and>
    conn (conns io1 ! i) = ws_conn_open (ws_conn_init (io_role io) (slot_buf s) WS_MAX_MESSAGE) \<and>
    sent (fd s) w2 = sent (fd s) w1 @ accept_response (accept_value key)"
proof -
  obtain io1 buf w2 where u: "on_client_data K H S io i w = feed H io1 i buf (length rest) (st_event S) w2"
      "take (length rest) buf = rest" "same_pool io io1" "pool_wf io1" "opened (conns io1 ! i)"
      "conn (conns io1 ! i) = ws_conn_open (ws_conn_init (io_role io) (slot_buf s) WS_MAX_MESSAGE)"
      "sent (fd s) w2 = sent (fd s) w1 @ accept_response (accept_value key)"
    using upgrade_step [OF assms] by blast
  have "conn_wf (conn (conns io1 ! i))"
    using pool_slot(2) [OF u(4) assms(4)] u(5) by (simp add: slot_wf_def)
  moreover have "\<not> failed (conn (conns io1 ! i))" "pending (conn (conns io1 ! i)) = []"
    unfolding u(6) by (simp_all add: ws_conn_open_def ws_lc_handshake_def ws_conn_init_def pending_def)
  ultimately have "rest = [] \<longrightarrow> on_client_data K H S io i w = Some (0, io1, w2)"
    using feed_nothing [OF u(4) assms(4), of H buf "st_event S" w2] u(1) by simp
  with u show ?thesis by blast
qed

lemma demo_upgrade_read:
  "k_read loopback 6 2048 demo_world = (int (length demo_upgrade), demo_upgrade, demo_world\<lparr>w_in := (w_in demo_world)(6 := [])\<rparr>)"
  by (simp add: loopback_def demo_world_def demo_upgrade_def demo_request_def crlf_def Let_def)

lemma demo_upgrade_first:
  "\<forall>j < length demo_request. \<not> occurs_at (crlf @ crlf) (demo_request @ crlf @ crlf @ []) j"
proof -
  have "list_all (\<lambda>j. \<not> occurs_at (crlf @ crlf) (demo_request @ crlf @ crlf @ []) j) [0..<length demo_request]"
    by code_simp
  then show ?thesis by (simp add: list_all_iff)
qed

theorem upgrade_opens_witness:
  "\<exists>io1 w2. on_client_data loopback (on_event loopback [1, 2, 3, 4]) demo_stack demo_io 1 demo_world = Some (0, io1, w2) \<and>
    pool_wf io1 \<and> opened (conns io1 ! 1) \<and>
    conn (conns io1 ! 1) = ws_conn_open (ws_conn_init WS_ROLE_SERVER (slot_buf (fresh_slot 6)) WS_MAX_MESSAGE) \<and>
    w_out w2 6 = accept_response (accept_value (bytes_of ''abc''))"
proof -
  let ?w1 = "demo_world\<lparr>w_in := (w_in demo_world)(6 := [])\<rparr>"
  have f: "fd (fresh_slot 6) = 6" "hslen (fresh_slot 6) = 0" "\<not> opened (fresh_slot 6)" "w_out ?w1 6 = []"
    by (simp_all add: fresh_slot_def demo_world_def world0_def)
  have i: "1 < WS_IO_MAX_CONNS" by (simp add: WS_IO_MAX_CONNS_def)
  have r: "k_read loopback (fd (fresh_slot 6)) (2048 - hslen (fresh_slot 6)) demo_world =
      (int (length demo_upgrade), demo_upgrade, ?w1)" "demo_upgrade \<noteq> []"
    using demo_upgrade_read f by (simp_all add: demo_upgrade_def crlf_def)
  have t: "take (hslen (fresh_slot 6)) (hsbuf (fresh_slot 6)) @ demo_upgrade = demo_request @ crlf @ crlf @ []"
    using f by (simp add: demo_upgrade_def)
  have k: "bytes_of ''abc'' \<noteq> []" "length (bytes_of ''abc'') \<le> 64" by (simp_all add: bytes_of_def)
  show ?thesis
    using upgrade_opens [OF loopback_ok loopback_writable demo_io_wf i demo_io_slots(2) [symmetric] f(3) r t
        demo_upgrade_first demo_request_key k, of "on_event loopback [1, 2, 3, 4]" demo_stack]
    unfolding f(1,4) demo_io_slots(5) by auto
qed

text \<open>C7. The echo server echoes: when a client socket with an open, idle connection becomes readable
  and delivers a whole masked data frame, the server finds its slot, and what it writes to that
  socket is exactly one unmasked frame with the same opcode and the same payload; the connection
  stays open with nothing buffered and its protocol state unchanged.\<close>

theorem echo_service:
  assumes "kernel_ok K sent" and "writable K" and "pool_wf io" and "single (map owner (conns io))"
    and "i < WS_IO_MAX_CONNS" and "s = conns io ! i" and "idle s" and "fd s \<noteq> listen_fd io"
    and "wf_frame h D" and "masked h" and "fin h" and "opcode h = WS_OP_BIN \<or> opcode h = WS_OP_TEXT \<and> is_utf8 D"
    and "k_read K (fd s) 4096 w = (int (length (wire h D)), wire h D, w1)"
  shows "\<exists>c' w'. on_readable K (on_event K [k0, k1, k2, k3]) S io (fd s) w =
      Some (set_slot io i (s\<lparr>conn := c'\<rparr>), w') \<and>
    sent (fd s) w' = sent (fd s) w1 @ plain_frame (opcode h) D \<and>
    conn_wf c' \<and> pending c' = [] \<and> dabs c' = dabs (conn s)"
  using echo_readable [OF assms, of k0 k1 k2 k3 S] by blast

lemma demo_slot_conn:
  "used demo_slot" "opened demo_slot" "fd demo_slot = 5" "ws_lc_active (conn demo_slot)" "\<not> failed (conn demo_slot)"
  "role (conn demo_slot) = WS_ROLE_SERVER" "frag (conn demo_slot) = WS_FRAG_NONE" "pending (conn demo_slot) = []"
  by (simp_all add: demo_slot_def fresh_slot_def ws_conn_open_def ws_lc_handshake_def ws_conn_init_def
      ws_lc_active_def pending_def)

lemma demo_text: "is_utf8 [0x48, 0x69]"
  unfolding is_utf8_def
  by (rule exI [of _ "[0x48, 0x69]"]) (simp add: utf8_encode_def utf8_units_def scalar_value_def)

theorem echo_service_witness:
  "\<exists>c' w'. on_readable loopback (on_event loopback [1, 2, 3, 4]) demo_stack demo_io 5 demo_world =
      Some (set_slot demo_io 0 (demo_slot\<lparr>conn := c'\<rparr>), w') \<and>
    w_out w' 5 = [0x81, 0x02, 0x48, 0x69] \<and> pending c' = []"
proof -
  let ?w1 = "demo_world\<lparr>w_in := (w_in demo_world)(5 := [])\<rparr>"
  have i: "0 < WS_IO_MAX_CONNS" by (simp add: WS_IO_MAX_CONNS_def)
  have sg: "single (map owner (conns demo_io))" using demo_owned by (simp add: owned_def)
  have id: "idle demo_slot" using demo_slot_conn by (simp add: idle_def)
  have nl: "fd demo_slot \<noteq> listen_fd demo_io" using demo_slot_conn(3) demo_io_slots(4) by simp
  have h: "masked demo_header" "fin demo_header"
      "opcode demo_header = WS_OP_BIN \<or> opcode demo_header = WS_OP_TEXT \<and> is_utf8 [0x48, 0x69]"
    using demo_text by (simp_all add: demo_header_def)
  have l: "length (wire demo_header [0x48, 0x69]) = 8"
    by (simp add: length_wire encode_header_def demo_header_def len_ext_def)
  have r: "k_read loopback (fd demo_slot) 4096 demo_world =
      (int (length (wire demo_header [0x48, 0x69])), wire demo_header [0x48, 0x69], ?w1)"
    using l by (simp add: loopback_def demo_world_def demo_slot_conn(3) Let_def)
  have o: "w_out ?w1 5 = []" by (simp add: demo_world_def world0_def)
  have e: "plain_frame (opcode demo_header) [0x48, 0x69] = [0x81, 0x02, 0x48, 0x69]"
    by (simp add: plain_frame_def wire_def wire_payload_def encode_header_def demo_header_def len7_def len_ext_def be_bytes_def op_defs)
  show ?thesis
    using echo_service [OF loopback_ok loopback_writable demo_io_wf sg i demo_io_slots(1) [symmetric]
        id nl demo_facts(3) h r, of 1 2 3 4 demo_stack]
    unfolding e demo_slot_conn(3) o by auto
qed

text \<open>C34. The accept path: a failed accept changes nothing; when all 64 slots are in use the new
  descriptor is closed and the pool is unchanged; otherwise the first unused slot is reset for the
  new descriptor, which is registered for reading.\<close>

theorem on_accept_policy:
  assumes "pool_wf io" and "k_accept K (listen_fd io) w = (cfd, w1)"
  shows "on_accept K io w = Some
    (if cfd < 0 then (io, w1)
     else if \<forall>i < 64. used (conns io ! i) then (io, k_close K (long_to_int cfd) w1)
     else (set_slot io (LEAST i. i < 64 \<and> \<not> used (conns io ! i)) (fresh_slot (long_to_int cfd)),
       snd (k_epoll_ctl K (epoll_fd io) EPOLL_CTL_ADD (long_to_int cfd)
         (Some \<lparr>ep_events = EPOLLIN, ep_data = word_of_int (long_to_int cfd)\<rparr>) w1)))"
  using alloc_slot_eq [OF assms(1)] assms(2)
  by (auto simp: on_accept_def sys_close_def epoll_add_def WS_IO_MAX_CONNS_def split: prod.splits)

theorem on_accept_policy_witness:
  "\<exists>w1. k_accept loopback (listen_fd demo_io) demo_world = (7, w1) \<and>
    on_accept loopback demo_io demo_world = Some
    (if \<forall>i < 64. used (conns demo_io ! i) then (demo_io, k_close loopback (long_to_int 7) w1)
     else (set_slot demo_io (LEAST i. i < 64 \<and> \<not> used (conns demo_io ! i)) (fresh_slot (long_to_int 7)),
       snd (k_epoll_ctl loopback (epoll_fd demo_io) EPOLL_CTL_ADD (long_to_int 7)
         (Some \<lparr>ep_events = EPOLLIN, ep_data = word_of_int (long_to_int 7)\<rparr>) w1)))"
proof -
  obtain w1 where a: "k_accept loopback (listen_fd demo_io) demo_world = (7, w1)"
    by (simp add: loopback_def demo_world_def)
  then show ?thesis using on_accept_policy [OF demo_io_wf a] by simp
qed

text \<open>C35. Set-up errors: the set-up makes its system calls in order with the documented arguments (the
  port in network byte order) and stops at the first of \<^verbatim>\<open>socket\<close>, \<^verbatim>\<open>bind\<close>, \<^verbatim>\<open>listen\<close>,
  \<^verbatim>\<open>epoll_create1\<close> and \<^verbatim>\<open>epoll_ctl\<close> that fails: the world is then the one that call left, with no call
  after it, and the code, the descriptors stored and the text reported for the code are those of its step.
  What \<^verbatim>\<open>setsockopt\<close> returns is ignored.\<close>

theorem setup_error_step:
  assumes "k_socket K 2 1 0 w = (sk, w1)" and "k_setsockopt K (long_to_int sk) 1 2 1 w1 = (so, w2)"
    and "k_bind K (long_to_int sk) \<lparr>sin_family = 2, sin_port = push_bit 8 port OR drop_bit 8 port, sin_addr = 0,
      sin_zero = replicate 8 0\<rparr> w2 = (b, w3)"
    and "k_listen K (long_to_int sk) 16 w3 = (l, w4)" and "k_epoll_create1 K 0 w4 = (ep, w5)"
    and "k_epoll_ctl K (long_to_int ep) 1 (long_to_int sk)
      (Some \<lparr>ep_events = 1, ep_data = word_of_int (long_to_int sk)\<rparr>) w5 = (ct, w6)"
  shows "io_setup K io port w =
      (if long_to_int sk < 0 then (-1, io\<lparr>listen_fd := long_to_int sk\<rparr>, w1)
       else if b < 0 then (-2, io\<lparr>listen_fd := long_to_int sk\<rparr>, w3)
       else if l < 0 then (-3, io\<lparr>listen_fd := long_to_int sk\<rparr>, w4)
       else if long_to_int ep < 0 then (-4, io\<lparr>listen_fd := long_to_int sk, epoll_fd := long_to_int ep\<rparr>, w5)
       else (if ct < 0 then -4 else 0, io\<lparr>listen_fd := long_to_int sk, epoll_fd := long_to_int ep\<rparr>, w6)) \<and>
    ws_io_strerror (fst (io_setup K io port w)) = Some
      (if long_to_int sk < 0 then ''socket() failed'' else if b < 0 then ''bind() failed (port already in use?)''
       else if l < 0 then ''listen() failed'' else if long_to_int ep < 0 \<or> ct < 0 then ''epoll setup failed''
       else ''ok'')"
  using assms
  by (simp add: io_setup_def open_listener_def open_epoll_def bind_then_listen_def do_bind_def epoll_add_def Let_def
      htons16_def AF_INET_def SOCK_STREAM_def SOL_SOCKET_def SO_REUSEADDR_def EPOLLIN_def EPOLL_CTL_ADD_def io_err_defs
      ws_io_strerror_def strerror_msg_def)

text \<open>A kernel that refuses the address: the socket stays open, and no epoll descriptor is created.\<close>

theorem setup_error_step_witness:
  "io_setup (loopback\<lparr>k_bind := \<lambda>_ _ w. (-98, w)\<rparr>) (zero_io WS_ROLE_SERVER) 8080 world0 =
    (-2, (zero_io WS_ROLE_SERVER)\<lparr>listen_fd := 3\<rparr>, world0\<lparr>w_fds := insert 3 (w_fds world0)\<rparr>) \<and>
   ws_io_strerror (-2) = Some ''bind() failed (port already in use?)''"
proof -
  let ?K = "loopback\<lparr>k_bind := \<lambda>_ _ w. (-98, w)\<rparr>" and ?w1 = "world0\<lparr>w_fds := insert 3 (w_fds world0)\<rparr>"
  have li: "long_to_int 3 = 3" "long_to_int 4 = 4" by (simp_all add: long_to_int_small)
  obtain w5 w6 where k: "k_socket ?K 2 1 0 world0 = (3, ?w1)"
      "k_setsockopt ?K (long_to_int 3) 1 2 1 ?w1 = (0, ?w1)"
      "k_bind ?K (long_to_int 3) \<lparr>sin_family = 2, sin_port = push_bit 8 8080 OR drop_bit 8 8080, sin_addr = 0,
        sin_zero = replicate 8 0\<rparr> ?w1 = (-98, ?w1)"
      "k_listen ?K (long_to_int 3) 16 ?w1 = (0, ?w1)" "k_epoll_create1 ?K 0 ?w1 = (4, w5)"
      "k_epoll_ctl ?K (long_to_int 4) 1 (long_to_int 3)
        (Some \<lparr>ep_events = 1, ep_data = word_of_int (long_to_int 3)\<rparr>) w5 = (0, w6)"
    by (simp add: loopback_def)
  show ?thesis using setup_error_step [OF k, of "zero_io WS_ROLE_SERVER"] li by auto
qed

text \<open>C6. A message is eventually echoed, however it arrives: when a peer has sent a whole message frame on
  an open, idle connection, and is the only one with input, then after finitely many rounds of the
  event loop, at most one per byte, the server has written exactly the echo of that message, whether
  the stream delivered the frame in one read or in any pieces; the connection is idle again, and no
  other slot has changed hands. (A frame that arrives behind another in the same read is not covered:
  see \<open>poll_leaves\<close>.)\<close>

theorem message_echoed:
  assumes "kernel_ok K sent" and "writable K" and "lone_client K (epoll_fd io) (fd (conns io ! i)) sent inbox quiet"
    and "pool_wf io" and "single (map owner (conns io))" and "i < WS_IO_MAX_CONNS" and "idle (conns io ! i)"
    and "fd (conns io ! i) \<noteq> listen_fd io"
    and "wf_frame h D" and "masked h" and "fin h" and "opcode h = WS_OP_BIN \<or> opcode h = WS_OP_TEXT \<and> is_utf8 D"
    and "length (wire h D) \<le> WS_MAX_MESSAGE" and "quiet w" and "inbox w = wire h D"
  shows "\<exists>n io' w'. n \<le> length (wire h D) \<and>
    run_rounds n K (on_event K [k0, k1, k2, k3]) S io w = Some (io', w') \<and>
    sent (fd (conns io ! i)) w' = sent (fd (conns io ! i)) w @ plain_frame (opcode h) D \<and>
    pool_wf io' \<and> same_pool io io' \<and> idle (conns io' ! i)"
  using echo_arrives [OF assms(1,2,9-13) assms(3-6) _ assms(8,14), of "[]" k0 k1 k2 k3 S] assms(7,15) wire_nonempty
  by (simp add: idle_waiting)

lemma demo_idle: "idle (conns demo_io ! 0)" "fd (conns demo_io ! 0) = 5" "single (map owner (conns demo_io))"
  "0 < WS_IO_MAX_CONNS" "fd (conns demo_io ! 0) \<noteq> listen_fd demo_io"
  using demo_slot_conn demo_owned by (simp_all add: idle_def demo_io_slots owned_def WS_IO_MAX_CONNS_def)

theorem message_echoed_witness:
  "\<exists>n io' w'. n \<le> 8 \<and> run_rounds n trickle (on_event trickle [1, 2, 3, 4]) demo_stack demo_io
      (wire demo_header [0x48, 0x69], \<lambda>d. []) = Some (io', w') \<and>
    snd w' 5 = [0x81, 0x02, 0x48, 0x69] \<and> idle (conns io' ! 0)"
proof -
  have h: "masked demo_header" "fin demo_header"
      "opcode demo_header = WS_OP_BIN \<or> opcode demo_header = WS_OP_TEXT \<and> is_utf8 [0x48, 0x69]"
    using demo_text by (simp_all add: demo_header_def)
  have l: "length (wire demo_header [0x48, 0x69]) = 8"
    by (simp add: length_wire encode_header_def demo_header_def len_ext_def)
  then have m: "length (wire demo_header [0x48, 0x69]) \<le> WS_MAX_MESSAGE" by (simp add: WS_MAX_MESSAGE_def)
  have c: "lone_client trickle (epoll_fd demo_io) (fd (conns demo_io ! 0)) (\<lambda>d w. snd w d) fst (\<lambda>_. True)"
    using trickle_lone demo_idle(2) by (simp add: demo_io_def)
  have e: "plain_frame (opcode demo_header) [0x48, 0x69] = [0x81, 0x02, 0x48, 0x69]"
    by (simp add: plain_frame_def wire_def wire_payload_def encode_header_def demo_header_def len7_def len_ext_def be_bytes_def op_defs)
  show ?thesis
    using message_echoed [OF trickle_ok trickle_writable c demo_io_wf demo_idle(3,4,1,5) demo_facts(3) h m TrueI fst_conv,
        of 1 2 3 4 demo_stack "\<lambda>d. []"]
    unfolding demo_idle(2) e l by auto
qed

text \<open>C5. A message sent through the echo server comes back unchanged: what a client built with
  \<open>ws_send_message\<close>, read by the server in one chunk, makes the server write a frame that the
  client's driver accepts and delivers as a message with the same opcode and the same bytes.\<close>

theorem echo_there_and_back:
  assumes "kernel_ok K sent" and "writable K" and "pool_wf io" and "single (map owner (conns io))"
    and "i < WS_IO_MAX_CONNS" and "s = conns io ! i" and "idle s" and "fd s \<noteq> listen_fd io"
    and "conn_wf c" and "role c = WS_ROLE_CLIENT" and "\<not> failed c" and "frag c = WS_FRAG_NONE" and "pending c = []"
    and "length ck = 4" and "op = WS_OP_BIN \<or> op = WS_OP_TEXT \<and> is_utf8 D" and "length D < OBJ_MAX"
    and "cap \<le> length out" and "cap < OBJ_MAX"
    and "ws_send_message ck c op D (length D) out cap = Some (n, out')" and "0 < n" and "n \<le> msg_cap c"
    and "k_read K (fd s) 4096 w = (int n, take n out', w1)"
  shows "\<exists>io' w' bs r c1 c2 ev2. on_readable K (on_event K [k0, k1, k2, k3]) S io (fd s) w = Some (io', w') \<and>
    sent (fd s) w' = sent (fd s) w1 @ bs \<and> ws_conn_recv c bs (length bs) = Some (r, c1) \<and>
    ws_conn_poll c1 ev = Some (WS_EV_MESSAGE, c2, ev2) \<and> ev_op ev2 = op \<and> ev_bytes c2 ev2 = D"
proof -
  have key: "4 \<le> length ck" "4 \<le> length [k0, k1, k2, k3]" using assms(14) by simp_all
  have op: "unat op < 16" using assms(15) by (auto simp: op_defs)
  let ?h = "out_frame ck WS_ROLE_CLIENT op (length D)" and ?g = "out_frame [k0, k1, k2, k3] WS_ROLE_SERVER op (length D)"
  have f: "take n out' = wire ?h D" "n = length (wire ?h D)" "ws_lc_active c"
    using sent_frame [OF assms(19,20) key(1) op le_refl assms(16-18)] assms(10) by auto
  have rd: "k_read K (fd s) 4096 w = (int (length (wire ?h D)), wire ?h D, w1)" using assms(22) f(1,2) by simp
  have fr: "wf_frame ?h D" "masked ?h" "fin ?h" "opcode ?h = WS_OP_BIN \<or> opcode ?h = WS_OP_TEXT \<and> is_utf8 D"
    using client_frame [OF key(1) assms(15,16)] assms(15) by simp_all
  have g: "plain_frame (opcode ?h) D = wire ?g D" by (simp add: plain_frame_eq) (simp add: out_frame_def)
  obtain io' w' where e: "on_readable K (on_event K [k0, k1, k2, k3]) S io (fd s) w = Some (io', w')"
      "sent (fd s) w' = sent (fd s) w1 @ wire ?g D"
    using echo_readable [OF assms(1-8) fr rd, of k0 k1 k2 k3 S] unfolding g by auto
  have "length (wire ?g D) \<le> msg_cap c"
    using server_frame_shorter [OF key(1), of "[k0, k1, k2, k3]" op "length D" D] f(2) assms(21) by simp
  then obtain r c1 c2 ev2 where "ws_conn_recv c (wire ?g D) (length (wire ?g D)) = Some (r, c1)"
      "ws_conn_poll c1 ev = Some (WS_EV_MESSAGE, c2, ev2)" "ev_op ev2 = op" "ev_bytes c2 ev2 = D"
    using client_receives [OF assms(9,10) f(3) assms(11-13) assms(15,16) _ key(2), of ev] by blast
  with e show ?thesis by blast
qed

text \<open>A client sends three bytes.\<close>

definition demo_wire :: "byte list" where
  "demo_wire = wire (out_frame [5, 6, 7, 8] WS_ROLE_CLIENT WS_OP_BIN 3) [1, 2, 3]"

lemma demo_client_idle: "conn_wf demo_client" "role demo_client = WS_ROLE_CLIENT" "\<not> failed demo_client"
  "frag demo_client = WS_FRAG_NONE" "pending demo_client = []" "ws_lc_active demo_client" "msg_cap demo_client = 64"
proof -
  show "conn_wf demo_client" unfolding demo_client_def
    using init_wf [of "replicate 64 0" WS_ROLE_CLIENT] by (intro open_wf) (simp add: OBJ_MAX_def)
qed (simp_all add: demo_client_def ws_conn_open_def ws_lc_handshake_def ws_conn_init_def pending_def ws_lc_active_def)

lemma demo_client_send:
  "ws_send_message [5, 6, 7, 8] demo_client WS_OP_BIN [1, 2, 3] (length [1, 2, 3 :: byte]) (replicate 16 0) 16 =
    Some (9, patch (replicate 16 0) 0 demo_wire)" "length demo_wire = 9" "take 9 (patch (replicate 16 0) 0 demo_wire) = demo_wire"
proof -
  let ?h = "out_frame [5, 6, 7, 8] WS_ROLE_CLIENT WS_OP_BIN 3"
  have l: "length (encode_header ?h) = 6" by (simp add: encode_header_def out_frame_def len_ext_def)
  then show w: "length demo_wire = 9" by (simp add: demo_wire_def length_wire)
  then show "take 9 (patch (replicate 16 0) 0 demo_wire) = demo_wire" by (simp add: patch_def)
  have b: "4 \<le> length [5, 6, 7, 8 :: byte]" "unat WS_OP_BIN < 16" "3 \<le> length [1, 2, 3 :: byte]" "3 < OBJ_MAX"
      "16 \<le> length (replicate 16 (0 :: byte))" "16 < OBJ_MAX"
    by (simp_all add: op_defs OBJ_MAX_def)
  show "ws_send_message [5, 6, 7, 8] demo_client WS_OP_BIN [1, 2, 3] (length [1, 2, 3 :: byte]) (replicate 16 0) 16 =
      Some (9, patch (replicate 16 0) 0 demo_wire)"
    using build_frame_eq [OF b refl, of demo_client] l demo_client_idle(2,6)
    by (simp add: ws_send_message_def demo_wire_def numeral_3_eq_3)
qed

theorem echo_there_and_back_witness:
  "\<exists>io' w' bs r c1 c2 ev2. on_readable postal (on_event postal [1, 2, 3, 4]) demo_stack demo_io 5
      ((\<lambda>d. [demo_wire]), \<lambda>d. []) = Some (io', w') \<and>
    snd w' 5 = bs \<and> ws_conn_recv demo_client bs (length bs) = Some (r, c1) \<and>
    ws_conn_poll c1 demo_event = Some (WS_EV_MESSAGE, c2, ev2) \<and> ev_op ev2 = WS_OP_BIN \<and> ev_bytes c2 ev2 = [1, 2, 3]"
proof -
  let ?w = "((\<lambda>d. [demo_wire]), \<lambda>d. []) :: post" and ?w1 = "((\<lambda>d. [demo_wire])(5 := []), \<lambda>d. []) :: post"
  have rd: "k_read postal (fd (conns demo_io ! 0)) 4096 ?w = (int 9, take 9 (patch (replicate 16 0) 0 demo_wire), ?w1)"
    unfolding demo_client_send(3) demo_idle(2) using demo_client_send(2) by (simp add: postal_def)
  have b: "length [5, 6, 7, 8 :: byte] = 4" "WS_OP_BIN = WS_OP_BIN \<or> WS_OP_BIN = WS_OP_TEXT \<and> is_utf8 [1, 2, 3]"
      "length [1, 2, 3 :: byte] < OBJ_MAX" "16 \<le> length (replicate 16 (0 :: byte))" "16 < OBJ_MAX" "(0 :: nat) < 9"
      "9 \<le> msg_cap demo_client"
    using demo_client_idle(7) by (simp_all add: OBJ_MAX_def)
  show ?thesis
    using echo_there_and_back [OF postal_ok postal_writable demo_io_wf demo_idle(3,4) refl demo_idle(1,5)
        demo_client_idle(1-5) b(1-5) demo_client_send(1) b(6,7) rd, of 1 2 3 4 demo_stack demo_event]
    unfolding demo_idle(2) by auto
qed

text \<open>C8. A ping is answered: when a client socket with an open, idle connection becomes readable
  and delivers a masked Ping, what the server writes to that socket is exactly one unmasked Pong with
  the payload of the Ping; the connection stays open and its protocol state is unchanged.\<close>

theorem ping_answered:
  assumes "kernel_ok K sent" and "writable K" and "pool_wf io" and "single (map owner (conns io))"
    and "i < WS_IO_MAX_CONNS" and "s = conns io ! i" and "idle s" and "fd s \<noteq> listen_fd io"
    and "wf_frame h D" and "masked h" and "opcode h = WS_OP_PING"
    and "k_read K (fd s) 4096 w = (int (length (wire h D)), wire h D, w1)"
  shows "\<exists>c' w'. on_readable K (on_event K [k0, k1, k2, k3]) S io (fd s) w =
      Some (set_slot io i (s\<lparr>conn := c'\<rparr>), w') \<and>
    sent (fd s) w' = sent (fd s) w1 @ plain_frame WS_OP_PONG D \<and>
    conn_wf c' \<and> pending c' = [] \<and> dabs c' = dabs (conn s)"
proof -
  have "answer (Ping D) WS_OP_PONG D" by (simp add: answer_def)
  then show ?thesis
    using reply_readable [OF assms(1-9) idle_ping [OF assms(7,10,11)] _ assms(12), of WS_OP_PONG k0 k1 k2 k3 S] by blast
qed

definition demo_ping :: ws_frame_header where
  "demo_ping = \<lparr>opcode = WS_OP_PING, payload_len = 2, mask_key = [1, 2, 3, 4], fin = True, masked = True, rsv = 0\<rparr>"

theorem ping_answered_witness:
  "\<exists>c' w'. on_readable postal (on_event postal [1, 2, 3, 4]) demo_stack demo_io 5
      ((\<lambda>d. [wire demo_ping [0x48, 0x69]]), \<lambda>d. []) = Some (set_slot demo_io 0 ((conns demo_io ! 0)\<lparr>conn := c'\<rparr>), w') \<and>
    snd w' 5 = [0x8A, 0x02, 0x48, 0x69] \<and> pending c' = []"
proof -
  let ?w = "((\<lambda>d. [wire demo_ping [0x48, 0x69]]), \<lambda>d. []) :: post"
  have fr: "wf_frame demo_ping [0x48, 0x69]"
    by (simp add: wf_frame_def wf_header_def demo_ping_def op_defs)
  have h: "masked demo_ping" "opcode demo_ping = WS_OP_PING" by (simp_all add: demo_ping_def)
  have l: "length (wire demo_ping [0x48, 0x69]) = 8"
    by (simp add: length_wire encode_header_def demo_ping_def len_ext_def)
  have rd: "k_read postal (fd (conns demo_io ! 0)) 4096 ?w =
      (int (length (wire demo_ping [0x48, 0x69])), wire demo_ping [0x48, 0x69],
       ((\<lambda>d. [wire demo_ping [0x48, 0x69]])(5 := []), \<lambda>d. []))"
    unfolding demo_idle(2) using l by (simp add: postal_def)
  have e: "plain_frame WS_OP_PONG [0x48, 0x69] = [0x8A, 0x02, 0x48, 0x69]"
    by (simp add: plain_frame_def wire_def wire_payload_def encode_header_def len7_def len_ext_def be_bytes_def op_defs)
  show ?thesis
    using ping_answered [OF postal_ok postal_writable demo_io_wf demo_idle(3,4) refl demo_idle(1,5) fr h rd,
        of 1 2 3 4 demo_stack]
    unfolding demo_idle(2) e by auto
qed

text \<open>C10. The end of a connection: when a frame with a well-formed header, read whole from an open, idle
  connection, is a Close or violates the protocol, the server removes the descriptor from epoll, closes
  it and frees its slot; nothing is written to the peer, so a Close is never answered. (A malformed
  header does not end the connection: see \<open>malformed_header_stalls\<close>.)\<close>

theorem connection_ends:
  assumes "kernel_ok K sent" and "pool_wf io" and "single (map owner (conns io))" and "i < WS_IO_MAX_CONNS"
    and "s = conns io ! i" and "idle s" and "fd s \<noteq> listen_fd io"
    and "wf_frame h D" and "fst (deliver (dabs (conn s)) h D) \<in> insert Violation (range Closed)"
    and "k_read K (fd s) 4096 w = (int (length (wire h D)), wire h D, w1)"
  shows "\<exists>c'. on_readable K (on_event K key) S io (fd s) w = Some (set_slot io i (s\<lparr>conn := c', used := False\<rparr>),
    k_close K (fd s) (snd (k_epoll_ctl K (epoll_fd io) EPOLL_CTL_DEL (fd s) None w1)))"
  by (rule terminal_service [OF assms])

definition demo_close :: ws_frame_header where
  "demo_close = \<lparr>opcode = WS_OP_CLOSE, payload_len = 0, mask_key = [1, 2, 3, 4], fin = True, masked = True, rsv = 0\<rparr>"

theorem connection_ends_witness:
  "\<exists>c'. on_readable postal (on_event postal [1, 2, 3, 4]) demo_stack demo_io 5
      ((\<lambda>d. [wire demo_close []]), \<lambda>d. []) =
    Some (set_slot demo_io 0 (demo_slot\<lparr>conn := c', used := False\<rparr>), ((\<lambda>d. [wire demo_close []])(5 := []), \<lambda>d. []))"
proof -
  let ?w = "((\<lambda>d. [wire demo_close []]), \<lambda>d. []) :: post"
  let ?w1 = "((\<lambda>d. [wire demo_close []])(5 := []), \<lambda>d. []) :: post"
  have fr: "wf_frame demo_close []" by (simp add: wf_frame_def wf_header_def demo_close_def op_defs)
  have l: "length (wire demo_close []) = 6"
    by (simp add: length_wire encode_header_def demo_close_def len_ext_def)
  have "fst (deliver (dabs (conn (conns demo_io ! 0))) demo_close []) = Closed 0"
    by (simp add: demo_io_slots deliver_def deliver_close_def close_body_def demo_close_def Let_def dabs_def demo_slot_def
        ws_conn_open_def ws_lc_handshake_def ws_conn_init_def)
  then have d: "fst (deliver (dabs (conn (conns demo_io ! 0))) demo_close []) \<in> insert Violation (range Closed)" by simp
  have rd: "k_read postal (fd (conns demo_io ! 0)) 4096 ?w = (int (length (wire demo_close [])), wire demo_close [], ?w1)"
    unfolding demo_idle(2) using l by (simp add: postal_def)
  have p: "k_epoll_ctl postal a b c e w = (0, w)" "k_close postal a w = w" for a b c e w by (simp_all add: postal_def)
  show ?thesis
    using connection_ends [OF postal_ok demo_io_wf demo_idle(3,4) refl demo_idle(1,5) fr d rd, of "[1, 2, 3, 4]" demo_stack]
    unfolding demo_io_slots(1) demo_slot_conn(3) p by simp
qed

text \<open>C11. The events of the driver are well typed: on every connection that calls of the interface can
  lead to, the result of a poll is the type of its event; the data lies inside the connection's buffer; a
  message has a data opcode, and the payload of a text message is UTF-8; a Close event means that a
  well-formed Close frame is first in the buffer, and its code is 0 when the frame has no body and
  otherwise the code in the frame, which is one an endpoint may send, followed by a UTF-8 reason.\<close>

theorem event_typed:
  assumes "conn_init c0" and "conn_step\<^sup>*\<^sup>* c0 c" and "ws_conn_poll c ev = Some (t, c', ev')"
  shows "ev_type ev' = t \<and> ev_in c' ev' \<and>
    (t = WS_EV_MESSAGE \<longrightarrow> ev_op ev' = WS_OP_BIN \<or> ev_op ev' = WS_OP_TEXT \<and> is_utf8 (ev_bytes c' ev')) \<and>
    (t = WS_EV_CLOSE \<longrightarrow> (\<exists>h D R. wf_frame h D \<and> pending c = wire h D @ R \<and> opcode h = WS_OP_CLOSE \<and>
      (D = [] \<and> ev_close_code ev' = 0 \<or>
       2 \<le> length D \<and> ev_close_code ev' = body_code D \<and> ws_close_code_sendable (ev_close_code ev') \<and>
       is_utf8 (drop 2 D))))"
proof -
  have wf: "conn_wf c" by (rule conn.inv_reachable [OF assms(1,2)])
  have cu: "code_unset c" by (rule conn_code.inv_reachable [OF assms(1,2)])
  have "ev_type ev' = t" using poll_wf [OF wf, of ev] assms(3) by auto
  moreover have "ev_in c' ev'" by (rule poll_event_in [OF wf assms(3)])
  ultimately show ?thesis using poll_message_typed [OF wf, of ev c' ev'] poll_close_typed [OF cu, of ev c' ev'] assms(3) by blast
qed

text \<open>A Close with code 1000.\<close>

definition demo_bye :: ws_frame_header where
  "demo_bye = \<lparr>opcode = WS_OP_CLOSE, payload_len = 2, mask_key = [1, 2, 3, 4], fin = True, masked = True, rsv = 0\<rparr>"

lemma demo_bye_poll:
  "\<exists>c c' ev'. conn_step demo_server c \<and> pending c = wire demo_bye [0x03, 0xE8] \<and>
    ws_conn_poll c demo_event = Some (WS_EV_CLOSE, c', ev') \<and> ev_close_code ev' = 1000"
proof -
  let ?W = "wire demo_bye [0x03, 0xE8]"
  have fr: "wf_frame demo_bye [0x03, 0xE8]" by (simp add: wf_frame_def wf_header_def demo_bye_def op_defs)
  have l: "length ?W = 8" by (simp add: length_wire encode_header_def demo_bye_def len_ext_def)
  have ob: "length ?W < OBJ_MAX" "msg_len demo_server + rx_len demo_server + length ?W \<le> msg_cap demo_server"
    unfolding l by (simp_all add: OBJ_MAX_def demo_server_facts)
  obtain c where c: "ws_conn_recv demo_server ?W (length ?W) = Some (to_int (length ?W), c)" "conn_wf c"
      "dabs c = dabs demo_server" "pending c = ?W @ []"
    using recv_accepts [OF demo_server_facts(2) order_refl ob] demo_server_facts(4) by auto
  have st: "conn_step demo_server c" by (rule conn_step.Recv [OF order_refl ob(1) c(1)])
  have nf: "\<not> failed c" using c(3) demo_server_facts(3) dabs_simps(8) by metis
  obtain t c' ev' where q: "ws_conn_poll c demo_event = Some (t, c', ev')" "poll_ok c demo_bye [0x03, 0xE8] [] (t, c', ev')"
    using poll_frame [OF c(2) nf fr c(4), of demo_event] by (metis prod_cases3)
  have "is_utf8 []" unfolding is_utf8_def by (rule exI [of _ "[]"]) (simp add: utf8_encode_def)
  then have "fst (deliver (dabs c) demo_bye [0x03, 0xE8]) = Closed 1000"
    unfolding c(3)
    by (simp add: deliver_def deliver_close_def close_body_def body_code_def demo_bye_def Let_def demo_server_facts
        ws_close_code_sendable_def close_protocol_ok_def close_reserved_def in_range16_def)
  then have "t = WS_EV_CLOSE" "observe (t, c', ev') = Closed 1000"
    using poll_okD(7,8) [OF q(2)] by (simp_all add: demo_bye_def op_defs)
  then have "t = WS_EV_CLOSE" "ev_close_code ev' = 1000" by (simp_all add: observe_def)
  then show ?thesis using st c(4) q(1) by auto
qed

theorem event_typed_witness:
  "\<exists>c c' ev'. conn_step demo_server c \<and> pending c = wire demo_bye [0x03, 0xE8] \<and>
    ws_conn_poll c demo_event = Some (WS_EV_CLOSE, c', ev') \<and> ev_type ev' = WS_EV_CLOSE \<and>
    ev_in c' ev' \<and> ev_close_code ev' = 1000 \<and> ws_close_code_sendable (ev_close_code ev')"
proof -
  obtain c c' ev' where p: "conn_step demo_server c" "pending c = wire demo_bye [0x03, 0xE8]"
      "ws_conn_poll c demo_event = Some (WS_EV_CLOSE, c', ev')" "ev_close_code ev' = 1000"
    using demo_bye_poll by blast
  have "conn_step\<^sup>*\<^sup>* (ws_conn_init WS_ROLE_SERVER (replicate 64 0) 64) c"
    by (rule rtranclp.rtrancl_into_rtrancl [OF demo_reach p(1)])
  from event_typed [OF demo_server_facts(1) this p(3)] p show ?thesis by auto
qed

text \<open>C13. The debug build behaves like the release build: started in the same world, on a kernel on
  which what was written to stderr influences nothing else, the whole program with all its trace
  points returns, with the same exit status after a failed set-up, and otherwise, after any number
  of rounds, with the same server in a world that differs at most in what was written to stderr.\<close>

theorem debug_server_same:
  assumes "quiet_kernel K same" and "kernel_ok K sent" and "port_from_stack argc argv = Some port"
  shows "\<exists>r r'. ws_main K [k0, k1, k2, k3] S n argc argv w = Some r \<and>
    ws_main_dbg K J [k0, k1, k2, k3] S n argc argv w = Some r' \<and> rel_sum (=) (rel_prod (=) same) r r'"
  using main_returns [OF assms(2,3), of k0 k1 k2 k3 S n w]
    quiet_kernel.ws_main_agree [OF assms(1), of "[k0, k1, k2, k3]" S n argc argv w J]
  unfolding follows_def by blast

theorem debug_server_same_witness:
  "\<exists>r r'. ws_main loopback [1, 2, 3, 4] demo_stack 2 1 [] demo_world = Some r \<and>
    ws_main_dbg loopback [] [1, 2, 3, 4] demo_stack 2 1 [] demo_world = Some r' \<and>
    rel_sum (=) (rel_prod (=) same_but_stderr) r r'"
proof -
  have "port_from_stack 1 [] = Some DEFAULT_PORT" by (simp add: port_from_stack_def)
  then show ?thesis by (rule debug_server_same [OF quiet_loop.quiet_kernel_axioms loopback_ok])
qed

text \<open>C36. A failed set-up ends the program: when one of the set-up calls fails, the program exits
  with status 1 after writing to stderr its name, the text of the step that failed and a line end,
  and it makes no other system call after the failed set-up.\<close>

theorem startup_failure_reported:
  assumes "port_from_stack argc argv = Some port"
    and "io_setup K (zero_io WS_ROLE_SERVER) port w = (rc, io, w1)" and "rc \<noteq> 0"
  shows "\<exists>m. ws_io_strerror rc = Some m \<and>
    ws_main K key S n argc argv w = Some (Inl (1, snd (k_write K 2 [0x0A] (snd (k_write K 2 (bytes_of m)
      (snd (k_write K 2 (bytes_of ''echo-server: '') w1)))))))"
proof -
  have rc: "rc \<in> {WS_IO_ERR_SOCKET, WS_IO_ERR_BIND, WS_IO_ERR_LISTEN, WS_IO_ERR_EPOLL}"
    using io_setup_codes [OF assms(2)] assms(3) by simp
  then obtain m where m: "ws_io_strerror rc = Some m" using strerror_eq by blast
  have "ws_serve K (on_event K key) S n port WS_ROLE_SERVER w = Some (Inl (rc, w1))"
    using assms(2,3) by (simp add: ws_serve_def)
  then show ?thesis using main_failed [OF assms(1) _ rc m] m by (auto simp: complain_def)
qed

theorem startup_failure_reported_witness:
  "\<exists>w'. ws_main (loopback\<lparr>k_bind := \<lambda>_ _ w. (-98, w)\<rparr>) [1, 2, 3, 4] demo_stack 5 1 [] demo_world = Some (Inl (1, w')) \<and>
    w_out w' 2 = bytes_of ''echo-server: bind() failed (port already in use?)'' @ [0x0A]"
proof -
  let ?K = "loopback\<lparr>k_bind := \<lambda>_ _ w. (-98, w)\<rparr>"
  have p: "port_from_stack 1 [] = Some DEFAULT_PORT" by (simp add: port_from_stack_def)
  obtain io w1 where s: "io_setup ?K (zero_io WS_ROLE_SERVER) DEFAULT_PORT demo_world = (-2, io, w1)" "w_out w1 2 = []"
    by (simp add: io_setup_def open_listener_def bind_then_listen_def do_bind_def loopback_def long_to_int_small
        io_err_defs Let_def demo_world_def world0_def)
  show ?thesis
    using startup_failure_reported [OF p s(1), of "[1, 2, 3, 4]" demo_stack 5] s(2)
    by (auto simp: ws_io_strerror_def strerror_msg_def io_err_defs loopback_def bytes_of_def)
qed

end
